(* ===== verification/Rudp_Prelude.thy ===== *)
theory Rudp_Prelude
  imports
    Main
    "HOL-Library.Word"
    "HOL-Library.Signed_Division"
    "HOL-Library.Monad_Syntax"
begin

unbundle bit_operations_syntax

text \<open>
  Shared vocabulary of the development: names for Go's machine integers, the helpers
  \<^verbatim>\<open>min\<close>, \<^verbatim>\<open>max\<close>, \<^verbatim>\<open>bound\<close> and \<^verbatim>\<open>timeDiff\<close> of \<^verbatim>\<open>rudp.go\<close>, the
  protocol constants, and generic lemmas on lists and words used by several theories.

  A Go panic is the value \<^term>\<open>None\<close> of an option: an operation that can panic returns
  \<open>'a option\<close> and is written in the option monad. The codes the Go functions return
  (\<^verbatim>\<open>-1\<close>, \<^verbatim>\<open>-2\<close>, \<dots>) are ordinary values of type \<^typ>\<open>int\<close>. Go's \<^verbatim>\<open>int\<close> is 64 bits
  wide on the platforms the code targets; lengths of slices are \<^typ>\<open>nat\<close>, arguments that
  may be negative are \<^typ>\<open>int\<close>.
\<close>

named_theorems wire_simps \<open>encoding and decoding facts\<close>
named_theorems frame_simps \<open>fields an operation leaves alone\<close>

type_synonym u8 = "8 word"
type_synonym u16 = "16 word"
type_synonym u32 = "32 word"
type_synonym u64 = "64 word"
type_synonym i32 = "32 word" \<comment> \<open>Go's int32: the same bits, read with \<^const>\<open>sint\<close>\<close>

section \<open>Constants of rudp.go and sess.go\<close>

abbreviation (input) IRUDP_RTO_NDL :: u32 where "IRUDP_RTO_NDL \<equiv> 30"
abbreviation (input) IRUDP_RTO_MIN :: u32 where "IRUDP_RTO_MIN \<equiv> 100"
abbreviation (input) IRUDP_RTO_DEF :: u32 where "IRUDP_RTO_DEF \<equiv> 200"
abbreviation (input) IRUDP_RTO_MAX :: u32 where "IRUDP_RTO_MAX \<equiv> 60000"
abbreviation (input) IRUDP_CMD_PUSH :: u8 where "IRUDP_CMD_PUSH \<equiv> 81"
abbreviation (input) IRUDP_CMD_ACK :: u8 where "IRUDP_CMD_ACK \<equiv> 82"
abbreviation (input) IRUDP_CMD_WASK :: u8 where "IRUDP_CMD_WASK \<equiv> 83"
abbreviation (input) IRUDP_CMD_WINS :: u8 where "IRUDP_CMD_WINS \<equiv> 84"
abbreviation (input) IRUDP_ASK_SEND :: u32 where "IRUDP_ASK_SEND \<equiv> 1"
abbreviation (input) IRUDP_ASK_TELL :: u32 where "IRUDP_ASK_TELL \<equiv> 2"
abbreviation (input) IRUDP_WND_SND :: u32 where "IRUDP_WND_SND \<equiv> 32"
abbreviation (input) IRUDP_WND_RCV :: u32 where "IRUDP_WND_RCV \<equiv> 32"
abbreviation (input) IRUDP_MTU_DEF :: u32 where "IRUDP_MTU_DEF \<equiv> 1400"
abbreviation (input) IRUDP_INTERVAL :: u32 where "IRUDP_INTERVAL \<equiv> 100"
abbreviation (input) IRUDP_DEADLINK :: u32 where "IRUDP_DEADLINK \<equiv> 20"
abbreviation (input) IRUDP_THRESH_INIT :: u32 where "IRUDP_THRESH_INIT \<equiv> 2"
abbreviation (input) IRUDP_THRESH_MIN :: u32 where "IRUDP_THRESH_MIN \<equiv> 2"
abbreviation (input) IRUDP_PROBE_INIT :: u32 where "IRUDP_PROBE_INIT \<equiv> 7000"
abbreviation (input) IRUDP_PROBE_MIN :: u32 where "IRUDP_PROBE_MIN \<equiv> 7000"
abbreviation (input) IRUDP_PROBE_LIMIT :: u32 where "IRUDP_PROBE_LIMIT \<equiv> 120000"
abbreviation (input) IRUDP_OVERHEAD :: nat where "IRUDP_OVERHEAD \<equiv> 24"
abbreviation (input) IRUDP_SN_OFFSET :: nat where "IRUDP_SN_OFFSET \<equiv> 12"
abbreviation (input) mtuLimit :: nat where "mtuLimit \<equiv> 1500"
abbreviation (input) nonceSize :: nat where "nonceSize \<equiv> 16"
abbreviation (input) crcSize :: nat where "crcSize \<equiv> 4"
abbreviation (input) cryptHeaderSize :: nat where "cryptHeaderSize \<equiv> nonceSize + crcSize"
abbreviation (input) acceptBacklog :: nat where "acceptBacklog \<equiv> 128"

section \<open>Helpers on 32-bit integers\<close>

definition rudp_min :: "u32 \<Rightarrow> u32 \<Rightarrow> u32" where
  "rudp_min a b = (if a \<le> b then a else b)"

definition rudp_max :: "u32 \<Rightarrow> u32 \<Rightarrow> u32" where
  "rudp_max a b = (if a \<ge> b then a else b)"

definition rudp_bound :: "u32 \<Rightarrow> u32 \<Rightarrow> u32 \<Rightarrow> u32" where
  "rudp_bound low mid high = rudp_min (rudp_max low mid) high"

text \<open>\<^verbatim>\<open>timeDiff\<close> subtracts modulo \<open>2^32\<close> and reinterprets the result as an int32.\<close>

definition timeDiff :: "u32 \<Rightarrow> u32 \<Rightarrow> i32" where
  "timeDiff later earlier = later - earlier"

lemma rudp_min_eq_min [simp]: "rudp_min a b = min a b"
  by (simp add: rudp_min_def min_def)

lemma rudp_max_eq_max [simp]: "rudp_max a b = max a b"
  by (auto simp: rudp_max_def max_def)

lemma rudp_bound_le: "rudp_bound low mid high \<le> high"
  by (simp add: rudp_bound_def)

lemma rudp_bound_ge: "low \<le> high \<Longrightarrow> low \<le> rudp_bound low mid high"
  by (simp add: rudp_bound_def)

lemma rudp_bound_mid: "low \<le> mid \<Longrightarrow> mid \<le> high \<Longrightarrow> rudp_bound low mid high = mid"
  by (simp add: rudp_bound_def)

text \<open>
  \<^verbatim>\<open>timeDiff\<close> orders two instants by the shorter way round the 32-bit circle: it is
  non-negative exactly when \<open>later\<close> is less than \<open>2^31\<close> ticks ahead, wherever the
  millisecond counter wraps.
\<close>

lemma unat_inj [simp]: "unat a = unat b \<longleftrightarrow> a = (b :: 'a::len word)"
  by (simp add: word_unat_eq_iff)

lemma unat_u32_less: "unat (a :: u32) < 2 ^ 32"
proof -
  have "unat a < 2 ^ LENGTH(32)" by (rule unsigned_less)
  then show ?thesis by simp
qed

lemma unat_u8_Suc: "(a :: u8) \<noteq> 255 \<Longrightarrow> unat (a + 1) = Suc (unat a)"
proof -
  assume "a \<noteq> 255"
  then have "1 + a \<noteq> 0" by (auto simp: add_eq_0_iff)
  then show ?thesis using unatSuc [of a] by (simp add: add.commute)
qed

lemma uint_small: "unat d < 2 ^ k \<Longrightarrow> uint d < 2 ^ k"
  by (simp only: uint_nat of_nat_less_iff [symmetric, where 'a = int] of_nat_power of_nat_numeral)

lemma sint_small: "unat d < 2 ^ 31 \<Longrightarrow> sint (d :: i32) = int (unat d)"
proof -
  assume "unat d < 2 ^ 31"
  then have "uint d < 2 ^ 31" by (rule uint_small)
  then have "signed_take_bit 31 (uint d) = uint d"
    by (intro signed_take_bit_int_eq_self) (auto intro: order_trans [OF _ uint_ge_0])
  then show ?thesis by (simp add: sint_uint)
qed

lemma timeDiff_add: "unat d < 2 ^ 31 \<Longrightarrow> sint (timeDiff (t + d) t) = int (unat d)"
  by (simp add: timeDiff_def sint_small)

end
