(* ===== verification/Snmp.thy ===== *)
theory Snmp
  imports Rudp_Prelude
begin

text \<open>
  \<^verbatim>\<open>snmp.go\<close>: the 24 statistics counters. The global \<^verbatim>\<open>DefaultSnmp\<close> is threaded
  through the model as part of the state \<^verbatim>\<open>world\<close> (theory \<^verbatim>\<open>World\<close>); an
  \<^verbatim>\<open>atomic.AddUint64\<close> is one addition on a 64-bit word, which wraps.
\<close>

record Snmp =
  BytesSent :: u64
  BytesReceived :: u64
  MaxConn :: u64
  ActiveOpens :: u64
  PassiveOpens :: u64
  CurrEstab :: u64
  InErrs :: u64
  InCsumErrors :: u64
  rudpInErrors :: u64
  InPkts :: u64
  OutPkts :: u64
  InSegs :: u64
  OutSegs :: u64
  InBytes :: u64
  OutBytes :: u64
  RetransSegs :: u64
  FastRetransSegs :: u64
  EarlyRetransSegs :: u64
  LostSegs :: u64
  RepeatSegs :: u64
  FECRecovered :: u64
  FECErrs :: u64
  FECParityShards :: u64
  FECShortShards :: u64

definition newSnmp :: Snmp where
  "newSnmp = \<lparr>BytesSent = 0,
     BytesReceived = 0,
     MaxConn = 0,
     ActiveOpens = 0,
     PassiveOpens = 0,
     CurrEstab = 0,
     InErrs = 0,
     InCsumErrors = 0,
     rudpInErrors = 0,
     InPkts = 0,
     OutPkts = 0,
     InSegs = 0,
     OutSegs = 0,
     InBytes = 0,
     OutBytes = 0,
     RetransSegs = 0,
     FastRetransSegs = 0,
     EarlyRetransSegs = 0,
     LostSegs = 0,
     RepeatSegs = 0,
     FECRecovered = 0,
     FECErrs = 0,
     FECParityShards = 0,
     FECShortShards = 0\<rparr>"

definition Snmp_Header :: "string list" where
  "Snmp_Header =
    [''BytesSent'',
     ''BytesReceived'',
     ''MaxConn'',
     ''ActiveOpens'',
     ''PassiveOpens'',
     ''CurrEstab'',
     ''InErrs'',
     ''InCsumErrors'',
     ''rudpInErrors'',
     ''InPkts'',
     ''OutPkts'',
     ''InSegs'',
     ''OutSegs'',
     ''InBytes'',
     ''OutBytes'',
     ''RetransSegs'',
     ''FastRetransSegs'',
     ''EarlyRetransSegs'',
     ''LostSegs'',
     ''RepeatSegs'',
     ''FECParityShards'',
     ''FECErrs'',
     ''FECRecovered'',
     ''FECShortShards'']"

text \<open>\<^verbatim>\<open>Copy\<close> loads the counters one after the other into a fresh \<^verbatim>\<open>Snmp\<close>.\<close>

definition Snmp_Copy :: "Snmp \<Rightarrow> Snmp" where
  "Snmp_Copy s =
    (let d = newSnmp;
         d = d\<lparr>BytesSent := BytesSent s\<rparr>;
         d = d\<lparr>BytesReceived := BytesReceived s\<rparr>;
         d = d\<lparr>MaxConn := MaxConn s\<rparr>;
         d = d\<lparr>ActiveOpens := ActiveOpens s\<rparr>;
         d = d\<lparr>PassiveOpens := PassiveOpens s\<rparr>;
         d = d\<lparr>CurrEstab := CurrEstab s\<rparr>;
         d = d\<lparr>InErrs := InErrs s\<rparr>;
         d = d\<lparr>InCsumErrors := InCsumErrors s\<rparr>;
         d = d\<lparr>rudpInErrors := rudpInErrors s\<rparr>;
         d = d\<lparr>InPkts := InPkts s\<rparr>;
         d = d\<lparr>OutPkts := OutPkts s\<rparr>;
         d = d\<lparr>InSegs := InSegs s\<rparr>;
         d = d\<lparr>OutSegs := OutSegs s\<rparr>;
         d = d\<lparr>InBytes := InBytes s\<rparr>;
         d = d\<lparr>OutBytes := OutBytes s\<rparr>;
         d = d\<lparr>RetransSegs := RetransSegs s\<rparr>;
         d = d\<lparr>FastRetransSegs := FastRetransSegs s\<rparr>;
         d = d\<lparr>EarlyRetransSegs := EarlyRetransSegs s\<rparr>;
         d = d\<lparr>LostSegs := LostSegs s\<rparr>;
         d = d\<lparr>RepeatSegs := RepeatSegs s\<rparr>;
         d = d\<lparr>FECParityShards := FECParityShards s\<rparr>;
         d = d\<lparr>FECErrs := FECErrs s\<rparr>;
         d = d\<lparr>FECRecovered := FECRecovered s\<rparr>;
         d = d\<lparr>FECShortShards := FECShortShards s\<rparr>
     in d)"

text \<open>\<^verbatim>\<open>fmt.Sprint\<close> of a uint64: its decimal digits, most significant first.\<close>

fun decimal :: "nat \<Rightarrow> string" where
  "decimal n = (if n < 10 then [char_of (48 + n)] else decimal (n div 10) @ [char_of (48 + n mod 10)])"

declare decimal.simps [simp del]

definition Sprint :: "u64 \<Rightarrow> string" where
  "Sprint u = decimal (unat u)"

definition Snmp_ToSlice :: "Snmp \<Rightarrow> string list" where
  "Snmp_ToSlice s =
    (let snmp = Snmp_Copy s
     in [Sprint (BytesSent snmp),
         Sprint (BytesReceived snmp),
         Sprint (MaxConn snmp),
         Sprint (ActiveOpens snmp),
         Sprint (PassiveOpens snmp),
         Sprint (CurrEstab snmp),
         Sprint (InErrs snmp),
         Sprint (InCsumErrors snmp),
         Sprint (rudpInErrors snmp),
         Sprint (InPkts snmp),
         Sprint (OutPkts snmp),
         Sprint (InSegs snmp),
         Sprint (OutSegs snmp),
         Sprint (InBytes snmp),
         Sprint (OutBytes snmp),
         Sprint (RetransSegs snmp),
         Sprint (FastRetransSegs snmp),
         Sprint (EarlyRetransSegs snmp),
         Sprint (LostSegs snmp),
         Sprint (RepeatSegs snmp),
         Sprint (FECParityShards snmp),
         Sprint (FECErrs snmp),
         Sprint (FECRecovered snmp),
         Sprint (FECShortShards snmp)])"

text \<open>\<^verbatim>\<open>Reset\<close> stores zero in the counters one after the other.\<close>

definition Snmp_Reset :: "Snmp \<Rightarrow> Snmp" where
  "Snmp_Reset s =
    (let s = s\<lparr>BytesSent := 0\<rparr>;
         s = s\<lparr>BytesReceived := 0\<rparr>;
         s = s\<lparr>MaxConn := 0\<rparr>;
         s = s\<lparr>ActiveOpens := 0\<rparr>;
         s = s\<lparr>PassiveOpens := 0\<rparr>;
         s = s\<lparr>CurrEstab := 0\<rparr>;
         s = s\<lparr>InErrs := 0\<rparr>;
         s = s\<lparr>InCsumErrors := 0\<rparr>;
         s = s\<lparr>rudpInErrors := 0\<rparr>;
         s = s\<lparr>InPkts := 0\<rparr>;
         s = s\<lparr>OutPkts := 0\<rparr>;
         s = s\<lparr>InSegs := 0\<rparr>;
         s = s\<lparr>OutSegs := 0\<rparr>;
         s = s\<lparr>InBytes := 0\<rparr>;
         s = s\<lparr>OutBytes := 0\<rparr>;
         s = s\<lparr>RetransSegs := 0\<rparr>;
         s = s\<lparr>FastRetransSegs := 0\<rparr>;
         s = s\<lparr>EarlyRetransSegs := 0\<rparr>;
         s = s\<lparr>LostSegs := 0\<rparr>;
         s = s\<lparr>RepeatSegs := 0\<rparr>;
         s = s\<lparr>FECParityShards := 0\<rparr>;
         s = s\<lparr>FECErrs := 0\<rparr>;
         s = s\<lparr>FECRecovered := 0\<rparr>;
         s = s\<lparr>FECShortShards := 0\<rparr>
     in s)"

section \<open>Nothing is forgotten\<close>

lemma Snmp_Copy_id [simp]: "Snmp_Copy s = s"
  by (cases s) (simp add: Snmp_Copy_def newSnmp_def)

lemma Snmp_Reset_new [simp]: "Snmp_Reset s = newSnmp"
  by (cases s) (simp add: Snmp_Reset_def newSnmp_def)

lemma decimal_nonempty: "decimal n \<noteq> []"
  by (subst decimal.simps) simp

text \<open>Reading the digits back gives the number, so different counters print differently.\<close>

definition undecimal :: "string \<Rightarrow> nat" where
  "undecimal cs = foldl (\<lambda>n c. 10 * n + (of_char c - 48)) 0 cs"

lemma undecimal_snoc: "undecimal (cs @ [c]) = 10 * undecimal cs + (of_char c - 48)"
  by (simp add: undecimal_def)

lemma undecimal_decimal: "undecimal (decimal n) = n"
proof (induction n rule: decimal.induct)
  case (1 n)
  show ?case
  proof (cases "n < 10")
    case True
    then show ?thesis by (subst decimal.simps) (simp add: undecimal_def)
  next
    case False
    have "of_char (char_of (48 + n mod 10) :: char) = (48 + n mod 10 :: nat)"
      by simp
    with False 1 show ?thesis by (subst decimal.simps) (simp add: undecimal_snoc)
  qed
qed

lemma Sprint_inject: "Sprint a = Sprint b \<longleftrightarrow> a = b"
  by (metis Sprint_def undecimal_decimal word_unat_eq_iff)

end
