(* ===== verification/World.thy ===== *)
theory World
  imports Snmp
begin

text \<open>
  What the protocol code shares with its surroundings: the statistics \<^verbatim>\<open>DefaultSnmp\<close>, the
  clock and the output callback.

  \<^item> \<open>clock\<close> gives the results of the coming calls of \<^verbatim>\<open>time.Since(startTime)\<close>, in
    nanoseconds; each reading consumes one. Theorems hold for every such sequence.
  \<^item> \<open>out_calls\<close> is the list of calls \<^verbatim>\<open>output(buf, size)\<close> made so far, with the contents
    of \<^verbatim>\<open>buf\<close> at the time of the call. The callback the session installs only reads
    \<^verbatim>\<open>buf[:size]\<close> and never touches the RUDP state, so recording the calls and handling
    them afterwards (theory \<^verbatim>\<open>Session\<close>) is the same as handling each on the spot.
\<close>

record world =
  DefaultSnmp :: Snmp
  clock :: "nat \<Rightarrow> int"
  out_calls :: "(u8 list \<times> nat) list"

text \<open>\<^verbatim>\<open>uint32(time.Since(startTime) / time.Millisecond)\<close>.\<close>

definition currentMs :: "world \<Rightarrow> u32 \<times> world" where
  "currentMs w = (word_of_int (clock w 0 sdiv 1000000), w\<lparr>clock := \<lambda>n. clock w (Suc n)\<rparr>)"

definition call_output :: "u8 list \<Rightarrow> nat \<Rightarrow> world \<Rightarrow> world" where
  "call_output buf sz w = w\<lparr>out_calls := out_calls w @ [(buf, sz)]\<rparr>"

text \<open>\<^verbatim>\<open>atomic.AddUint64(&DefaultSnmp.F, n)\<close>, with the field given by its update function.\<close>

definition AddUint64 :: "((u64 \<Rightarrow> u64) \<Rightarrow> Snmp \<Rightarrow> Snmp) \<Rightarrow> u64 \<Rightarrow> world \<Rightarrow> world" where
  "AddUint64 upd n w = w\<lparr>DefaultSnmp := upd (\<lambda>c. c + n) (DefaultSnmp w)\<rparr>"

text \<open>The bytes the callback is given: \<^verbatim>\<open>buf[:size]\<close>.\<close>

definition packets :: "world \<Rightarrow> u8 list list" where
  "packets w = map (\<lambda>(buf, sz). take sz buf) (out_calls w)"

lemma AddUint64_frame [simp]:
  "clock (AddUint64 upd n w) = clock w"
  "out_calls (AddUint64 upd n w) = out_calls w"
  "packets (AddUint64 upd n w) = packets w"
  "DefaultSnmp (AddUint64 upd n w) = upd (\<lambda>c. c + n) (DefaultSnmp w)"
  by (simp_all add: AddUint64_def packets_def)

lemma call_output_frame [simp]:
  "clock (call_output buf sz w) = clock w"
  "out_calls (call_output buf sz w) = out_calls w @ [(buf, sz)]"
  "packets (call_output buf sz w) = packets w @ [take sz buf]"
  "DefaultSnmp (call_output buf sz w) = DefaultSnmp w"
  by (simp_all add: call_output_def packets_def)

lemma currentMs_frame [simp]:
  "out_calls (snd (currentMs w)) = out_calls w"
  "packets (snd (currentMs w)) = packets w"
  "DefaultSnmp (snd (currentMs w)) = DefaultSnmp w"
  by (simp_all add: currentMs_def packets_def)

text \<open>
  The clock a run of the program would see when its successive readings are the given
  milliseconds; used to evaluate the model on concrete inputs.
\<close>

definition ms_clock :: "nat list \<Rightarrow> nat \<Rightarrow> int" where
  "ms_clock ms n = 1000000 * int (if n < length ms then ms ! n else 0)"

definition new_world :: "nat list \<Rightarrow> world" where
  "new_world ms = \<lparr>DefaultSnmp = newSnmp, clock = ms_clock ms, out_calls = []\<rparr>"

end
