(* ===== verification/Wire.thy ===== *)
theory Wire
  imports World
begin

text \<open>
  The wire format of \<^verbatim>\<open>rudp.go\<close>: the segment type, the little-endian field encoders and
  decoders, and the 24-byte header \<^verbatim>\<open>encodeOverHead\<close> writes. A write position is a
  \<open>cursor\<close>: the whole backing buffer and the offset of the slice \<^verbatim>\<open>ptr\<close> in it, so that
  writing through \<^verbatim>\<open>ptr\<close> is seen in \<^verbatim>\<open>buffer\<close>, as in the code. Writing past the end of the
  buffer and decoding from too few bytes panic (\<^term>\<open>None\<close>).
\<close>

record segment =
  seg_conv :: u32
  seg_cmd :: u8
  seg_frg :: u8
  seg_wnd :: u16
  seg_ts :: u32
  seg_sn :: u32
  seg_una :: u32
  seg_rto :: u32
  seg_xmit :: u32
  seg_resendts :: u32
  seg_fastack :: u32
  seg_acked :: u32
  seg_data :: "u8 list"

text \<open>The zero value \<^verbatim>\<open>segment{}\<close>.\<close>

definition zero_segment :: segment where
  "zero_segment = \<lparr>seg_conv = 0, seg_cmd = 0, seg_frg = 0, seg_wnd = 0, seg_ts = 0, seg_sn = 0,
     seg_una = 0, seg_rto = 0, seg_xmit = 0, seg_resendts = 0, seg_fastack = 0, seg_acked = 0,
     seg_data = []\<rparr>"

type_synonym cursor = "u8 list \<times> nat"

definition put_bytes :: "cursor \<Rightarrow> u8 list \<Rightarrow> cursor option" where
  "put_bytes c bs = (case c of (b, p) \<Rightarrow>
     if p + length bs \<le> length b
     then Some (take p b @ bs @ drop (p + length bs) b, p + length bs) else None)"

text \<open>\<^verbatim>\<open>binary.LittleEndian\<close>: the bytes of a value, lowest first, and back.\<close>

definition le16 :: "u16 \<Rightarrow> u8 list" where
  "le16 u = [ucast u, ucast (drop_bit 8 u)]"

definition le32 :: "u32 \<Rightarrow> u8 list" where
  "le32 u = [ucast u, ucast (drop_bit 8 u), ucast (drop_bit 16 u), ucast (drop_bit 24 u)]"

definition encodeUint8 :: "cursor \<Rightarrow> u8 \<Rightarrow> cursor option" where
  "encodeUint8 b u = put_bytes b [u]"

definition encodeUint16 :: "cursor \<Rightarrow> u16 \<Rightarrow> cursor option" where
  "encodeUint16 b u = put_bytes b (le16 u)"

definition encodeUint32 :: "cursor \<Rightarrow> u32 \<Rightarrow> cursor option" where
  "encodeUint32 b u = put_bytes b (le32 u)"

definition decodeUint8 :: "u8 list \<Rightarrow> (u8 \<times> u8 list) option" where
  "decodeUint8 data = (case data of a # rest \<Rightarrow> Some (a, rest) | _ \<Rightarrow> None)"

definition decodeUint16 :: "u8 list \<Rightarrow> (u16 \<times> u8 list) option" where
  "decodeUint16 data = (case data of
     a # b # rest \<Rightarrow> Some (ucast a OR push_bit 8 (ucast b), rest) | _ \<Rightarrow> None)"

definition decodeUint32 :: "u8 list \<Rightarrow> (u32 \<times> u8 list) option" where
  "decodeUint32 data = (case data of
     a # b # c # d # rest \<Rightarrow>
       Some (ucast a OR push_bit 8 (ucast b) OR push_bit 16 (ucast c) OR push_bit 24 (ucast d), rest)
   | _ \<Rightarrow> None)"

definition encodeOverHead :: "segment \<Rightarrow> cursor \<Rightarrow> world \<Rightarrow> (cursor \<times> world) option" where
  "encodeOverHead seg ptr w =
    do {
      ptr \<leftarrow> encodeUint32 ptr (seg_conv seg);
      ptr \<leftarrow> encodeUint8 ptr (seg_cmd seg);
      ptr \<leftarrow> encodeUint8 ptr (seg_frg seg);
      ptr \<leftarrow> encodeUint16 ptr (seg_wnd seg);
      ptr \<leftarrow> encodeUint32 ptr (seg_ts seg);
      ptr \<leftarrow> encodeUint32 ptr (seg_sn seg);
      ptr \<leftarrow> encodeUint32 ptr (seg_una seg);
      ptr \<leftarrow> encodeUint32 ptr (word_of_nat (length (seg_data seg)));
      Some (ptr, AddUint64 OutSegs_update 1 w)
    }"

text \<open>
  \<^verbatim>\<open>copy(ptr, seg.data)\<close> copies what fits; the slice expression \<^verbatim>\<open>ptr[len(seg.data):]\<close>
  then panics unless all of it did.
\<close>

definition encodeData :: "segment \<Rightarrow> cursor \<Rightarrow> cursor option" where
  "encodeData seg ptr = put_bytes ptr (seg_data seg)"

section \<open>Fixed-width codecs\<close>

text \<open>
  What every field of the header promises: encodings of one width, decoding that consumes
  exactly one encoding and returns the value, and fails only on too few bytes.
\<close>

locale byte_codec =
  fixes enc :: "'a \<Rightarrow> u8 list"
    and dec :: "u8 list \<Rightarrow> ('a \<times> u8 list) option"
    and width :: nat
  assumes width_enc: "length (enc x) = width"
    and dec_enc: "dec (enc x @ rest) = Some (x, rest)"
    and dec_Some: "dec bs = Some (x, rest) \<Longrightarrow> bs = enc x @ rest"
    and dec_total: "width \<le> length bs \<Longrightarrow> \<exists>x rest. dec bs = Some (x, rest)"
begin

lemma enc_inject: "enc x = enc y \<Longrightarrow> x = y"
  using dec_enc [of x "[]"] dec_enc [of y "[]"] by simp

lemma dec_iff: "dec bs = Some (x, rest) \<longleftrightarrow> bs = enc x @ rest"
  using dec_Some dec_enc by auto

lemma dec_None_iff: "dec bs = None \<longleftrightarrow> length bs < width"
proof
  assume "dec bs = None"
  then show "length bs < width" using dec_total [of bs] by (cases "width \<le> length bs") auto
next
  assume short: "length bs < width"
  show "dec bs = None"
  proof (cases "dec bs")
    case (Some a)
    then obtain x rest where "dec bs = Some (x, rest)" by (cases a) auto
    then have "length bs = width + length rest" by (metis dec_Some length_append width_enc)
    with short show ?thesis by simp
  qed
qed

lemma dec_length: "dec bs = Some (x, rest) \<Longrightarrow> length bs = width + length rest"
  by (metis dec_Some length_append width_enc)

lemma dec_obtain: "width + n \<le> length bs \<Longrightarrow> \<exists>x rest. dec bs = Some (x, rest) \<and> n \<le> length rest"
  using dec_total [of bs] dec_length by fastforce

end

lemma le16_join: "ucast (ucast u :: u8) OR push_bit 8 (ucast (ucast (drop_bit 8 u) :: u8)) = (u :: u16)"
  by (rule bit_eqI) (auto simp: bit_simps)

lemma le32_join:
  "ucast (ucast u :: u8) OR push_bit 8 (ucast (ucast (drop_bit 8 u) :: u8))
   OR push_bit 16 (ucast (ucast (drop_bit 16 u) :: u8))
   OR push_bit 24 (ucast (ucast (drop_bit 24 u) :: u8)) = (u :: u32)"
proof (rule bit_word_eqI)
  fix n assume "n < LENGTH(32)"
  then show "bit (ucast (ucast u :: u8) OR push_bit 8 (ucast (ucast (drop_bit 8 u) :: u8))
   OR push_bit 16 (ucast (ucast (drop_bit 16 u) :: u8))
   OR push_bit 24 (ucast (ucast (drop_bit 24 u) :: u8)) :: u32) n \<longleftrightarrow> bit u n"
    by (cases "24 \<le> n"; cases "16 \<le> n") (auto simp: bit_simps)
qed

lemma bit_u8_less: "bit (a :: u8) n \<Longrightarrow> n < 8"
  using bit_imp_le_length [of a n] by simp

lemma le16_bytes: "le16 (ucast a OR push_bit 8 (ucast b)) = [a, b]"
  by (auto simp: le16_def bit_eq_iff bit_simps dest: bit_u8_less)

lemma le32_bytes:
  "le32 (ucast a OR push_bit 8 (ucast b) OR push_bit 16 (ucast c) OR push_bit 24 (ucast d)) = [a, b, c, d]"
  by (auto simp: le32_def bit_eq_iff bit_simps dest: bit_u8_less)

lemma length_ge_Cons: "Suc n \<le> length xs \<longleftrightarrow> (\<exists>y ys. xs = y # ys \<and> n \<le> length ys)"
  by (cases xs) auto

interpretation u8c: byte_codec "\<lambda>u. [u]" decodeUint8 1
  by unfold_locales (auto simp: decodeUint8_def length_ge_Cons split: list.splits)

interpretation u16c: byte_codec le16 decodeUint16 2
proof
  fix x rest
  show "length (le16 x) = 2" by (simp add: le16_def)
  show "decodeUint16 (le16 x @ rest) = Some (x, rest)"
    by (simp add: decodeUint16_def le16_def le16_join)
next
  fix bs x rest
  show "decodeUint16 bs = Some (x, rest) \<Longrightarrow> bs = le16 x @ rest"
    by (auto simp: decodeUint16_def le16_bytes split: list.splits)
next
  fix bs :: "u8 list"
  assume "2 \<le> length bs"
  then show "\<exists>x rest. decodeUint16 bs = Some (x, rest)"
    by (auto simp: decodeUint16_def numeral_2_eq_2 length_ge_Cons)
qed

interpretation u32c: byte_codec le32 decodeUint32 4
proof
  fix x rest
  show "length (le32 x) = 4" by (simp add: le32_def)
  show "decodeUint32 (le32 x @ rest) = Some (x, rest)"
    by (simp add: decodeUint32_def le32_def le32_join)
next
  fix bs x rest
  show "decodeUint32 bs = Some (x, rest) \<Longrightarrow> bs = le32 x @ rest"
    by (auto simp: decodeUint32_def le32_bytes split: list.splits)
next
  fix bs :: "u8 list"
  assume "4 \<le> length bs"
  then show "\<exists>x rest. decodeUint32 bs = Some (x, rest)"
    by (auto simp: decodeUint32_def numeral_eq_Suc length_ge_Cons)
qed

section \<open>The header\<close>

text \<open>
  The fields of a header as the receiver sees them; \<^verbatim>\<open>Input\<close> reads the conversation number
  first and the other seven fields after it has accepted it.
\<close>

record header =
  hd_cmd :: u8
  hd_frg :: u8
  hd_wnd :: u16
  hd_ts :: u32
  hd_sn :: u32
  hd_una :: u32
  hd_length :: u32

definition decodeFields :: "u8 list \<Rightarrow> (header \<times> u8 list) option" where
  "decodeFields data =
    do {
      (cmd, data) \<leftarrow> decodeUint8 data;
      (frg, data) \<leftarrow> decodeUint8 data;
      (wnd, data) \<leftarrow> decodeUint16 data;
      (ts, data) \<leftarrow> decodeUint32 data;
      (sn, data) \<leftarrow> decodeUint32 data;
      (una, data) \<leftarrow> decodeUint32 data;
      (len, data) \<leftarrow> decodeUint32 data;
      Some (\<lparr>hd_cmd = cmd, hd_frg = frg, hd_wnd = wnd, hd_ts = ts, hd_sn = sn, hd_una = una,
             hd_length = len\<rparr>, data)
    }"

definition field_bytes :: "header \<Rightarrow> u8 list" where
  "field_bytes h = [hd_cmd h, hd_frg h] @ le16 (hd_wnd h) @ le32 (hd_ts h) @ le32 (hd_sn h)
     @ le32 (hd_una h) @ le32 (hd_length h)"

definition header_of :: "segment \<Rightarrow> header" where
  "header_of seg = \<lparr>hd_cmd = seg_cmd seg, hd_frg = seg_frg seg, hd_wnd = seg_wnd seg, hd_ts = seg_ts seg,
     hd_sn = seg_sn seg, hd_una = seg_una seg, hd_length = word_of_nat (length (seg_data seg))\<rparr>"

definition header_bytes :: "segment \<Rightarrow> u8 list" where
  "header_bytes seg = le32 (seg_conv seg) @ field_bytes (header_of seg)"

lemma length_le [simp, wire_simps]: "length (le16 a) = 2" "length (le32 b) = 4"
  by (simp_all add: le16_def le32_def)

lemma length_field_bytes [simp, wire_simps]: "length (field_bytes h) = 20"
  by (simp add: field_bytes_def)

lemma length_header_bytes [simp, wire_simps]: "length (header_bytes seg) = 24"
  by (simp add: header_bytes_def)

interpretation fieldsc: byte_codec field_bytes decodeFields 20
proof
  fix h rest
  show "length (field_bytes h) = 20" by simp
  show "decodeFields (field_bytes h @ rest) = Some (h, rest)"
    using u8c.dec_enc by (simp add: decodeFields_def field_bytes_def u16c.dec_enc u32c.dec_enc)
next
  fix bs h rest
  assume "decodeFields bs = Some (h, rest)"
  then show "bs = field_bytes h @ rest"
    by (auto simp: decodeFields_def field_bytes_def bind_eq_Some_conv u8c.dec_iff u16c.dec_iff u32c.dec_iff)
next
  fix bs :: "u8 list"
  assume len: "20 \<le> length bs"
  obtain a b1 where 1: "decodeUint8 bs = Some (a, b1)" "19 \<le> length b1"
    using len u8c.dec_obtain [of 19 bs] by auto
  obtain b b2 where 2: "decodeUint8 b1 = Some (b, b2)" "18 \<le> length b2"
    using 1 u8c.dec_obtain [of 18 b1] by auto
  obtain c b3 where 3: "decodeUint16 b2 = Some (c, b3)" "16 \<le> length b3"
    using 2 u16c.dec_obtain [of 16 b2] by auto
  obtain d b4 where 4: "decodeUint32 b3 = Some (d, b4)" "12 \<le> length b4"
    using 3 u32c.dec_obtain [of 12 b3] by auto
  obtain e b5 where 5: "decodeUint32 b4 = Some (e, b5)" "8 \<le> length b5"
    using 4 u32c.dec_obtain [of 8 b4] by auto
  obtain f b6 where 6: "decodeUint32 b5 = Some (f, b6)" "4 \<le> length b6"
    using 5 u32c.dec_obtain [of 4 b5] by auto
  obtain g b7 where 7: "decodeUint32 b6 = Some (g, b7)"
    using 6 u32c.dec_obtain [of 0 b6] by auto
  show "\<exists>h rest. decodeFields bs = Some (h, rest)"
    using 1 2 3 4 5 6 7 by (simp add: decodeFields_def)
qed

section \<open>Writing through a cursor\<close>

lemma put_bytes_append:
  "Option.bind (put_bytes c xs) (\<lambda>c. put_bytes c ys) = put_bytes c (xs @ ys)"
proof (cases c)
  case (Pair b p)
  show ?thesis
  proof (cases "p + length xs + length ys \<le> length b")
    case True
    then have "p \<le> length b" "p + length xs \<le> length b" by simp_all
    with True Pair show ?thesis
      by (simp add: put_bytes_def ac_simps)
  next
    case False
    with Pair show ?thesis by (simp add: put_bytes_def)
  qed
qed

lemma put_bytes_append_bind:
  "Option.bind (put_bytes c xs) (\<lambda>c. Option.bind (put_bytes c ys) k) = Option.bind (put_bytes c (xs @ ys)) k"
  by (simp flip: put_bytes_append)

lemma encodeOverHead_put:
  "encodeOverHead seg c w = do { c \<leftarrow> put_bytes c (header_bytes seg); Some (c, AddUint64 OutSegs_update 1 w) }"
  by (simp add: encodeOverHead_def encodeUint8_def encodeUint16_def encodeUint32_def
      put_bytes_append_bind header_bytes_def field_bytes_def header_of_def)

lemma put_bytes_Some:
  "put_bytes (b, p) bs = Some (b', p') \<longleftrightarrow>
     p + length bs \<le> length b \<and> b' = take p b @ bs @ drop (p + length bs) b \<and> p' = p + length bs"
  by (auto simp: put_bytes_def)

end
