(* ===== verification/Go_Slice.thy ===== *)
theory Go_Slice
  imports Rudp_Prelude
begin

text \<open>
  Go slices with their backing array, for the places of \<^verbatim>\<open>rudp.go\<close> that edit a slice in
  place: \<^verbatim>\<open>removeFront\<close> and the insertion into \<^verbatim>\<open>rcvBuf\<close>. A slice is a window
  \<open>[off, off + len)\<close> on its backing array; \<open>view\<close> is the list of elements the program
  sees. The rest of the development works on views; the lemmas here say that the in-place
  routines compute the list operations the other theories use.
\<close>

record 'a go_slice =
  backing :: "'a list"
  off :: nat
  len :: nat

definition slice_ok :: "'a go_slice \<Rightarrow> bool" where
  "slice_ok s \<longleftrightarrow> off s + len s \<le> length (backing s)"

definition view :: "'a go_slice \<Rightarrow> 'a list" where
  "view s = take (len s) (drop (off s) (backing s))"

definition slice_cap :: "'a go_slice \<Rightarrow> nat" where
  "slice_cap s = length (backing s) - off s"

text \<open>\<^verbatim>\<open>s[k:]\<close> and \<^verbatim>\<open>s[:k]\<close>; out of range they panic.\<close>

definition slice_from :: "'a go_slice \<Rightarrow> nat \<Rightarrow> 'a go_slice option" where
  "slice_from s k = (if k \<le> len s then Some (s\<lparr>off := off s + k, len := len s - k\<rparr>) else None)"

definition slice_to :: "'a go_slice \<Rightarrow> nat \<Rightarrow> 'a go_slice option" where
  "slice_to s k = (if k \<le> slice_cap s then Some (s\<lparr>len := k\<rparr>) else None)"

text \<open>
  \<^verbatim>\<open>copy(dst, src)\<close> moves \<^verbatim>\<open>min(len(dst), len(src))\<close> elements, reading the source before
  it writes; the result is the changed array and the number of elements.
\<close>

definition go_copy :: "'a go_slice \<Rightarrow> 'a list \<Rightarrow> 'a go_slice \<times> nat" where
  "go_copy dst src =
    (let n = min (len dst) (length src)
     in (dst\<lparr>backing := take (off dst) (backing dst) @ take n src @ drop (off dst + n) (backing dst)\<rparr>, n))"

text \<open>
  \<^verbatim>\<open>append(s, xs...)\<close> writes in place when the capacity suffices and reallocates otherwise;
  \<open>grow\<close> stands for the spare room the runtime adds to the new array.
\<close>

definition go_append :: "'a list \<Rightarrow> 'a go_slice \<Rightarrow> 'a list \<Rightarrow> 'a go_slice" where
  "go_append grow s xs =
    (if len s + length xs \<le> slice_cap s
     then s\<lparr>backing := take (off s + len s) (backing s) @ xs @ drop (off s + len s + length xs) (backing s),
            len := len s + length xs\<rparr>
     else \<lparr>backing = view s @ xs @ grow, off = 0, len = len s + length xs\<rparr>)"

text \<open>\<^verbatim>\<open>removeFront\<close>: move the window, or move the elements when most of the array is dropped.\<close>

definition removeFront_slice :: "'a go_slice \<Rightarrow> nat \<Rightarrow> 'a go_slice option" where
  "removeFront_slice buf removeCount =
    (if removeCount \<le> slice_cap buf div 2 then slice_from buf removeCount
     else do {
       rest \<leftarrow> slice_from buf removeCount;
       (let (buf, newLen) = go_copy buf (view rest) in slice_to buf newLen)
     })"

text \<open>What it computes, on views: the definition the other theories use.\<close>

definition removeFront :: "'a list \<Rightarrow> nat \<Rightarrow> 'a list" where
  "removeFront buf removeCount = drop removeCount buf"

text \<open>
  The insertion \<^verbatim>\<open>append(buf[:i], append([]segment{seg}, buf[i:]...)...)\<close> of
  \<^verbatim>\<open>parseData\<close>: the inner \<^verbatim>\<open>append\<close> starts from a fresh one-element slice, so the tail is
  copied out before the outer one overwrites it.
\<close>

definition insert_at_slice :: "'a list \<Rightarrow> 'a list \<Rightarrow> 'a go_slice \<Rightarrow> nat \<Rightarrow> 'a \<Rightarrow> 'a go_slice option" where
  "insert_at_slice grow1 grow2 buf i x =
    do {
      tail \<leftarrow> slice_from buf i;
      front \<leftarrow> slice_to buf i;
      Some (go_append grow1 front (view (go_append grow2 \<lparr>backing = [x], off = 0, len = 1\<rparr> (view tail))))
    }"

definition insert_at :: "'a list \<Rightarrow> nat \<Rightarrow> 'a \<Rightarrow> 'a list" where
  "insert_at buf i x = take i buf @ [x] @ drop i buf"

section \<open>The in-place routines compute the list operations\<close>

lemma length_view [simp]: "slice_ok s \<Longrightarrow> length (view s) = len s"
  by (simp add: slice_ok_def view_def)

lemma view_slice_from: "slice_from s k = Some t \<Longrightarrow> view t = drop k (view s)"
  by (auto simp: slice_from_def view_def drop_take add.commute split: if_splits)

lemma view_go_append: "slice_ok s \<Longrightarrow> view (go_append grow s xs) = view s @ xs"
  by (simp add: go_append_def view_def slice_ok_def slice_cap_def take_drop add.commute)

lemma slice_ok_go_append: "slice_ok s \<Longrightarrow> slice_ok (go_append grow s xs)"
  by (auto simp: go_append_def slice_ok_def slice_cap_def view_def)

lemma go_copy_front:
  assumes "slice_ok dst" and "length src \<le> len dst"
  shows "\<exists>t. slice_to (fst (go_copy dst src)) (snd (go_copy dst src)) = Some t \<and> slice_ok t \<and> view t = src"
  using assms by (simp add: go_copy_def slice_to_def slice_cap_def slice_ok_def view_def Let_def)

lemma removeFront_slice_refines:
  assumes "slice_ok buf" and "k \<le> len buf"
  shows "\<exists>t. removeFront_slice buf k = Some t \<and> slice_ok t \<and> view t = removeFront (view buf) k"
proof -
  obtain rest where rest: "slice_from buf k = Some rest" "slice_ok rest" "view rest = drop k (view buf)"
    using assms view_slice_from [of buf k] by (auto simp: slice_from_def slice_ok_def)
  show ?thesis
  proof (cases "k \<le> slice_cap buf div 2")
    case True
    with rest show ?thesis by (simp add: removeFront_slice_def removeFront_def)
  next
    case False
    have "length (view rest) \<le> len buf" using rest assms by simp
    from go_copy_front [OF assms(1) this] False rest show ?thesis
      by (simp add: removeFront_slice_def removeFront_def case_prod_beta)
  qed
qed

lemma insert_at_slice_refines:
  assumes "slice_ok buf" and "i \<le> len buf"
  shows "\<exists>t. insert_at_slice g1 g2 buf i x = Some t \<and> slice_ok t \<and> view t = insert_at (view buf) i x"
proof -
  let ?front = "buf\<lparr>len := i\<rparr>"
  have front: "slice_ok ?front" "slice_to buf i = Some ?front" "view ?front = take i (view buf)"
    using assms by (auto simp: slice_ok_def slice_to_def slice_cap_def view_def min_def)
  obtain tl where tl: "slice_from buf i = Some tl" "view tl = drop i (view buf)"
    using assms view_slice_from [of buf i] by (auto simp: slice_from_def)
  have one: "slice_ok \<lparr>backing = [x], off = 0, len = 1\<rparr>" "view \<lparr>backing = [x], off = 0, len = 1\<rparr> = [x]"
    by (simp_all add: slice_ok_def view_def)
  show ?thesis
    using front tl one
    by (simp add: insert_at_slice_def insert_at_def view_go_append slice_ok_go_append)
qed

end
