(* ===== verification/Rudp_State.thy ===== *)
theory Rudp_State
  imports Wire Go_Slice
begin

text \<open>
  The state of one end of a connection, the struct \<^verbatim>\<open>RUDP\<close> of \<^verbatim>\<open>rudp.go\<close>, with its
  constructor, the configuration operations and the operations that only read it.
  \<^verbatim>\<open>int32\<close> fields are 32-bit words read with \<^const>\<open>sint\<close>; \<^verbatim>\<open>reserved\<close> is a Go
  \<^verbatim>\<open>int\<close>. The callback \<^verbatim>\<open>output\<close> is not a field: its calls are recorded in the \<^verbatim>\<open>world\<close>.

  The buffer pool \<^verbatim>\<open>xmitBuf\<close> hands out arrays of capacity \<^const>\<open>mtuLimit\<close>; taking
  more than that from one is a slice panic. Its contents are stale bytes that every caller
  overwrites, so a pooled buffer of a given length is modelled by zeros, and giving a buffer
  back has no effect but to forget it (\<^verbatim>\<open>seg.data = nil\<close>).
\<close>

record ackItem =
  ack_sn :: u32
  ack_ts :: u32

record RUDP =
  rudp_conv :: u32
  mtu :: u32
  mss :: u32
  rudp_state :: u32
  sndUna :: u32
  sndNxt :: u32
  rcvNxt :: u32
  ssthresh :: u32
  rxRTTVal :: i32
  rxSRTT :: i32
  rxRTO :: u32
  rxMinRTO :: u32
  sndWnd :: u32
  rcvWnd :: u32
  rmtWnd :: u32
  cwnd :: u32
  probe :: u32
  interval :: u32
  tsFlush :: u32
  noDelay :: u32
  updated :: u32
  tsProbe :: u32
  probeWait :: u32
  deadLink :: u32
  incr :: u32
  fastResend :: i32
  noCwnd :: i32
  stream :: i32
  sndQueue :: "segment list"
  rcvQueue :: "segment list"
  sndBuf :: "segment list"
  rcvBuf :: "segment list"
  ackList :: "ackItem list"
  rudp_buffer :: "u8 list"
  reserved :: int

definition zero_RUDP :: RUDP where
  "zero_RUDP = \<lparr>rudp_conv = 0, mtu = 0, mss = 0, rudp_state = 0, sndUna = 0, sndNxt = 0, rcvNxt = 0,
     ssthresh = 0, rxRTTVal = 0, rxSRTT = 0, rxRTO = 0, rxMinRTO = 0, sndWnd = 0, rcvWnd = 0,
     rmtWnd = 0, cwnd = 0, probe = 0, interval = 0, tsFlush = 0, noDelay = 0, updated = 0,
     tsProbe = 0, probeWait = 0, deadLink = 0, incr = 0, fastResend = 0, noCwnd = 0, stream = 0,
     sndQueue = [], rcvQueue = [], sndBuf = [], rcvBuf = [], ackList = [], rudp_buffer = [],
     reserved = 0\<rparr>"

definition NewRudp :: "u32 \<Rightarrow> RUDP" where
  "NewRudp conv = zero_RUDP\<lparr>
     rudp_conv := conv,
     mtu := IRUDP_MTU_DEF,
     mss := IRUDP_MTU_DEF - of_nat IRUDP_OVERHEAD,
     sndWnd := IRUDP_WND_SND,
     rcvWnd := IRUDP_WND_RCV,
     rmtWnd := IRUDP_WND_RCV,
     ssthresh := IRUDP_THRESH_INIT,
     rxRTO := IRUDP_RTO_DEF,
     rxMinRTO := IRUDP_RTO_MIN,
     interval := IRUDP_INTERVAL,
     tsFlush := IRUDP_INTERVAL,
     deadLink := IRUDP_DEADLINK,
     rudp_buffer := replicate (unat IRUDP_MTU_DEF) 0\<rparr>"

definition newSegment :: "nat \<Rightarrow> segment option" where
  "newSegment sz = (if sz \<le> mtuLimit then Some (zero_segment\<lparr>seg_data := replicate sz 0\<rparr>) else None)"

definition delSegment :: "segment \<Rightarrow> segment" where
  "delSegment seg = seg\<lparr>seg_data := []\<rparr>"

text \<open>\<^verbatim>\<open>copy(dst, src)\<close> on contents, for two byte slices that do not overlap.\<close>

definition copy_into :: "u8 list \<Rightarrow> u8 list \<Rightarrow> u8 list" where
  "copy_into dst src = (let n = min (length dst) (length src) in take n src @ drop n dst)"

lemma copy_into_same [simp]: "length dst = length src \<Longrightarrow> copy_into dst src = src"
  by (simp add: copy_into_def)

section \<open>Configuration\<close>

definition ReserveBytes :: "int \<Rightarrow> RUDP \<Rightarrow> bool \<times> RUDP" where
  "ReserveBytes reserve r =
    (if reserve \<ge> uint (mtu r - of_nat IRUDP_OVERHEAD) \<or> reserve < 0 then (False, r)
     else (True, r\<lparr>reserved := reserve,
                   mss := mtu r - of_nat IRUDP_OVERHEAD - word_of_int reserve\<rparr>))"

text \<open>\<^verbatim>\<open>make\<close> never returns nil, so the result \<open>-2\<close> of \<^verbatim>\<open>SetMtu\<close> has no case here.\<close>

definition SetMtu :: "int \<Rightarrow> RUDP \<Rightarrow> int \<times> RUDP" where
  "SetMtu m r =
    (if m < 50 \<or> m < int IRUDP_OVERHEAD then (-1, r)
     else if reserved r \<ge> uint (mtu r - of_nat IRUDP_OVERHEAD) \<or> reserved r < 0 then (-1, r)
     else
       let buf = replicate (nat m) 0;
           r = r\<lparr>mtu := word_of_int m\<rparr>;
           r = r\<lparr>mss := mtu r - of_nat IRUDP_OVERHEAD - word_of_int (reserved r)\<rparr>
       in (0, r\<lparr>rudp_buffer := buf\<rparr>))"

definition NoDelay :: "int \<Rightarrow> int \<Rightarrow> int \<Rightarrow> int \<Rightarrow> RUDP \<Rightarrow> RUDP" where
  "NoDelay nodelay intv resend nc r =
    (let r = (if nodelay \<ge> 0
              then r\<lparr>noDelay := word_of_int nodelay,
                     rxMinRTO := (if nodelay \<noteq> 0 then IRUDP_RTO_NDL else IRUDP_RTO_MIN)\<rparr>
              else r);
         r = (if intv \<ge> 0
              then (let intv = (if intv > 5000 then 5000 else if intv < 10 then 10 else intv)
                    in r\<lparr>interval := word_of_int intv\<rparr>)
              else r);
         r = (if resend \<ge> 0 then r\<lparr>fastResend := word_of_int resend\<rparr> else r)
     in (if nc \<ge> 0 then r\<lparr>noCwnd := word_of_int nc\<rparr> else r))"

definition WndSize :: "int \<Rightarrow> int \<Rightarrow> RUDP \<Rightarrow> int \<times> RUDP" where
  "WndSize sndwnd rcvwnd r =
    (let r = (if sndwnd > 0 then r\<lparr>sndWnd := word_of_int sndwnd\<rparr> else r);
         r = (if rcvwnd > 0 then r\<lparr>rcvWnd := word_of_int rcvwnd\<rparr> else r)
     in (0, r))"

definition ReleaseTX :: "RUDP \<Rightarrow> RUDP" where
  "ReleaseTX r = r\<lparr>sndBuf := [], sndQueue := []\<rparr>"

section \<open>Observers\<close>

definition WaitSnd :: "RUDP \<Rightarrow> nat" where
  "WaitSnd r = length (sndBuf r) + length (sndQueue r)"

text \<open>The difference is computed in \<^verbatim>\<open>int\<close> and then cut to 16 bits.\<close>

definition unusedWnd :: "RUDP \<Rightarrow> u16" where
  "unusedWnd r =
    (if length (rcvQueue r) < unat (rcvWnd r)
     then word_of_int (int (unat (rcvWnd r)) - int (length (rcvQueue r))) else 0)"

text \<open>The loop of \<^verbatim>\<open>peekSize\<close>: the bytes up to the first segment with fragment number 0.\<close>

fun peek_loop :: "segment list \<Rightarrow> nat" where
  "peek_loop [] = 0"
| "peek_loop (seg # q) =
    length (seg_data seg) + (if seg_frg seg = 0 then 0 else peek_loop q)"

text \<open>\<^verbatim>\<open>seg.frg+1\<close> is computed in uint8, so it is 0 for fragment number 255.\<close>

definition peekSize :: "RUDP \<Rightarrow> int" where
  "peekSize r =
    (case rcvQueue r of
       [] \<Rightarrow> -1
     | seg # _ \<Rightarrow>
         if seg_frg seg = 0 then int (length (seg_data seg))
         else if length (rcvQueue r) < unat (seg_frg seg + 1) then -1
         else int (peek_loop (rcvQueue r)))"

section \<open>Configuration keeps the sizes consistent\<close>

text \<open>
  The sizes fit together: the buffer has \<^verbatim>\<open>mtu\<close> bytes, and a header, the reserved bytes
  and a full payload fill it exactly, with at least one byte of payload that fits a pooled
  buffer. Without this \<^verbatim>\<open>flush\<close> and \<^verbatim>\<open>Send\<close> can panic.
\<close>

definition sizes_ok :: "RUDP \<Rightarrow> bool" where
  "sizes_ok r \<longleftrightarrow>
     0 \<le> reserved r \<and> 0 < mss r \<and> unat (mss r) \<le> mtuLimit \<and>
     length (rudp_buffer r) = unat (mtu r) \<and>
     int (unat (mtu r)) = int IRUDP_OVERHEAD + reserved r + int (unat (mss r))"

lemma sizes_ok_NewRudp: "sizes_ok (NewRudp conv)"
  by (simp add: sizes_ok_def NewRudp_def zero_RUDP_def)

lemma sizes_ok_mtu: "sizes_ok r \<Longrightarrow> int (unat (mtu r)) = 24 + reserved r + int (unat (mss r))"
  by (simp add: sizes_ok_def)

end
