(* ===== verification/Rudp_Receive.thy ===== *)
theory Rudp_Receive
  imports Rudp_State
begin

text \<open>
  The receiving half: \<^verbatim>\<open>parseData\<close> puts a segment into the reorder buffer \<^verbatim>\<open>rcvBuf\<close> and
  moves what has become contiguous to \<^verbatim>\<open>rcvQueue\<close>; \<^verbatim>\<open>Receive\<close> hands the first complete
  message to the caller. The functions are stated on the views of the slices (theory
  \<^verbatim>\<open>Go_Slice\<close>).
\<close>

text \<open>
  The backward search of \<^verbatim>\<open>parseData\<close>: whether the number is there already, and the index to
  insert at. The second argument is one more than the loop index.
\<close>

fun find_insert :: "segment list \<Rightarrow> nat \<Rightarrow> u32 \<Rightarrow> bool \<times> nat" where
  "find_insert buf 0 sn = (False, 0)"
| "find_insert buf (Suc i) sn =
    (let s = buf ! i
     in if seg_sn s = sn then (True, 0)
        else if sn > seg_sn s then (False, i + 1)
        else find_insert buf i sn)"

text \<open>The loop that counts the segments ready to move, advancing \<^verbatim>\<open>rcvNxt\<close>.\<close>

fun rcv_ready :: "segment list \<Rightarrow> nat \<Rightarrow> RUDP \<Rightarrow> nat \<times> RUDP" where
  "rcv_ready [] count r = (count, r)"
| "rcv_ready (s # buf) count r =
    (if seg_sn s = rcvNxt r \<and> length (rcvQueue r) + count < unat (rcvWnd r)
     then rcv_ready buf (count + 1) (r\<lparr>rcvNxt := rcvNxt r + 1\<rparr>)
     else (count, r))"

text \<open>This block stands, word for word, in both \<^verbatim>\<open>parseData\<close> and \<^verbatim>\<open>Receive\<close>.\<close>

definition move_to_queue :: "RUDP \<Rightarrow> RUDP" where
  "move_to_queue r =
    (let (count, r) = rcv_ready (rcvBuf r) 0 r
     in if count > 0
        then r\<lparr>rcvQueue := rcvQueue r @ take count (rcvBuf r), rcvBuf := removeFront (rcvBuf r) count\<rparr>
        else r)"

definition parseData :: "segment \<Rightarrow> RUDP \<Rightarrow> (bool \<times> RUDP) option" where
  "parseData seg r =
    (if seg_sn seg \<ge> rcvNxt r + rcvWnd r \<or> seg_sn seg < rcvNxt r then Some (True, r)
     else do {
       let (repeat, insertIndex) = find_insert (rcvBuf r) (length (rcvBuf r)) (seg_sn seg);
       r \<leftarrow> (if \<not> repeat then do {
               fresh \<leftarrow> newSegment (length (seg_data seg));
               let dataCopy = copy_into (seg_data fresh) (seg_data seg);
               let seg = seg\<lparr>seg_data := dataCopy\<rparr>;
               Some (r\<lparr>rcvBuf := insert_at (rcvBuf r) insertIndex seg\<rparr>)
             } else Some r);
       Some (repeat, move_to_queue r)
     })"

text \<open>
  The merging loop of \<^verbatim>\<open>Receive\<close>: bytes read, segments read and the caller's buffer after
  the call. Slicing the buffer beyond its end would panic.
\<close>

fun recv_merge :: "segment list \<Rightarrow> u8 list \<Rightarrow> (nat \<times> nat \<times> u8 list) option" where
  "recv_merge [] buffer = Some (0, 0, buffer)"
| "recv_merge (seg # q) buffer =
    (let k = length (seg_data seg);
         buffer = copy_into buffer (seg_data seg)
     in if length buffer < k then None
        else do {
          (n, count, rest) \<leftarrow> (if seg_frg seg = 0 then Some (0, 0, drop k buffer)
                               else recv_merge q (drop k buffer));
          Some (k + n, count + 1, take k buffer @ rest)
        })"

text \<open>\<^verbatim>\<open>Receive\<close> returns its result, the caller's buffer and the state.\<close>

definition Receive :: "u8 list \<Rightarrow> RUDP \<Rightarrow> (int \<times> u8 list \<times> RUDP) option" where
  "Receive buffer r =
    (if peekSize r < 0 then Some (-1, buffer, r)
     else if peekSize r > int (length buffer) then Some (-2, buffer, r)
     else do {
       let fastRecover = (length (rcvQueue r) \<ge> unat (rcvWnd r));
       (n, count, buffer) \<leftarrow> recv_merge (rcvQueue r) buffer;
       let r = (if count > 0 then r\<lparr>rcvQueue := removeFront (rcvQueue r) count\<rparr> else r);
       let r = move_to_queue r;
       let r = (if length (rcvQueue r) < unat (rcvWnd r) \<and> fastRecover
                then r\<lparr>probe := probe r OR IRUDP_ASK_TELL\<rparr> else r);
       Some (int n, buffer, r)
     })"

section \<open>The loops\<close>

text \<open>\<^verbatim>\<open>ready k r\<close>: how many of the first segments of \<^verbatim>\<open>rcvBuf\<close> are next in line.\<close>

definition ready_count :: "RUDP \<Rightarrow> nat" where
  "ready_count r = fst (rcv_ready (rcvBuf r) 0 r)"

lemma rcv_ready_spec:
  "rcv_ready buf c r = (c', r') \<Longrightarrow>
   \<exists>k \<le> length buf. c' = c + k \<and> r' = r\<lparr>rcvNxt := rcvNxt r + word_of_nat k\<rparr>
     \<and> (\<forall>i < k. seg_sn (buf ! i) = rcvNxt r + word_of_nat i)
     \<and> (0 < k \<longrightarrow> length (rcvQueue r) + c + k \<le> unat (rcvWnd r))
     \<and> (k < length buf \<longrightarrow> seg_sn (buf ! k) = rcvNxt r + word_of_nat k \<longrightarrow>
         unat (rcvWnd r) \<le> length (rcvQueue r) + c + k)"
proof (induction buf arbitrary: c r)
  case Nil
  then show ?case by auto
next
  case (Cons s buf)
  show ?case
  proof (cases "seg_sn s = rcvNxt r \<and> length (rcvQueue r) + c < unat (rcvWnd r)")
    case True
    with Cons.prems have "rcv_ready buf (c + 1) (r\<lparr>rcvNxt := rcvNxt r + 1\<rparr>) = (c', r')" by simp
    from Cons.IH [OF this] obtain k where k: "k \<le> length buf" "c' = c + 1 + k"
        "r' = r\<lparr>rcvNxt := rcvNxt r + 1 + word_of_nat k\<rparr>"
        "\<forall>i < k. seg_sn (buf ! i) = rcvNxt r + 1 + word_of_nat i"
        "0 < k \<longrightarrow> length (rcvQueue r) + (c + 1) + k \<le> unat (rcvWnd r)"
        "k < length buf \<longrightarrow> seg_sn (buf ! k) = rcvNxt r + 1 + word_of_nat k \<longrightarrow>
           unat (rcvWnd r) \<le> length (rcvQueue r) + (c + 1) + k"
      by auto
    show ?thesis
      using k True
      by (intro exI [of _ "Suc k"]) (auto simp: less_Suc_eq_0_disj add.assoc)
  next
    case False
    with Cons.prems show ?thesis by auto
  qed
qed

lemma move_to_queue_spec:
  "\<exists>k \<le> length (rcvBuf r).
     move_to_queue r = r\<lparr>rcvNxt := rcvNxt r + word_of_nat k,
       rcvQueue := rcvQueue r @ take k (rcvBuf r), rcvBuf := drop k (rcvBuf r)\<rparr>
     \<and> (\<forall>i < k. seg_sn (rcvBuf r ! i) = rcvNxt r + word_of_nat i)
     \<and> (0 < k \<longrightarrow> length (rcvQueue r) + k \<le> unat (rcvWnd r))
     \<and> (k < length (rcvBuf r) \<longrightarrow> seg_sn (rcvBuf r ! k) = rcvNxt r + word_of_nat k \<longrightarrow>
         unat (rcvWnd r) \<le> length (rcvQueue r) + k)"
proof -
  obtain c' r' where eq: "rcv_ready (rcvBuf r) 0 r = (c', r')" by fastforce
  from rcv_ready_spec [OF eq] obtain k where k: "k \<le> length (rcvBuf r)" "c' = k"
      "r' = r\<lparr>rcvNxt := rcvNxt r + word_of_nat k\<rparr>"
      "\<forall>i < k. seg_sn (rcvBuf r ! i) = rcvNxt r + word_of_nat i"
      "0 < k \<longrightarrow> length (rcvQueue r) + k \<le> unat (rcvWnd r)"
      "k < length (rcvBuf r) \<longrightarrow> seg_sn (rcvBuf r ! k) = rcvNxt r + word_of_nat k \<longrightarrow>
         unat (rcvWnd r) \<le> length (rcvQueue r) + k"
    by auto
  moreover have "move_to_queue r = r\<lparr>rcvNxt := rcvNxt r + word_of_nat k,
       rcvQueue := rcvQueue r @ take k (rcvBuf r), rcvBuf := drop k (rcvBuf r)\<rparr>"
    using eq k(2,3) by (cases "k = 0") (simp_all add: move_to_queue_def removeFront_def)
  ultimately show ?thesis by blast
qed

text \<open>The merging loop reads exactly the bytes \<^verbatim>\<open>peekSize\<close> announced.\<close>

fun msg_len :: "segment list \<Rightarrow> nat" where
  "msg_len [] = 0"
| "msg_len (seg # q) = Suc (if seg_frg seg = 0 then 0 else msg_len q)"

lemma msg_len_le: "msg_len q \<le> length q"
  by (induction q) auto

lemma peek_loop_msg: "peek_loop q = length (concat (map seg_data (take (msg_len q) q)))"
  by (induction q) auto

lemma recv_merge_eq:
  "peek_loop q \<le> length buffer \<Longrightarrow>
   recv_merge q buffer = Some (peek_loop q, msg_len q,
     concat (map seg_data (take (msg_len q) q)) @ drop (peek_loop q) buffer)"
proof (induction q arbitrary: buffer)
  case (Cons seg q)
  let ?k = "length (seg_data seg)"
  have cp: "copy_into buffer (seg_data seg) = seg_data seg @ drop ?k buffer"
    using Cons.prems by (simp add: copy_into_def min_absorb2)
  have "recv_merge q (drop ?k buffer) = Some (peek_loop q, msg_len q,
      concat (map seg_data (take (msg_len q) q)) @ drop (peek_loop q) (drop ?k buffer))"
    if "seg_frg seg \<noteq> 0"
    using Cons that by simp
  then show ?case
    using Cons.prems by (auto simp: Let_def cp add.commute)
qed simp

section \<open>Receive in one equation\<close>

lemma peekSize_nonneg: "0 \<le> peekSize r \<Longrightarrow> peekSize r = int (peek_loop (rcvQueue r)) \<and> rcvQueue r \<noteq> []"
  by (auto simp: peekSize_def split: list.splits if_splits)

lemma peekSize_Some:
  "rcvQueue r = seg # q \<Longrightarrow> seg_frg seg = 0 \<or> unat (seg_frg seg + 1) \<le> length (rcvQueue r) \<Longrightarrow>
   peekSize r = int (peek_loop (rcvQueue r))"
  by (auto simp: peekSize_def)

definition after_receive :: "RUDP \<Rightarrow> RUDP" where
  "after_receive r =
    (let r' = move_to_queue (r\<lparr>rcvQueue := drop (msg_len (rcvQueue r)) (rcvQueue r)\<rparr>)
     in if length (rcvQueue r') < unat (rcvWnd r') \<and> unat (rcvWnd r) \<le> length (rcvQueue r)
        then r'\<lparr>probe := probe r' OR IRUDP_ASK_TELL\<rparr> else r')"

lemma Receive_eq:
  "Receive buffer r =
    (if peekSize r < 0 then Some (-1, buffer, r)
     else if int (length buffer) < peekSize r then Some (-2, buffer, r)
     else Some (peekSize r,
       concat (map seg_data (take (msg_len (rcvQueue r)) (rcvQueue r)))
         @ drop (peek_loop (rcvQueue r)) buffer,
       after_receive r))"
proof (cases "peekSize r < 0 \<or> int (length buffer) < peekSize r")
  case True
  then show ?thesis by (auto simp: Receive_def)
next
  case False
  with peekSize_nonneg [of r] have "peekSize r = int (peek_loop (rcvQueue r))" "rcvQueue r \<noteq> []" by auto
  moreover from this have "0 < msg_len (rcvQueue r)" by (cases "rcvQueue r") auto
  ultimately show ?thesis
    using False by (simp add: Receive_def recv_merge_eq removeFront_def after_receive_def Let_def)
qed

lemma move_to_queue_appends: "\<exists>k. rcvQueue (move_to_queue r) = rcvQueue r @ take k (rcvBuf r)"
proof -
  obtain k where "move_to_queue r = r\<lparr>rcvNxt := rcvNxt r + word_of_nat k,
       rcvQueue := rcvQueue r @ take k (rcvBuf r), rcvBuf := drop k (rcvBuf r)\<rparr>"
    using move_to_queue_spec [of r] by blast
  then show ?thesis by (intro exI [of _ k]) simp
qed

lemma rcvQueue_after_receive:
  "\<exists>k. rcvQueue (after_receive r) = drop (msg_len (rcvQueue r)) (rcvQueue r) @ take k (rcvBuf r)"
proof -
  let ?r = "r\<lparr>rcvQueue := drop (msg_len (rcvQueue r)) (rcvQueue r)\<rparr>"
  have "rcvQueue (after_receive r) = rcvQueue (move_to_queue ?r)"
    by (simp add: after_receive_def Let_def)
  then show ?thesis using move_to_queue_appends [of ?r] by simp
qed

end
