(* ===== verification/Rudp_Ack.thy ===== *)
theory Rudp_Ack
  imports Rudp_State
begin

text \<open>
  The bookkeeping of the sending half: what an incoming \<^verbatim>\<open>una\<close> and an ACK do to \<^verbatim>\<open>sndBuf\<close>,
  the list of acknowledgements to send, and the retransmission timeout. The invariant
  \<open>snd_inv\<close> says that \<^verbatim>\<open>sndBuf\<close> holds exactly the numbers from \<^verbatim>\<open>sndUna\<close> up to
  \<^verbatim>\<open>sndNxt\<close>, in order (numbers are uint32, so the run may wrap).
\<close>

fun una_count :: "u32 \<Rightarrow> segment list \<Rightarrow> nat" where
  "una_count una [] = 0"
| "una_count una (seg # q) = (if una > seg_sn seg then Suc (una_count una q) else 0)"

definition parseUna :: "u32 \<Rightarrow> RUDP \<Rightarrow> int \<times> RUDP" where
  "parseUna una r =
    (let removeCount = una_count una (sndBuf r);
         r = (if removeCount > 0 then r\<lparr>sndBuf := removeFront (sndBuf r) removeCount\<rparr> else r)
     in (int removeCount, r))"

definition updateSndUna :: "RUDP \<Rightarrow> RUDP" where
  "updateSndUna r =
    (if length (sndBuf r) > 0 then r\<lparr>sndUna := seg_sn (sndBuf r ! 0)\<rparr> else r\<lparr>sndUna := sndNxt r\<rparr>)"

fun ack_loop :: "u32 \<Rightarrow> segment list \<Rightarrow> segment list" where
  "ack_loop sn [] = []"
| "ack_loop sn (seg # q) =
    (if sn = seg_sn seg then delSegment (seg\<lparr>seg_acked := 1\<rparr>) # q
     else if sn < seg_sn seg then seg # q
     else seg # ack_loop sn q)"

definition parseAck :: "u32 \<Rightarrow> RUDP \<Rightarrow> RUDP" where
  "parseAck sn r =
    (if sn < sndUna r \<or> sn \<ge> sndNxt r then r else r\<lparr>sndBuf := ack_loop sn (sndBuf r)\<rparr>)"

fun fastack_loop :: "u32 \<Rightarrow> u32 \<Rightarrow> segment list \<Rightarrow> segment list" where
  "fastack_loop sn ts [] = []"
| "fastack_loop sn ts (seg # q) =
    (if sn < seg_sn seg then seg # q
     else if sn \<noteq> seg_sn seg \<and> seg_ts seg \<le> ts
     then seg\<lparr>seg_fastack := seg_fastack seg + 1\<rparr> # fastack_loop sn ts q
     else seg # fastack_loop sn ts q)"

definition parseFastAck :: "u32 \<Rightarrow> u32 \<Rightarrow> RUDP \<Rightarrow> RUDP" where
  "parseFastAck sn ts r =
    (if sn < sndUna r \<or> sn \<ge> sndNxt r then r else r\<lparr>sndBuf := fastack_loop sn ts (sndBuf r)\<rparr>)"

definition pushAck :: "u32 \<Rightarrow> u32 \<Rightarrow> RUDP \<Rightarrow> RUDP" where
  "pushAck sn ts r = r\<lparr>ackList := ackList r @ [\<lparr>ack_sn = sn, ack_ts = ts\<rparr>]\<rparr>"

text \<open>Division of int32 values truncates towards zero.\<close>

definition i32_div :: "i32 \<Rightarrow> i32 \<Rightarrow> i32" where
  "i32_div a b = word_of_int (sint a sdiv sint b)"

definition updateRTO :: "i32 \<Rightarrow> RUDP \<Rightarrow> RUDP" where
  "updateRTO rtt r =
    (let r = (if rxRTTVal r = 0
              then r\<lparr>rxSRTT := rtt, rxRTTVal := signed_drop_bit 1 rtt\<rparr>
              else
                let delta = rxSRTT r - rtt;
                    delta = (if sint delta < 0 then - delta else delta);
                    r = r\<lparr>rxRTTVal := i32_div (3 * rxRTTVal r + delta) 4\<rparr>;
                    r = r\<lparr>rxSRTT := i32_div (7 * rxSRTT r + rtt) 8\<rparr>
                in if sint (rxSRTT r) < 1 then r\<lparr>rxSRTT := 1\<rparr> else r);
         rto = rxSRTT r + rudp_max (interval r) (push_bit 2 (rxRTTVal r))
     in r\<lparr>rxRTO := rudp_bound (rxMinRTO r) rto IRUDP_RTO_MAX\<rparr>)"

section \<open>The run of unacknowledged segments\<close>

definition sn_run :: "u32 \<Rightarrow> segment list \<Rightarrow> bool" where
  "sn_run una buf \<longleftrightarrow> (\<forall>i < length buf. seg_sn (buf ! i) = una + word_of_nat i)"

definition snd_inv :: "RUDP \<Rightarrow> bool" where
  "snd_inv r \<longleftrightarrow> sn_run (sndUna r) (sndBuf r) \<and> sndNxt r = sndUna r + word_of_nat (length (sndBuf r))"

text \<open>The run does not reach the end of the number space.\<close>

definition snd_nowrap :: "RUDP \<Rightarrow> bool" where
  "snd_nowrap r \<longleftrightarrow> unat (sndUna r) + length (sndBuf r) < 2 ^ 32"

lemma sn_run_Nil [simp]: "sn_run una []"
  by (simp add: sn_run_def)

lemma sn_run_Cons: "sn_run una (s # q) \<longleftrightarrow> seg_sn s = una \<and> sn_run (una + 1) q"
  by (auto simp: sn_run_def less_Suc_eq_0_disj add.assoc)

lemma sn_run_append: "sn_run una (p @ q) \<longleftrightarrow> sn_run una p \<and> sn_run (una + word_of_nat (length p)) q"
  by (induction p arbitrary: una) (auto simp: sn_run_Cons add.assoc)

lemma sn_run_drop: "sn_run una buf \<Longrightarrow> k \<le> length buf \<Longrightarrow> sn_run (una + word_of_nat k) (drop k buf)"
  by (auto simp: sn_run_def add.assoc)

lemma sn_run_cong: "map seg_sn p = map seg_sn q \<Longrightarrow> sn_run una p \<longleftrightarrow> sn_run una q"
  by (metis length_map nth_map sn_run_def)

lemma unat_run:
  "sn_run una buf \<Longrightarrow> unat una + length buf \<le> 2 ^ 32 \<Longrightarrow> i < length buf \<Longrightarrow>
   unat (seg_sn (buf ! i)) = unat una + i"
  by (simp add: sn_run_def unat_word_ariths unat_of_nat)

lemma sorted_run:
  "sn_run una buf \<Longrightarrow> unat una + length buf \<le> 2 ^ 32 \<Longrightarrow> sorted_wrt (<) (map seg_sn buf)"
  by (simp add: sorted_wrt_iff_nth_less word_less_nat_alt unat_run)

lemma una_count_le: "una_count una q \<le> length q"
  by (induction q) auto

lemma una_count_takeWhile: "una_count una q = length (takeWhile (\<lambda>s. seg_sn s < una) q)"
  by (induction q) auto

lemma map_sn_ack_loop [simp]: "map seg_sn (ack_loop sn q) = map seg_sn q"
  by (induction q) (auto simp: delSegment_def)

lemma map_sn_fastack_loop [simp]: "map seg_sn (fastack_loop sn ts q) = map seg_sn q"
  by (induction q) auto

lemma length_ack_loop [simp]: "length (ack_loop sn q) = length q"
  using map_sn_ack_loop [of sn q] by (metis length_map)

lemma length_fastack_loop [simp]: "length (fastack_loop sn ts q) = length q"
  using map_sn_fastack_loop [of sn ts q] by (metis length_map)

lemma sn_run_loops [simp]:
  "sn_run una (ack_loop sn q) \<longleftrightarrow> sn_run una q"
  "sn_run una (fastack_loop sn ts q) \<longleftrightarrow> sn_run una q"
  by (rule sn_run_cong, simp)+

lemma ack_loop_eq:
  "sorted_wrt (<) (map seg_sn q) \<Longrightarrow>
   ack_loop sn q = map (\<lambda>s. if seg_sn s = sn then delSegment (s\<lparr>seg_acked := 1\<rparr>) else s) q"
proof (induction q)
  case (Cons s q)
  then have IH: "ack_loop sn q = map (\<lambda>s. if seg_sn s = sn then delSegment (s\<lparr>seg_acked := 1\<rparr>) else s) q"
    and lt: "\<forall>t \<in> set q. seg_sn s < seg_sn t" by auto
  have keep: "map (\<lambda>s. if seg_sn s = sn then delSegment (s\<lparr>seg_acked := 1\<rparr>) else s) q = q"
    if "sn \<le> seg_sn s"
    using lt that by (intro map_idI) auto
  show ?case using IH keep by (auto simp: less_imp_le)
qed simp

lemma fastack_loop_eq:
  "sorted_wrt (<) (map seg_sn q) \<Longrightarrow>
   fastack_loop sn ts q =
     map (\<lambda>s. if seg_sn s < sn \<and> seg_ts s \<le> ts then s\<lparr>seg_fastack := seg_fastack s + 1\<rparr> else s) q"
proof (induction q)
  case (Cons s q)
  then have lt: "\<forall>t \<in> set q. seg_sn s < seg_sn t" by auto
  have keep: "map (\<lambda>s. if seg_sn s < sn \<and> seg_ts s \<le> ts then s\<lparr>seg_fastack := seg_fastack s + 1\<rparr> else s) q = q"
    if "sn \<le> seg_sn s"
    using lt that by (intro map_idI) (auto dest!: bspec)
  show ?case using Cons keep by (auto simp: less_imp_le not_less)
qed simp

section \<open>Every bookkeeping step keeps the run\<close>

definition ack_una :: "u32 \<Rightarrow> RUDP \<Rightarrow> RUDP" where
  "ack_una una r = updateSndUna (snd (parseUna una r))"

lemma ack_una_eq:
  assumes "snd_inv r"
  shows "ack_una una r = r\<lparr>sndBuf := drop (una_count una (sndBuf r)) (sndBuf r),
     sndUna := sndUna r + word_of_nat (una_count una (sndBuf r))\<rparr>"
proof -
  let ?k = "una_count una (sndBuf r)"
  have le: "?k \<le> length (sndBuf r)" by (rule una_count_le)
  have "snd (parseUna una r) = r\<lparr>sndBuf := drop ?k (sndBuf r)\<rparr>"
    by (cases "?k = 0") (simp_all add: parseUna_def removeFront_def Let_def)
  moreover have "seg_sn (sndBuf r ! ?k) = sndUna r + word_of_nat ?k" if "?k < length (sndBuf r)"
    using assms that by (simp add: snd_inv_def sn_run_def)
  moreover have "sndNxt r = sndUna r + word_of_nat ?k" if "\<not> ?k < length (sndBuf r)"
    using assms that le by (simp add: snd_inv_def)
  ultimately show ?thesis
    using le by (simp add: ack_una_def updateSndUna_def)
qed

lemma snd_inv_ack_una: "snd_inv r \<Longrightarrow> snd_inv (ack_una una r)"
  using una_count_le [of una "sndBuf r"]
  by (auto simp: ack_una_eq) (auto simp: snd_inv_def sn_run_drop of_nat_diff)

lemma snd_inv_parseAck: "snd_inv r \<Longrightarrow> snd_inv (parseAck sn r)"
  by (simp add: snd_inv_def parseAck_def)

lemma snd_inv_parseFastAck: "snd_inv r \<Longrightarrow> snd_inv (parseFastAck sn ts r)"
  by (simp add: snd_inv_def parseFastAck_def)

lemma snd_nowrap_steps:
  "snd_nowrap (parseAck sn r) \<longleftrightarrow> snd_nowrap r"
  "snd_nowrap (parseFastAck sn ts r) \<longleftrightarrow> snd_nowrap r"
  by (simp_all add: snd_nowrap_def parseAck_def parseFastAck_def)

lemma snd_nowrap_ack_una: "snd_inv r \<Longrightarrow> snd_nowrap r \<Longrightarrow> snd_nowrap (ack_una una r)"
  using una_count_le [of una "sndBuf r"]
  by (simp add: ack_una_eq) (simp add: snd_nowrap_def unat_word_ariths unat_of_nat)

lemma drop_una_count_filter:
  "sorted_wrt (<) (map seg_sn q) \<Longrightarrow> drop (una_count una q) q = filter (\<lambda>s. una \<le> seg_sn s) q"
proof (induction q)
  case (Cons s q)
  have "filter (\<lambda>s. una \<le> seg_sn s) q = q" if "una \<le> seg_sn s"
    using Cons.prems that by (intro filter_True) (auto intro: order_trans less_imp_le)
  with Cons show ?case by (auto simp: not_less)
qed simp

lemma snd_inv_sorted: "snd_inv r \<Longrightarrow> snd_nowrap r \<Longrightarrow> sorted_wrt (<) (map seg_sn (sndBuf r))"
  by (auto simp: snd_inv_def snd_nowrap_def intro: sorted_run)

section \<open>The timeout estimate on small values\<close>

lemma int_sdiv: "int m sdiv int n = int (m div n)"
  by (simp add: signed_divide_int_def zdiv_int sgn_if)

lemma i32_div_small:
  assumes "unat a < 2 ^ 31" and "unat b < 2 ^ 31"
  shows "unat (i32_div a b) = unat a div unat b"
proof -
  have "sint a sdiv sint b = int (unat a div unat b)"
    using assms by (simp only: sint_small int_sdiv)
  then have "i32_div a b = word_of_nat (unat a div unat b)"
    by (simp add: i32_div_def)
  moreover have "unat a div unat b < 2 ^ 32"
    using assms(1) by (meson div_le_dividend le_less_trans less_trans power_strict_increasing_iff one_less_numeral_iff semiring_norm(76) numeral_less_iff unat_u32_less)
  ultimately show ?thesis by (simp add: unat_of_nat)
qed

lemma sint_minus_small:
  assumes "0 < unat x" and "unat x < 2 ^ 31"
  shows "sint (- x :: i32) < 0"
proof -
  have "- x = word_of_int (- int (unat x))" by simp
  then have "sint (- x) = signed_take_bit 31 (- int (unat x))"
    by (simp only: signed_of_int) simp
  also have "\<dots> = - int (unat x)"
    using assms by (intro signed_take_bit_int_eq_self) (auto simp del: of_nat_unat)
  finally show ?thesis using assms by (simp del: of_nat_unat)
qed

lemma abs_delta:
  assumes "unat s < 2 ^ 24" and "unat t < 2 ^ 24"
  shows "unat (if sint (s - t :: i32) < 0 then - (s - t) else s - t) = (if unat t \<le> unat s then unat s - unat t else unat t - unat s)"
proof (cases "unat t \<le> unat s")
  case True
  then have "unat (s - t) = unat s - unat t" by (simp add: unat_sub word_le_nat_alt)
  moreover from this assms have "sint (s - t) = int (unat s - unat t)"
    by (subst sint_small) auto
  then have "\<not> sint (s - t) < 0" by linarith
  ultimately show ?thesis using True by simp
next
  case False
  then have d: "unat (t - s) = unat t - unat s" by (simp add: unat_sub word_le_nat_alt)
  have "s - t = - (t - s)" by simp
  then have "sint (s - t) < 0"
    using sint_minus_small [of "t - s"] d False assms by simp
  with False d show ?thesis by simp
qed

lemma updateRTO_shape:
  "\<exists>q x. updateRTO rtt r = q\<lparr>rxRTO := rudp_bound (rxMinRTO r) x IRUDP_RTO_MAX\<rparr> \<and> rxMinRTO q = rxMinRTO r"
proof -
  let ?upd = "\<lambda>q. q\<lparr>rxRTO := rudp_bound (rxMinRTO q) (rxSRTT q + rudp_max (interval q) (push_bit 2 (rxRTTVal q))) IRUDP_RTO_MAX\<rparr>"
  have "\<exists>q. updateRTO rtt r = ?upd q \<and> rxMinRTO q = rxMinRTO r"
    unfolding updateRTO_def Let_def
    by (intro exI conjI, rule refl) simp
  then show ?thesis by metis
qed

section \<open>The timeout as arithmetic on natural numbers\<close>

text \<open>The end of \<^verbatim>\<open>updateRTO\<close>, on the new estimates.\<close>

definition with_estimates :: "i32 \<Rightarrow> i32 \<Rightarrow> RUDP \<Rightarrow> RUDP" where
  "with_estimates v s r =
    r\<lparr>rxSRTT := s, rxRTTVal := v, rxRTO := rudp_bound (rxMinRTO r) (s + rudp_max (interval r) (push_bit 2 v)) IRUDP_RTO_MAX\<rparr>"

lemma with_estimates_values:
  assumes "unat v < 2 ^ 24" "unat s < 2 ^ 24" "unat (interval r) < 2 ^ 24"
  shows "unat (rxRTTVal (with_estimates v s r)) = unat v" "unat (rxSRTT (with_estimates v s r)) = unat s"
    "unat (rxRTO (with_estimates v s r)) =
      min (max (unat (rxMinRTO r)) (unat s + max (unat (interval r)) (4 * unat v))) 60000"
proof -
  have v4: "unat (push_bit 2 v) = 4 * unat v" using assms(1) by (simp add: push_bit_eq_mult unat_word_ariths)
  have sum: "unat (s + max (interval r) (push_bit 2 v)) = unat s + max (unat (interval r)) (4 * unat v)"
    using assms v4 by (auto simp: max_def word_le_nat_alt unat_word_ariths)
  have clip: "unat (min (max a b) 60000) = min (max (unat a) (unat b)) 60000" for a b :: u32
    by (auto simp: min_def max_def word_le_nat_alt)
  have "rxRTO (with_estimates v s r) = min (max (rxMinRTO r) (s + max (interval r) (push_bit 2 v))) 60000"
    by (simp add: with_estimates_def rudp_bound_def)
  then show "unat (rxRTO (with_estimates v s r)) =
      min (max (unat (rxMinRTO r)) (unat s + max (unat (interval r)) (4 * unat v))) 60000"
    by (simp only: clip sum)
qed (simp_all add: with_estimates_def)

lemma half_sample:
  assumes "unat (rtt :: i32) < 2 ^ 24"
  shows "unat (signed_drop_bit 1 rtt) = unat rtt div 2"
proof -
  have "sint rtt = int (unat rtt)" using assms by (intro sint_small) simp
  then have "sint (signed_drop_bit 1 rtt) = int (unat rtt div 2)"
    by (simp add: sint_signed_drop_bit_eq drop_bit_eq_div zdiv_int)
  then have "signed_drop_bit 1 rtt = word_of_int (int (unat rtt div 2))" by (metis of_int_sint scast_id)
  then show ?thesis using assms by (simp add: unat_of_nat)
qed

lemma updateRTO_step:
  assumes "rxRTTVal r \<noteq> 0"
    and "unat (rxRTTVal r) < 2 ^ 24" and "unat (rxSRTT r) < 2 ^ 24" and "unat rtt < 2 ^ 24"
    and "unat (interval r) < 2 ^ 24"
  shows "\<exists>v s. updateRTO rtt r = with_estimates v s r \<and>
    unat v = (3 * unat (rxRTTVal r) + nat \<bar>int (unat (rxSRTT r)) - int (unat rtt)\<bar>) div 4 \<and>
    unat s = max 1 ((7 * unat (rxSRTT r) + unat rtt) div 8) \<and> unat v < 2 ^ 24 \<and> unat s < 2 ^ 24"
proof -
  define d where "d = (if sint (rxSRTT r - rtt) < 0 then - (rxSRTT r - rtt) else rxSRTT r - rtt)"
  define D where "D = nat \<bar>int (unat (rxSRTT r)) - int (unat rtt)\<bar>"
  have D: "unat d = D" "D < 2 ^ 24"
    using abs_delta [OF assms(3,4)] assms(3,4) by (auto simp: d_def D_def simp del: of_nat_unat)
  have v0: "unat (3 * rxRTTVal r + d) = 3 * unat (rxRTTVal r) + D"
    using D assms(2) by (simp add: unat_word_ariths)
  define v where "v = i32_div (3 * rxRTTVal r + d) 4"
  have v: "unat v = (3 * unat (rxRTTVal r) + D) div 4" "unat v < 2 ^ 24"
    using i32_div_small [of "3 * rxRTTVal r + d" 4] v0 D(2) assms(2) by (simp_all add: v_def)
  have s0: "unat (7 * rxSRTT r + rtt) = 7 * unat (rxSRTT r) + unat rtt"
    using assms(3,4) by (simp add: unat_word_ariths)
  define s where "s = i32_div (7 * rxSRTT r + rtt) 8"
  have s: "unat s = (7 * unat (rxSRTT r) + unat rtt) div 8" "unat s < 2 ^ 24"
    using i32_div_small [of "7 * rxSRTT r + rtt" 8] s0 assms(3,4) by (simp_all add: s_def)
  define s1 where "s1 = (if sint s < 1 then 1 else s)"
  have s1: "unat s1 = max 1 (unat s)" "unat s1 < 2 ^ 24"
    using s(2) sint_small [of s] by (auto simp: s1_def max_def simp del: of_nat_unat)
  have "updateRTO rtt r = with_estimates v s1 r"
    using assms(1)
    by (simp add: updateRTO_def with_estimates_def Let_def v_def s_def s1_def d_def cong: if_cong)
  then show ?thesis using v s1 s(1) unfolding D_def [symmetric] by metis
qed

section \<open>Properties\<close>

text \<open>
  Claim C25. A cumulative acknowledgement removes exactly the covered segments: after
  \<^verbatim>\<open>parseUna(una)\<close> and \<^verbatim>\<open>updateSndUna\<close>, \<^verbatim>\<open>sndBuf\<close> is what it was without the segments
  numbered below \<open>una\<close>; it is still the run from \<^verbatim>\<open>sndUna\<close> to \<^verbatim>\<open>sndNxt\<close>, and
  \<^verbatim>\<open>sndUna\<close> never moves back.
\<close>

theorem una_removes_exactly_covered:
  assumes "snd_inv r" and "snd_nowrap r"
  shows "let r' = updateSndUna (snd (parseUna una r)) in
    sndBuf r' = filter (\<lambda>s. una \<le> seg_sn s) (sndBuf r) \<and> snd_inv r' \<and> snd_nowrap r' \<and>
    sndUna r \<le> sndUna r' \<and> sndNxt r' = sndNxt r"
proof -
  let ?k = "una_count una (sndBuf r)"
  have "unat (sndUna r + word_of_nat ?k) = unat (sndUna r) + ?k"
    using assms(2) una_count_le [of una "sndBuf r"] by (simp add: snd_nowrap_def unat_word_ariths unat_of_nat)
  then have "sndUna r \<le> sndUna r + word_of_nat ?k" by (simp add: word_le_nat_alt)
  then show ?thesis
    using ack_una_eq [OF assms(1), of una] snd_inv_ack_una [OF assms(1), of una]
      snd_nowrap_ack_una [OF assms, of una] drop_una_count_filter [OF snd_inv_sorted [OF assms], of una]
    by (simp add: ack_una_def Let_def)
qed

definition demo_snd :: "u32 \<Rightarrow> nat \<Rightarrow> RUDP" where
  "demo_snd una n = (NewRudp 7)\<lparr>sndUna := una, sndNxt := una + word_of_nat n,
     sndBuf := map (\<lambda>i. zero_segment\<lparr>seg_sn := una + word_of_nat i, seg_data := [word_of_nat i]\<rparr>) [0..<n]\<rparr>"

lemma demo_snd_inv: "snd_inv (demo_snd una n)" "length (sndBuf (demo_snd una n)) = n" "sndUna (demo_snd una n) = una"
  by (simp_all add: demo_snd_def snd_inv_def sn_run_def zero_segment_def)

theorem una_removes_exactly_covered_witness:
  "sndBuf (updateSndUna (snd (parseUna 12 (demo_snd 10 4)))) = filter (\<lambda>s. 12 \<le> seg_sn s) (sndBuf (demo_snd 10 4))"
  using una_removes_exactly_covered [of "demo_snd 10 4" 12]
  by (simp add: demo_snd_inv snd_nowrap_def Let_def)

text \<open>
  Claim C26. An ACK for \<open>sn\<close> marks and frees exactly the segment with that number, and
  \<^verbatim>\<open>parseFastAck\<close> counts one skip for exactly the earlier segments sent no later than the
  time stamp it echoes; an ACK outside \<open>[sndUna, sndNxt)\<close> changes nothing, and no ACK ever
  removes a segment from \<^verbatim>\<open>sndBuf\<close>.
\<close>

theorem ack_touches_exactly:
  assumes "snd_inv r" and "snd_nowrap r"
  shows "parseAck sn r = r\<lparr>sndBuf := map (\<lambda>s. if seg_sn s = sn then s\<lparr>seg_acked := 1, seg_data := []\<rparr> else s) (sndBuf r)\<rparr>
    \<and> parseFastAck sn ts r =
        (if sndUna r \<le> sn \<and> sn < sndNxt r
         then r\<lparr>sndBuf := map (\<lambda>s. if seg_sn s < sn \<and> seg_ts s \<le> ts
                then s\<lparr>seg_fastack := seg_fastack s + 1\<rparr> else s) (sndBuf r)\<rparr>
         else r)"
proof -
  note sorted = snd_inv_sorted [OF assms]
  have nxt: "unat (sndNxt r) = unat (sndUna r) + length (sndBuf r)"
    using assms by (simp add: snd_inv_def snd_nowrap_def unat_word_ariths unat_of_nat)
  have run: "sn_run (sndUna r) (sndBuf r)" "unat (sndUna r) + length (sndBuf r) \<le> 2 ^ 32"
    using assms by (simp_all add: snd_inv_def snd_nowrap_def)
  have inside: "sndUna r \<le> seg_sn s \<and> seg_sn s < sndNxt r" if "s \<in> set (sndBuf r)" for s
    using that unat_run [OF run] nxt by (auto simp: in_set_conv_nth word_le_nat_alt word_less_nat_alt)
  have "map (\<lambda>s. if seg_sn s = sn then s\<lparr>seg_acked := 1, seg_data := []\<rparr> else s) (sndBuf r) = sndBuf r"
    if "\<not> (sndUna r \<le> sn \<and> sn < sndNxt r)"
    using inside that by (intro map_idI) auto
  then show ?thesis
    by (auto simp: parseAck_def parseFastAck_def ack_loop_eq [OF sorted] fastack_loop_eq [OF sorted]
        delSegment_def not_le not_less cong: if_cong)
qed

theorem ack_touches_exactly_witness:
  "map seg_acked (sndBuf (parseAck 11 (demo_snd 10 3))) = [0, 1, 0] \<and>
   map seg_fastack (sndBuf (parseFastAck 12 5 (demo_snd 10 3))) = [1, 1, 0]"
  using ack_touches_exactly [of "demo_snd 10 3" 11 0] ack_touches_exactly [of "demo_snd 10 3" 12 5]
  by (simp add: demo_snd_inv snd_nowrap_def)
     (simp add: demo_snd_def zero_segment_def upt_conv_Cons word_le_nat_alt word_less_nat_alt)

text \<open>
  Claim C31. Whatever the samples, also when the int32 arithmetic overflows, the timeout
  stays between the configured minimum and 60 seconds.
\<close>

theorem updateRTO_bounds:
  assumes "rxMinRTO r \<le> IRUDP_RTO_MAX"
  shows "rxMinRTO (updateRTO rtt r) = rxMinRTO r \<and>
    rxMinRTO r \<le> rxRTO (updateRTO rtt r) \<and> rxRTO (updateRTO rtt r) \<le> IRUDP_RTO_MAX"
proof -
  obtain q x where "updateRTO rtt r = q\<lparr>rxRTO := rudp_bound (rxMinRTO r) x IRUDP_RTO_MAX\<rparr>"
    and "rxMinRTO q = rxMinRTO r"
    using updateRTO_shape by blast
  then show ?thesis using assms by (simp add: rudp_bound_def)
qed

theorem updateRTO_bounds_witness:
  "rxRTO (updateRTO (- 5) (NewRudp 7)) \<le> 60000 \<and> 100 \<le> rxRTO (updateRTO (- 5) (NewRudp 7))"
  using updateRTO_bounds [of "NewRudp 7" "- 5"]
  by (simp add: NewRudp_def zero_RUDP_def word_le_nat_alt)

text \<open>
  Claim C30. On estimates and samples below \<open>2^24\<close> milliseconds the 32-bit code computes the
  updates of RFC 6298 in whole numbers: a state without deviation takes the sample and half of
  it; otherwise the mean deviation is updated with weight 1/4 and the mean with weight 1/8 (at
  least 1). The timeout is the mean plus four deviations (at least the flush interval), clipped
  to the bounds. A deviation of 0 stands for \<^verbatim>\<open>no sample yet\<close>, so the code starts over also when
  steady samples have made it 0, which the RFC does not (\<open>updateRTO_starts_over\<close>).
\<close>

theorem updateRTO_rfc6298:
  assumes "unat (rxRTTVal r) < 2 ^ 24" and "unat (rxSRTT r) < 2 ^ 24" and "unat rtt < 2 ^ 24"
    and "unat (interval r) < 2 ^ 24"
  shows "let first = (rxRTTVal r = 0);
             v = (if first then unat rtt div 2
                  else (3 * unat (rxRTTVal r) + nat \<bar>int (unat (rxSRTT r)) - int (unat rtt)\<bar>) div 4);
             s = (if first then unat rtt else max 1 ((7 * unat (rxSRTT r) + unat rtt) div 8));
             r' = updateRTO rtt r
         in unat (rxRTTVal r') = v \<and> unat (rxSRTT r') = s \<and>
            unat (rxRTO r') = min (max (unat (rxMinRTO r)) (s + max (unat (interval r)) (4 * v))) 60000"
proof (cases "rxRTTVal r = 0")
  case True
  then have eq: "updateRTO rtt r = with_estimates (signed_drop_bit 1 rtt) rtt r"
    by (simp add: updateRTO_def with_estimates_def Let_def)
  have "unat (signed_drop_bit 1 rtt) < 2 ^ 24" unfolding half_sample [OF assms(3)] using assms(3) by simp
  note est = with_estimates_values [OF this assms(3,4), unfolded half_sample [OF assms(3)]]
  show ?thesis unfolding Let_def eq using True by (simp only: est if_True simp_thms)
next
  case False
  from updateRTO_step [OF False assms] obtain v s where vs: "updateRTO rtt r = with_estimates v s r"
      "unat v = (3 * unat (rxRTTVal r) + nat \<bar>int (unat (rxSRTT r)) - int (unat rtt)\<bar>) div 4"
      "unat s = max 1 ((7 * unat (rxSRTT r) + unat rtt) div 8)" "unat v < 2 ^ 24" "unat s < 2 ^ 24" by blast
  note est = with_estimates_values [OF vs(4,5) assms(4), unfolded vs(2,3)]
  show ?thesis unfolding Let_def vs(1) using False by (simp only: est if_False simp_thms)
qed

theorem updateRTO_rfc6298_witness:
  "unat (rxRTO (updateRTO 300 ((NewRudp 7)\<lparr>rxRTTVal := 40, rxSRTT := 200\<rparr>))) = 432 \<and>
   unat (rxRTO (updateRTO 300 (NewRudp 7))) = 900"
  using updateRTO_rfc6298 [of "(NewRudp 7)\<lparr>rxRTTVal := 40, rxSRTT := 200\<rparr>" 300] updateRTO_rfc6298 [of "NewRudp 7" 300]
  by (simp add: NewRudp_def zero_RUDP_def Let_def)

text \<open>Two equal samples make the deviation 0, and the next one replaces the mean.\<close>

lemma updateRTO_starts_over:
  "rxRTTVal (updateRTO 100 ((NewRudp 7)\<lparr>rxRTTVal := 1, rxSRTT := 100\<rparr>)) = 0 \<and>
   rxSRTT (updateRTO 900 (updateRTO 100 ((NewRudp 7)\<lparr>rxRTTVal := 1, rxSRTT := 100\<rparr>))) = 900"
  by code_simp

end
