(* ===== verification/Rudp_Flush.thy ===== *)
theory Rudp_Flush
  imports Rudp_Ack
begin

text \<open>
  \<^verbatim>\<open>flush\<close> of \<^verbatim>\<open>rudp.go\<close>: acknowledgements, window probes, admission of queued segments
  into the window, (re)transmission, statistics and the congestion window, in the order of
  the code. The closures \<^verbatim>\<open>makeSpace\<close> and \<^verbatim>\<open>flushBuffer\<close> work on the write cursor and the
  world; the slice expression \<^verbatim>\<open>buffer[rudp.reserved:]\<close> and the encoders may panic
  (\<^term>\<open>None\<close>).
\<close>

section \<open>The packet under construction\<close>

definition start_ptr :: "RUDP \<Rightarrow> u8 list \<Rightarrow> cursor option" where
  "start_ptr r buf =
    (if 0 \<le> reserved r \<and> reserved r \<le> int (length buf) then Some (buf, nat (reserved r)) else None)"

text \<open>The offset of the cursor is \<^verbatim>\<open>len(buffer) - len(ptr)\<close>.\<close>

definition makeSpace :: "RUDP \<Rightarrow> nat \<Rightarrow> cursor \<Rightarrow> world \<Rightarrow> (cursor \<times> world) option" where
  "makeSpace r space ptr w = (case ptr of (buf, sz) \<Rightarrow>
     if sz + space \<ge> unat (mtu r)
     then do { ptr \<leftarrow> start_ptr r buf; Some (ptr, call_output buf sz w) }
     else Some (ptr, w))"

definition flushBuffer :: "RUDP \<Rightarrow> cursor \<Rightarrow> world \<Rightarrow> world" where
  "flushBuffer r ptr w = (case ptr of (buf, sz) \<Rightarrow>
     if int sz > reserved r then call_output buf sz w else w)"

section \<open>Acknowledgements and probes\<close>

definition ack_template :: "RUDP \<Rightarrow> segment" where
  "ack_template r = zero_segment\<lparr>seg_conv := rudp_conv r, seg_cmd := IRUDP_CMD_ACK, seg_frg := 0,
     seg_wnd := unusedWnd r, seg_ts := 0, seg_sn := 0, seg_una := rcvNxt r\<rparr>"

fun flush_acks :: "RUDP \<Rightarrow> segment \<Rightarrow> ackItem list \<Rightarrow> cursor \<Rightarrow> world \<Rightarrow> (segment \<times> cursor \<times> world) option" where
  "flush_acks r seg [] ptr w = Some (seg, ptr, w)"
| "flush_acks r seg (ack # q) ptr w =
    do {
      (ptr, w) \<leftarrow> makeSpace r IRUDP_OVERHEAD ptr w;
      if ack_sn ack \<ge> rcvNxt r \<or> q = []
      then
        let seg = seg\<lparr>seg_sn := ack_sn ack, seg_ts := ack_ts ack\<rparr>
        in do { (ptr, w) \<leftarrow> encodeOverHead seg ptr w; flush_acks r seg q ptr w }
      else flush_acks r seg q ptr w
    }"

definition probe_timer :: "RUDP \<Rightarrow> world \<Rightarrow> RUDP \<times> world" where
  "probe_timer r w =
    (if rmtWnd r = 0
     then
       let (currentTime, w) = currentMs w
       in if probeWait r = 0
          then (let r = r\<lparr>probeWait := IRUDP_PROBE_INIT\<rparr>
                in (r\<lparr>tsProbe := currentTime + probeWait r\<rparr>, w))
          else if sint (timeDiff currentTime (tsProbe r)) \<ge> 0
          then (let r = (if probeWait r < IRUDP_PROBE_MIN then r\<lparr>probeWait := IRUDP_PROBE_MIN\<rparr> else r);
                    r = r\<lparr>probeWait := probeWait r + probeWait r div 2\<rparr>;
                    r = r\<lparr>probeWait := rudp_min IRUDP_PROBE_LIMIT (probeWait r)\<rparr>;
                    r = r\<lparr>tsProbe := currentTime + probeWait r\<rparr>
                in (r\<lparr>probe := probe r OR IRUDP_ASK_SEND\<rparr>, w))
          else (r, w)
     else (r\<lparr>probeWait := 0, tsProbe := 0\<rparr>, w))"

definition flush_ask :: "u32 \<Rightarrow> u8 \<Rightarrow> RUDP \<Rightarrow> segment \<Rightarrow> cursor \<Rightarrow> world \<Rightarrow> (segment \<times> cursor \<times> world) option" where
  "flush_ask bits cmd r seg ptr w =
    (if probe r AND bits \<noteq> 0
     then
       let seg = seg\<lparr>seg_cmd := cmd\<rparr>
       in do {
            (ptr, w) \<leftarrow> makeSpace r IRUDP_OVERHEAD ptr w;
            (ptr, w) \<leftarrow> encodeOverHead seg ptr w;
            Some (seg, ptr, w)
          }
     else Some (seg, ptr, w))"

section \<open>Admission into the window\<close>

definition send_window :: "RUDP \<Rightarrow> u32" where
  "send_window r =
    (let wnd = rudp_min (sndWnd r) (rmtWnd r)
     in if noCwnd r = 0 then rudp_min (cwnd r) wnd else wnd)"

fun admit_loop :: "u32 \<Rightarrow> segment list \<Rightarrow> nat \<Rightarrow> RUDP \<Rightarrow> nat \<times> RUDP" where
  "admit_loop wnd [] newSegCount r = (newSegCount, r)"
| "admit_loop wnd (seg # q) newSegCount r =
    (if sndNxt r \<ge> sndUna r + wnd then (newSegCount, r)
     else
       let newSeg = seg\<lparr>seg_conv := rudp_conv r, seg_cmd := IRUDP_CMD_PUSH, seg_sn := sndNxt r\<rparr>;
           r = r\<lparr>sndBuf := sndBuf r @ [newSeg]\<rparr>;
           r = r\<lparr>sndNxt := sndNxt r + 1\<rparr>
       in admit_loop wnd q (newSegCount + 1) r)"

definition admit :: "u32 \<Rightarrow> RUDP \<Rightarrow> nat \<times> RUDP" where
  "admit wnd r =
    (let (newSegCount, r) = admit_loop wnd (sndQueue r) 0 r;
         r = (if newSegCount > 0 then r\<lparr>sndQueue := removeFront (sndQueue r) newSegCount\<rparr> else r)
     in (newSegCount, r))"

section \<open>Transmission and retransmission\<close>

text \<open>The variables of the loop over \<^verbatim>\<open>sndBuf\<close>; \<open>rs_state\<close> is \<^verbatim>\<open>rudp.state\<close>.\<close>

record resend_state =
  rs_current :: u32
  rs_change :: u64
  rs_fast :: u64
  rs_early :: u64
  rs_lost :: u64
  rs_minRto :: i32
  rs_state :: u32
  rs_ptr :: cursor
  rs_world :: world

definition resend_decide :: "RUDP \<Rightarrow> u32 \<Rightarrow> nat \<Rightarrow> segment \<Rightarrow> resend_state \<Rightarrow> bool \<times> segment \<times> resend_state" where
  "resend_decide r resent newSegCount s st =
    (if seg_xmit s = 0
     then let s = s\<lparr>seg_rto := rxRTO r\<rparr>
          in (True, s\<lparr>seg_resendts := rs_current st + seg_rto s\<rparr>, st)
     else if seg_fastack s \<ge> resent
     then let s = s\<lparr>seg_fastack := 0, seg_rto := rxRTO r\<rparr>
          in (True, s\<lparr>seg_resendts := rs_current st + seg_rto s\<rparr>,
              st\<lparr>rs_change := rs_change st + 1, rs_fast := rs_fast st + 1\<rparr>)
     else if seg_fastack s > 0 \<and> newSegCount = 0
     then let s = s\<lparr>seg_fastack := 0, seg_rto := rxRTO r\<rparr>
          in (True, s\<lparr>seg_resendts := rs_current st + rxRTO r\<rparr>,
              st\<lparr>rs_change := rs_change st + 1, rs_early := rs_early st + 1\<rparr>)
     else if sint (timeDiff (rs_current st) (seg_resendts s)) \<ge> 0
     then let s = (if noDelay r = 0 then s\<lparr>seg_rto := seg_rto s + rxRTO r\<rparr>
                   else s\<lparr>seg_rto := seg_rto s + rxRTO r div 2\<rparr>);
              s = s\<lparr>seg_fastack := 0\<rparr>
          in (True, s\<lparr>seg_resendts := rs_current st + seg_rto s\<rparr>,
              st\<lparr>rs_lost := rs_lost st + 1\<rparr>)
     else (False, s, st))"

definition resend_put :: "RUDP \<Rightarrow> segment \<Rightarrow> segment \<Rightarrow> resend_state \<Rightarrow> (segment \<times> resend_state) option" where
  "resend_put r seg s st =
    (let (current, w) = currentMs (rs_world st);
         st = st\<lparr>rs_current := current\<rparr>;
         s = s\<lparr>seg_xmit := seg_xmit s + 1, seg_ts := current, seg_wnd := seg_wnd seg, seg_una := seg_una seg\<rparr>;
         needSpace = IRUDP_OVERHEAD + length (seg_data s)
     in do {
          (ptr, w) \<leftarrow> makeSpace r needSpace (rs_ptr st) w;
          (ptr, w) \<leftarrow> encodeOverHead s ptr w;
          ptr \<leftarrow> encodeData s ptr;
          let st = st\<lparr>rs_ptr := ptr, rs_world := w\<rparr>;
          Some (s, if seg_xmit s \<ge> deadLink r then st\<lparr>rs_state := 0xffffffff\<rparr> else st)
        })"

definition resend_one :: "RUDP \<Rightarrow> segment \<Rightarrow> u32 \<Rightarrow> nat \<Rightarrow> segment \<Rightarrow> resend_state \<Rightarrow> (segment \<times> resend_state) option" where
  "resend_one r seg resent newSegCount s st =
    (if seg_acked s = 1 then Some (s, st)
     else
       let (needSend, s, st) = resend_decide r resent newSegCount s st
       in do {
            (s, st) \<leftarrow> (if needSend then resend_put r seg s st else Some (s, st));
            let rto = timeDiff (seg_resendts s) (rs_current st);
            Some (s, if sint rto > 0 \<and> sint rto < sint (rs_minRto st) then st\<lparr>rs_minRto := rto\<rparr> else st)
          })"

fun resend_loop :: "RUDP \<Rightarrow> segment \<Rightarrow> u32 \<Rightarrow> nat \<Rightarrow> segment list \<Rightarrow> resend_state \<Rightarrow> (segment list \<times> resend_state) option" where
  "resend_loop r seg resent newSegCount [] st = Some ([], st)"
| "resend_loop r seg resent newSegCount (s # q) st =
    do {
      (s, st) \<leftarrow> resend_one r seg resent newSegCount s st;
      (q, st) \<leftarrow> resend_loop r seg resent newSegCount q st;
      Some (s # q, st)
    }"

section \<open>Statistics and the congestion window\<close>

definition flush_stats :: "resend_state \<Rightarrow> world \<Rightarrow> world" where
  "flush_stats st w =
    (let total = rs_lost st;
         w = (if rs_lost st > 0 then AddUint64 LostSegs_update (rs_lost st) w else w);
         (total, w) = (if rs_fast st > 0
            then (total + rs_fast st, AddUint64 FastRetransSegs_update (rs_fast st) w) else (total, w));
         (total, w) = (if rs_early st > 0
            then (total + rs_early st, AddUint64 EarlyRetransSegs_update (rs_early st) w) else (total, w))
     in if total > 0 then AddUint64 RetransSegs_update total w else w)"

definition update_cwnd :: "u32 \<Rightarrow> u32 \<Rightarrow> u64 \<Rightarrow> u64 \<Rightarrow> RUDP \<Rightarrow> RUDP" where
  "update_cwnd wnd resent change lostSegs r =
    (if noCwnd r = 0
     then
       let r = (if change > 0
                then (let inflight = sndNxt r - sndUna r;
                          r = r\<lparr>ssthresh := inflight div 2\<rparr>;
                          r = r\<lparr>ssthresh := rudp_max (ssthresh r) IRUDP_THRESH_MIN\<rparr>;
                          r = r\<lparr>cwnd := ssthresh r + resent\<rparr>
                      in r\<lparr>incr := cwnd r * mss r\<rparr>)
                else r);
           r = (if lostSegs > 0
                then (let r = r\<lparr>ssthresh := wnd div 2\<rparr>;
                          r = r\<lparr>ssthresh := rudp_max (ssthresh r) IRUDP_THRESH_MIN\<rparr>
                      in r\<lparr>cwnd := 1, incr := mss r\<rparr>)
                else r)
       in if cwnd r < 1 then r\<lparr>cwnd := 1, incr := mss r\<rparr> else r
     else r)"

definition resent_limit :: "RUDP \<Rightarrow> u32" where
  "resent_limit r = (if (ucast (fastResend r) :: u32) \<le> 0 then 0xffffffff else ucast (fastResend r))"

section \<open>flush\<close>

text \<open>The part after the early return of \<^verbatim>\<open>ackOnly\<close>.\<close>

definition flush_data :: "RUDP \<Rightarrow> segment \<Rightarrow> cursor \<Rightarrow> world \<Rightarrow> (u32 \<times> RUDP \<times> world) option" where
  "flush_data r seg ptr w =
    (let (r, w) = probe_timer r w
     in do {
          (seg, ptr, w) \<leftarrow> flush_ask IRUDP_ASK_SEND IRUDP_CMD_WASK r seg ptr w;
          (seg, ptr, w) \<leftarrow> flush_ask IRUDP_ASK_TELL IRUDP_CMD_WINS r seg ptr w;
          let r = r\<lparr>probe := 0\<rparr>;
          let wnd = send_window r;
          let (newSegCount, r) = admit wnd r;
          let resent = resent_limit r;
          let (current, w) = currentMs w;
          (buf', st) \<leftarrow> resend_loop r seg resent newSegCount (sndBuf r)
             \<lparr>rs_current = current, rs_change = 0, rs_fast = 0, rs_early = 0, rs_lost = 0,
              rs_minRto = ucast (interval r), rs_state = rudp_state r, rs_ptr = ptr, rs_world = w\<rparr>;
          let r = r\<lparr>sndBuf := buf', rudp_state := rs_state st, rudp_buffer := fst (rs_ptr st)\<rparr>;
          let w = flush_stats st (flushBuffer r (rs_ptr st) (rs_world st));
          let r = update_cwnd wnd resent (rs_change st) (rs_lost st) r;
          Some (ucast (rs_minRto st), r, w)
        })"

definition flush :: "bool \<Rightarrow> RUDP \<Rightarrow> world \<Rightarrow> (u32 \<times> RUDP \<times> world) option" where
  "flush ackOnly r w =
    do {
      ptr \<leftarrow> start_ptr r (rudp_buffer r);
      (seg, ptr, w) \<leftarrow> flush_acks r (ack_template r) (ackList r) ptr w;
      let r = r\<lparr>ackList := []\<rparr>;
      if ackOnly
      then Some (interval r, r\<lparr>rudp_buffer := fst ptr\<rparr>, flushBuffer r ptr w)
      else flush_data r seg ptr w
    }"

end
