(* ===== verification/Rudp_Input.thy ===== *)
theory Rudp_Input
  imports Rudp_Receive Rudp_Flush
begin

text \<open>
  \<^verbatim>\<open>Input\<close> of \<^verbatim>\<open>rudp.go\<close>: the loop over the segments of a packet, with its three error
  returns, the treatment of each command, and what follows the loop: the round-trip sample,
  the growth of the congestion window and the flush. On the 64-bit targets the code is built
  for, \<^verbatim>\<open>int(length)\<close> of a uint32 is never negative, so that half of the length check has no
  case. A panic is \<^term>\<open>None\<close>.
\<close>

section \<open>The loop\<close>

text \<open>The variables the loop keeps: \<^verbatim>\<open>flag\<close>, \<^verbatim>\<open>latest\<close>, \<^verbatim>\<open>inSegs\<close>, \<^verbatim>\<open>windowSlide\<close>.\<close>

record input_vars =
  iv_flag :: int
  iv_latest :: u32
  iv_inSegs :: u64
  iv_windowSlide :: bool

definition push_segment :: "u32 \<Rightarrow> header \<Rightarrow> u8 list \<Rightarrow> segment" where
  "push_segment conv h body = zero_segment\<lparr>seg_conv := conv, seg_cmd := hd_cmd h, seg_frg := hd_frg h,
     seg_wnd := hd_wnd h, seg_ts := hd_ts h, seg_sn := hd_sn h, seg_una := hd_una h, seg_data := body\<rparr>"

definition input_push :: "bool \<Rightarrow> u32 \<Rightarrow> header \<Rightarrow> u8 list \<Rightarrow> RUDP \<Rightarrow> world \<Rightarrow> (RUDP \<times> world) option" where
  "input_push regular conv h body r w =
    do {
      (repeat, r) \<leftarrow>
        (if hd_sn h < rcvNxt r + rcvWnd r
         then
           let r = pushAck (hd_sn h) (hd_ts h) r
           in if hd_sn h \<ge> rcvNxt r
              then parseData (push_segment conv h body) r
              else Some (True, r)
         else Some (True, r));
      Some (r, if regular \<and> repeat then AddUint64 RepeatSegs_update 1 w else w)
    }"

text \<open>One segment of a packet whose command is one of the four.\<close>

definition input_segment ::
  "bool \<Rightarrow> u32 \<Rightarrow> header \<Rightarrow> u8 list \<Rightarrow> input_vars \<Rightarrow> RUDP \<Rightarrow> world \<Rightarrow> (input_vars \<times> RUDP \<times> world) option" where
  "input_segment regular conv h body iv r w =
    (let r = (if regular then r\<lparr>rmtWnd := ucast (hd_wnd h)\<rparr> else r);
         (removed, r) = parseUna (hd_una h) r;
         iv = (if removed > 0 then iv\<lparr>iv_windowSlide := True\<rparr> else iv);
         r = updateSndUna r
     in do {
          (iv, r, w) \<leftarrow>
            (if hd_cmd h = IRUDP_CMD_PUSH
             then do { (r, w) \<leftarrow> input_push regular conv h body r w; Some (iv, r, w) }
             else if hd_cmd h = IRUDP_CMD_ACK
             then (let r = parseAck (hd_sn h) r;
                       r = parseFastAck (hd_sn h) (hd_ts h) r
                   in Some (iv\<lparr>iv_flag := 1, iv_latest := hd_ts h\<rparr>, r, w))
             else if hd_cmd h = IRUDP_CMD_WASK
             then Some (iv, r\<lparr>probe := probe r OR IRUDP_ASK_TELL\<rparr>, w)
             else Some (iv, r, w));
          Some (iv\<lparr>iv_inSegs := iv_inSegs iv + 1\<rparr>, r, w)
        })"

definition legal_cmd :: "u8 \<Rightarrow> bool" where
  "legal_cmd cmd \<longleftrightarrow> \<not> (cmd \<noteq> IRUDP_CMD_PUSH \<and> cmd \<noteq> IRUDP_CMD_ACK \<and> cmd \<noteq> IRUDP_CMD_WASK \<and> cmd \<noteq> IRUDP_CMD_WINS)"

text \<open>The loop ends with an early return of an error code, or falls out with its variables.\<close>

function input_loop ::
  "bool \<Rightarrow> u8 list \<Rightarrow> input_vars \<Rightarrow> RUDP \<Rightarrow> world \<Rightarrow> ((int + input_vars) \<times> RUDP \<times> world) option" where
  "input_loop regular data iv r w =
    (if length data < IRUDP_OVERHEAD then Some (Inr iv, r, w)
     else
       case decodeUint32 data of
         None \<Rightarrow> None
       | Some (conv, data1) \<Rightarrow>
         (if conv \<noteq> rudp_conv r then Some (Inl (-1), r, w)
          else
            case decodeFields data1 of
              None \<Rightarrow> None
            | Some (h, data2) \<Rightarrow>
              (if length data2 < unat (hd_length h) then Some (Inl (-2), r, w)
               else if \<not> legal_cmd (hd_cmd h) then Some (Inl (-3), r, w)
               else
                 case input_segment regular conv h (take (unat (hd_length h)) data2) iv r w of
                   None \<Rightarrow> None
                 | Some (iv, r, w) \<Rightarrow> input_loop regular (drop (unat (hd_length h)) data2) iv r w)))"
  by pat_completeness auto
termination
  by (relation "measure (\<lambda>(_, data, _). length data)")
     (auto dest!: u32c.dec_length fieldsc.dec_length)

declare input_loop.simps [simp del]

section \<open>After the loop\<close>

definition input_rtt :: "bool \<Rightarrow> input_vars \<Rightarrow> RUDP \<Rightarrow> world \<Rightarrow> RUDP \<times> world" where
  "input_rtt regular iv r w =
    (if iv_flag iv \<noteq> 0 \<and> regular
     then
       let (current, w) = currentMs w;
           rtt = timeDiff current (iv_latest iv)
       in (if sint rtt \<ge> 0 then updateRTO rtt r else r, w)
     else (r, w))"

text \<open>Dividing by 0 panics.\<close>

definition u32_div :: "u32 \<Rightarrow> u32 \<Rightarrow> u32 option" where
  "u32_div a b = (if b = 0 then None else Some (a div b))"

text \<open>The branch above the threshold.\<close>

definition congestion_avoidance :: "RUDP \<Rightarrow> RUDP option" where
  "congestion_avoidance r =
    (let m = mss r;
         r = (if incr r < m then r\<lparr>incr := m\<rparr> else r)
     in do {
       q \<leftarrow> u32_div (m * m) (incr r);
       let r = r\<lparr>incr := incr r + (q + m div 16)\<rparr>;
       (if (cwnd r + 1) * m \<le> incr r
        then if m > 0
             then do { q \<leftarrow> u32_div (incr r + m - 1) m; Some (r\<lparr>cwnd := q\<rparr>) }
             else Some (r\<lparr>cwnd := incr r + m - 1\<rparr>)
        else Some r)
     })"

definition grow_cwnd :: "u32 \<Rightarrow> RUDP \<Rightarrow> RUDP option" where
  "grow_cwnd oldSndUna r =
    (if noCwnd r = 0 \<and> sndUna r > oldSndUna \<and> cwnd r < rmtWnd r
     then do {
       r \<leftarrow> (if cwnd r < ssthresh r
            then Some (r\<lparr>cwnd := cwnd r + 1, incr := incr r + mss r\<rparr>)
            else congestion_avoidance r);
       Some (if cwnd r > rmtWnd r
             then (let r = r\<lparr>cwnd := rmtWnd r\<rparr> in r\<lparr>incr := cwnd r * mss r\<rparr>)
             else r)
     }
     else Some r)"

definition Input :: "u8 list \<Rightarrow> bool \<Rightarrow> bool \<Rightarrow> RUDP \<Rightarrow> world \<Rightarrow> (int \<times> RUDP \<times> world) option" where
  "Input data regular ackNoDelay r w =
    (if length data < IRUDP_OVERHEAD then Some (-1, r, w)
     else do {
       let oldSndUna = sndUna r;
       (end, r, w) \<leftarrow> input_loop regular data
          \<lparr>iv_flag = 0, iv_latest = 0, iv_inSegs = 0, iv_windowSlide = False\<rparr> r w;
       (case end of
          Inl code \<Rightarrow> Some (code, r, w)
        | Inr iv \<Rightarrow> do {
            let w = AddUint64 InSegs_update (iv_inSegs iv) w;
            let (r, w) = input_rtt regular iv r w;
            r \<leftarrow> grow_cwnd oldSndUna r;
            (if iv_windowSlide iv
             then do { (_, r, w) \<leftarrow> flush False r w; Some (0, r, w) }
             else if ackNoDelay \<and> length (ackList r) > 0
             then do { (_, r, w) \<leftarrow> flush True r w; Some (0, r, w) }
             else Some (0, r, w))
          })
     })"

end
