(* ===== verification/Rudp_Packets.thy ===== *)
theory Rudp_Packets
  imports Rudp_Flush
begin

text \<open>
  What \<^verbatim>\<open>flush\<close> hands to the output callback. The relation \<open>framed\<close> relates the write
  cursor and the packets already output to the list of segments encoded so far: every packet
  is the reserved prefix followed by whole segments, and none is longer than the MTU. Each
  step of \<^verbatim>\<open>flush\<close> keeps it, which also shows that no step of \<^verbatim>\<open>flush\<close> can panic when the
  sizes are consistent.
\<close>

section \<open>Packets as lists of segments\<close>

definition seg_wire :: "segment \<Rightarrow> u8 list" where
  "seg_wire s = header_bytes s @ seg_data s"

definition wires :: "segment list \<Rightarrow> u8 list" where
  "wires es = concat (map seg_wire es)"

definition frame_packet :: "u8 list \<Rightarrow> segment list \<Rightarrow> u8 list" where
  "frame_packet pre es = pre @ wires es"

definition framed :: "u8 list \<Rightarrow> nat \<Rightarrow> u8 list list \<Rightarrow> segment list \<Rightarrow> cursor \<Rightarrow> u8 list list \<Rightarrow> bool" where
  "framed pre m ps0 es ptr ps \<longleftrightarrow>
     length (fst ptr) = m \<and> snd ptr \<le> m \<and>
     (\<exists>gs tail. es = concat gs @ tail \<and> ps = ps0 @ map (frame_packet pre) gs \<and>
        take (snd ptr) (fst ptr) = frame_packet pre tail \<and> (\<forall>g \<in> set gs. length (frame_packet pre g) \<le> m))"

definition reserved_bytes :: "RUDP \<Rightarrow> u8 list" where
  "reserved_bytes r = take (nat (reserved r)) (rudp_buffer r)"

lemma wires_simps [simp, frame_simps]:
  "wires [] = []" "wires (s # es) = seg_wire s @ wires es" "wires (es @ es') = wires es @ wires es'"
  by (simp_all add: wires_def)

lemma frame_packet_append [frame_simps]: "frame_packet pre (es @ es') = frame_packet pre es @ wires es'"
  by (simp add: frame_packet_def)

lemma framedI:
  "length (fst ptr) = m \<Longrightarrow> snd ptr \<le> m \<Longrightarrow> es = concat gs @ tail \<Longrightarrow> ps = ps0 @ map (frame_packet pre) gs \<Longrightarrow>
   take (snd ptr) (fst ptr) = frame_packet pre tail \<Longrightarrow> \<forall>g \<in> set gs. length (frame_packet pre g) \<le> m \<Longrightarrow>
   framed pre m ps0 es ptr ps"
  unfolding framed_def by blast

lemma framedE:
  assumes "framed pre m ps0 es (buf, p) ps"
  obtains gs tail where "length buf = m" "p \<le> m" "es = concat gs @ tail" "ps = ps0 @ map (frame_packet pre) gs"
    "take p buf = frame_packet pre tail" "\<forall>g \<in> set gs. length (frame_packet pre g) \<le> m"
    "length (frame_packet pre tail) = p"
proof -
  obtain gs tail where *: "length buf = m" "p \<le> m" "es = concat gs @ tail" "ps = ps0 @ map (frame_packet pre) gs"
    "take p buf = frame_packet pre tail" "\<forall>g \<in> set gs. length (frame_packet pre g) \<le> m"
    using assms by (auto simp: framed_def)
  moreover have "length (frame_packet pre tail) = p"
    using * by (metis length_take min.absorb2)
  ultimately show thesis using that by blast
qed

lemma framed_start:
  assumes "sizes_ok r"
  shows "start_ptr r (rudp_buffer r) = Some (rudp_buffer r, nat (reserved r)) \<and>
     framed (reserved_bytes r) (unat (mtu r)) ps [] (rudp_buffer r, nat (reserved r)) ps \<and>
     length (reserved_bytes r) = nat (reserved r)"
proof -
  have "0 \<le> reserved r" "nat (reserved r) \<le> unat (mtu r)" "length (rudp_buffer r) = unat (mtu r)"
    and "reserved r \<le> int (unat (mtu r))"
    using assms by (auto simp: sizes_ok_def simp del: of_nat_unat)
  then show ?thesis
    by (auto simp: start_ptr_def reserved_bytes_def frame_packet_def intro!: framedI [where gs = "[]" and tail = "[]"])
qed

text \<open>The cursor is never inside the reserved prefix, and the prefix is never overwritten.\<close>

lemma framed_prefix:
  assumes "framed pre m ps0 es (buf, p) ps"
  shows "take (length pre) buf = pre" and "length pre \<le> p"
proof -
  obtain tail where tail: "take p buf = pre @ wires tail" "length (pre @ wires tail) = p"
    using assms by (elim framedE) (auto simp: frame_packet_def)
  show le: "length pre \<le> p" using tail(2) by simp
  have "take (length pre) buf = take (length pre) (take p buf)" using le by (simp add: min_absorb1)
  also have "\<dots> = pre" by (simp add: tail(1))
  finally show "take (length pre) buf = pre" .
qed

lemma makeSpace_framed:
  assumes ok: "sizes_ok r" and pre: "length pre = nat (reserved r)" and space: "space \<le> 24 + unat (mss r)"
    and fr: "framed pre (unat (mtu r)) ps0 es ptr (packets w)"
  shows "\<exists>ptr' w'. makeSpace r space ptr w = Some (ptr', w') \<and> framed pre (unat (mtu r)) ps0 es ptr' (packets w') \<and>
    snd ptr' + space \<le> unat (mtu r) \<and> clock w' = clock w \<and> DefaultSnmp w' = DefaultSnmp w"
proof -
  obtain buf p where ptr: "ptr = (buf, p)" by (cases ptr)
  have fr: "framed pre (unat (mtu r)) ps0 es (buf, p) (packets w)" using fr ptr by simp
  obtain gs tail where g: "length buf = unat (mtu r)" "p \<le> unat (mtu r)" "es = concat gs @ tail"
    "packets w = ps0 @ map (frame_packet pre) gs" "take p buf = frame_packet pre tail"
    "\<forall>g \<in> set gs. length (frame_packet pre g) \<le> unat (mtu r)" "length (frame_packet pre tail) = p"
    using fr by (rule framedE)
  have res: "0 \<le> reserved r" "nat (reserved r) + 24 + unat (mss r) = unat (mtu r)"
    using ok by (auto simp: sizes_ok_def simp del: of_nat_unat)
  show ?thesis
  proof (cases "p + space \<ge> unat (mtu r)")
    case True
    have "reserved r \<le> int (length buf)" using res g(1) by linarith
    then have "makeSpace r space ptr w = Some ((buf, nat (reserved r)), call_output buf p w)"
      using True res(1) by (simp add: ptr makeSpace_def start_ptr_def)
    moreover have "framed pre (unat (mtu r)) ps0 es (buf, nat (reserved r)) (packets (call_output buf p w))"
      using g pre res framed_prefix(1) [OF fr]
      by (intro framedI [where gs = "gs @ [tail]" and tail = "[]"]) (auto simp: frame_packet_def)
    ultimately show ?thesis using res space by simp
  next
    case False
    then show ?thesis using fr by (simp add: ptr makeSpace_def)
  qed
qed

lemma put_bytes_framed:
  assumes fr: "framed pre m ps0 es (buf, p) ps" and fits: "p + length (seg_wire s) \<le> m"
  shows "\<exists>ptr'. put_bytes (buf, p) (seg_wire s) = Some ptr' \<and> framed pre m ps0 (es @ [s]) ptr' ps"
proof -
  obtain gs tail where g: "length buf = m" "p \<le> m" "es = concat gs @ tail"
    "ps = ps0 @ map (frame_packet pre) gs" "take p buf = frame_packet pre tail"
    "\<forall>g \<in> set gs. length (frame_packet pre g) \<le> m" "length (frame_packet pre tail) = p"
    using fr by (rule framedE)
  have "put_bytes (buf, p) (seg_wire s) =
      Some (take p buf @ seg_wire s @ drop (p + length (seg_wire s)) buf, p + length (seg_wire s))"
    using fits g by (simp add: put_bytes_def)
  moreover have "framed pre m ps0 (es @ [s])
      (take p buf @ seg_wire s @ drop (p + length (seg_wire s)) buf, p + length (seg_wire s)) ps"
    using g fits by (intro framedI [where gs = gs and tail = "tail @ [s]"]) (auto simp: frame_packet_append min_absorb1)
  ultimately show ?thesis by blast
qed

lemma length_seg_wire [simp, frame_simps]: "length (seg_wire s) = 24 + length (seg_data s)"
  by (simp add: seg_wire_def)

text \<open>Encoding a segment without payload, and one with its payload.\<close>

lemma emit_control:
  assumes "framed pre m ps0 es ptr (packets w)" and "snd ptr + 24 \<le> m" and "seg_data s = []"
  shows "\<exists>ptr'. encodeOverHead s ptr w = Some (ptr', AddUint64 OutSegs_update 1 w) \<and>
     framed pre m ps0 (es @ [s]) ptr' (packets w)"
proof -
  obtain buf p where ptr: "ptr = (buf, p)" by (cases ptr)
  have w: "header_bytes s = seg_wire s" using assms(3) by (simp add: seg_wire_def)
  obtain ptr' where "put_bytes (buf, p) (seg_wire s) = Some ptr'" "framed pre m ps0 (es @ [s]) ptr' (packets w)"
    using put_bytes_framed [of pre m ps0 es buf p "packets w" s] assms ptr by auto
  then show ?thesis by (simp add: encodeOverHead_put ptr w)
qed

lemma emit_data:
  assumes "framed pre m ps0 es ptr (packets w)" and "snd ptr + 24 + length (seg_data s) \<le> m"
  shows "\<exists>ptr1 ptr2. encodeOverHead s ptr w = Some (ptr1, AddUint64 OutSegs_update 1 w) \<and>
     encodeData s ptr1 = Some ptr2 \<and> framed pre m ps0 (es @ [s]) ptr2 (packets w)"
proof -
  obtain buf p where ptr: "ptr = (buf, p)" by (cases ptr)
  obtain ptr' where p': "put_bytes (buf, p) (seg_wire s) = Some ptr'" "framed pre m ps0 (es @ [s]) ptr' (packets w)"
    using put_bytes_framed [of pre m ps0 es buf p "packets w" s] assms ptr by auto
  then obtain ptr1 where "put_bytes (buf, p) (header_bytes s) = Some ptr1" "put_bytes ptr1 (seg_data s) = Some ptr'"
    unfolding seg_wire_def put_bytes_append [symmetric] by (auto simp: bind_eq_Some_conv)
  then show ?thesis using p'(2) by (cases ptr') (simp add: encodeOverHead_put ptr encodeData_def)
qed

lemma flushBuffer_framed:
  assumes pre: "length pre = nat (reserved r)" "0 \<le> reserved r"
    and fr: "framed pre m ps0 es ptr (packets w)"
  shows "\<exists>gs. packets (flushBuffer r ptr w) = ps0 @ map (frame_packet pre) gs \<and> concat gs = es \<and>
    (\<forall>g \<in> set gs. length (frame_packet pre g) \<le> m)"
proof -
  obtain buf p where ptr: "ptr = (buf, p)" by (cases ptr)
  have fr: "framed pre m ps0 es (buf, p) (packets w)" using fr ptr by simp
  obtain gs tail where g: "length buf = m" "p \<le> m" "es = concat gs @ tail"
    "packets w = ps0 @ map (frame_packet pre) gs" "take p buf = frame_packet pre tail"
    "\<forall>g \<in> set gs. length (frame_packet pre g) \<le> m" "length (frame_packet pre tail) = p"
    using fr by (rule framedE)
  show ?thesis
  proof (cases "int p > reserved r")
    case True
    then show ?thesis
      using g by (intro exI [of _ "gs @ [tail]"]) (auto simp: flushBuffer_def ptr)
  next
    case False
    then have "p \<le> length pre" using pre by linarith
    moreover have "length pre + length (wires tail) = p" using g(7) by (simp add: frame_packet_def)
    ultimately have "length (wires tail) = 0" by linarith
    then have "wires tail = []" by simp
    then have "tail = []" by (cases tail) (auto simp: seg_wire_def header_bytes_def le32_def)
    with False g show ?thesis
      by (intro exI [of _ gs]) (auto simp: flushBuffer_def ptr)
  qed
qed

section \<open>Acknowledgements and probes\<close>

fun ack_segs :: "RUDP \<Rightarrow> segment \<Rightarrow> ackItem list \<Rightarrow> segment list" where
  "ack_segs r seg [] = []"
| "ack_segs r seg (ack # q) =
    (if ack_sn ack \<ge> rcvNxt r \<or> q = [] then [seg\<lparr>seg_sn := ack_sn ack, seg_ts := ack_ts ack\<rparr>] else [])
    @ ack_segs r seg q"

text \<open>The header of \<open>seg\<close> up to its \<^verbatim>\<open>sn\<close> and \<^verbatim>\<open>ts\<close>.\<close>

definition same_but_sn_ts :: "segment \<Rightarrow> segment \<Rightarrow> bool" where
  "same_but_sn_ts seg seg' \<longleftrightarrow> seg' = seg\<lparr>seg_sn := seg_sn seg', seg_ts := seg_ts seg'\<rparr>"

lemma ack_segs_upd: "ack_segs r (seg\<lparr>seg_sn := x, seg_ts := y\<rparr>) q = ack_segs r seg q"
  by (induction q) auto

lemma ack_segs_template:
  "s \<in> set (ack_segs r seg q) \<Longrightarrow> \<exists>a \<in> set q. s = seg\<lparr>seg_sn := ack_sn a, seg_ts := ack_ts a\<rparr>"
  by (induction q) (auto split: if_splits)

lemma flush_acks_framed:
  assumes "sizes_ok r" "length pre = nat (reserved r)"
    and "framed pre (unat (mtu r)) ps0 es ptr (packets w)" and "seg_data seg = []"
  shows "\<exists>seg' ptr' w'. flush_acks r seg q ptr w = Some (seg', ptr', w') \<and>
     framed pre (unat (mtu r)) ps0 (es @ ack_segs r seg q) ptr' (packets w') \<and>
     same_but_sn_ts seg seg' \<and> clock w' = clock w"
  using assms(3,4)
proof (induction q arbitrary: seg ptr w es)
  case Nil
  then show ?case by (simp add: same_but_sn_ts_def)
next
  case (Cons a q)
  obtain ptr1 w1 where 1: "makeSpace r 24 ptr w = Some (ptr1, w1)" "snd ptr1 + 24 \<le> unat (mtu r)" "clock w1 = clock w"
      "framed pre (unat (mtu r)) ps0 es ptr1 (packets w1)"
    using makeSpace_framed [OF assms(1,2), of 24 ps0 es ptr w] Cons.prems by auto
  show ?case
  proof (cases "ack_sn a \<ge> rcvNxt r \<or> q = []")
    case True
    let ?seg = "seg\<lparr>seg_sn := ack_sn a, seg_ts := ack_ts a\<rparr>"
    have dat: "seg_data ?seg = []" using Cons.prems by simp
    obtain ptr2 where 2: "encodeOverHead ?seg ptr1 w1 = Some (ptr2, AddUint64 OutSegs_update 1 w1)"
        "framed pre (unat (mtu r)) ps0 (es @ [?seg]) ptr2 (packets (AddUint64 OutSegs_update 1 w1))"
      using emit_control [OF 1(4,2) dat] by auto
    show ?thesis
      using Cons.IH [OF 2(2) dat] True by (auto simp: 1 2 ack_segs_upd same_but_sn_ts_def Let_def)
  next
    case False
    then show ?thesis
      using Cons.IH [OF 1(4) Cons.prems(2)] by (auto simp: 1)
  qed
qed

lemma flush_ask_framed:
  assumes "sizes_ok r" "length pre = nat (reserved r)"
    and "framed pre (unat (mtu r)) ps0 es ptr (packets w)" and "seg_data seg = []"
  shows "\<exists>ptr' w'. flush_ask bits cmd r seg ptr w =
       Some (if probe r AND bits \<noteq> 0 then seg\<lparr>seg_cmd := cmd\<rparr> else seg, ptr', w') \<and>
     framed pre (unat (mtu r)) ps0 (es @ (if probe r AND bits \<noteq> 0 then [seg\<lparr>seg_cmd := cmd\<rparr>] else [])) ptr' (packets w') \<and>
     clock w' = clock w"
proof (cases "probe r AND bits \<noteq> 0")
  case True
  let ?seg = "seg\<lparr>seg_cmd := cmd\<rparr>"
  obtain ptr1 w1 where 1: "makeSpace r 24 ptr w = Some (ptr1, w1)" "snd ptr1 + 24 \<le> unat (mtu r)" "clock w1 = clock w"
      "framed pre (unat (mtu r)) ps0 es ptr1 (packets w1)"
    using makeSpace_framed [OF assms(1,2), of 24 ps0 es ptr w] assms by auto
  obtain ptr2 where 2: "encodeOverHead ?seg ptr1 w1 = Some (ptr2, AddUint64 OutSegs_update 1 w1)"
      "framed pre (unat (mtu r)) ps0 (es @ [?seg]) ptr2 (packets w1)"
    using emit_control [OF 1(4,2), of ?seg] assms(4) by auto
  show ?thesis using True 1 2 by (simp add: flush_ask_def Let_def)
next
  case False
  then show ?thesis using assms(3) by (simp add: flush_ask_def)
qed

section \<open>Admission\<close>

fun admit_count :: "u32 \<Rightarrow> u32 \<Rightarrow> u32 \<Rightarrow> segment list \<Rightarrow> nat" where
  "admit_count una wnd nxt [] = 0"
| "admit_count una wnd nxt (s # q) = (if nxt \<ge> una + wnd then 0 else Suc (admit_count una wnd (nxt + 1) q))"

fun admit_segs :: "u32 \<Rightarrow> u32 \<Rightarrow> segment list \<Rightarrow> segment list" where
  "admit_segs conv nxt [] = []"
| "admit_segs conv nxt (s # q) =
    s\<lparr>seg_conv := conv, seg_cmd := IRUDP_CMD_PUSH, seg_sn := nxt\<rparr> # admit_segs conv (nxt + 1) q"

abbreviation (input) admitted :: "u32 \<Rightarrow> RUDP \<Rightarrow> nat" where
  "admitted wnd r \<equiv> admit_count (sndUna r) wnd (sndNxt r) (sndQueue r)"

lemma admit_loop_eq:
  "admit_loop wnd q c r =
    (let k = admit_count (sndUna r) wnd (sndNxt r) q
     in (c + k, r\<lparr>sndBuf := sndBuf r @ admit_segs (rudp_conv r) (sndNxt r) (take k q),
                   sndNxt := sndNxt r + word_of_nat k\<rparr>))"
  by (induction wnd q c r rule: admit_loop.induct) (simp_all add: Let_def add.assoc)

lemma admit_eq:
  "admit wnd r = (admitted wnd r,
     r\<lparr>sndBuf := sndBuf r @ admit_segs (rudp_conv r) (sndNxt r) (take (admitted wnd r) (sndQueue r)),
       sndNxt := sndNxt r + word_of_nat (admitted wnd r), sndQueue := drop (admitted wnd r) (sndQueue r)\<rparr>)"
  by (cases "admitted wnd r") (simp_all add: admit_def admit_loop_eq Let_def removeFront_def)

lemma length_admit_segs [simp]: "length (admit_segs conv nxt q) = length q"
  by (induction q arbitrary: nxt) auto

lemma nth_admit_segs:
  "i < length q \<Longrightarrow> admit_segs conv nxt q ! i =
     (q ! i)\<lparr>seg_conv := conv, seg_cmd := IRUDP_CMD_PUSH, seg_sn := nxt + word_of_nat i\<rparr>"
  by (induction q arbitrary: nxt i) (auto simp: nth_Cons add.assoc split: nat.splits)

lemma admit_count_le: "admit_count una wnd nxt q \<le> length q"
  by (induction q arbitrary: nxt) auto

lemma sn_run_admit_segs: "sn_run nxt (admit_segs conv nxt q)"
  by (simp add: sn_run_def nth_admit_segs)

lemma snd_inv_admit: "snd_inv r \<Longrightarrow> snd_inv (snd (admit wnd r))"
  using admit_count_le [of "sndUna r" wnd "sndNxt r" "sndQueue r"]
  by (simp add: admit_eq snd_inv_def sn_run_append sn_run_admit_segs min_absorb2 add.assoc)

text \<open>
  The window is respected and used: no more than \<open>wnd\<close> segments are in flight unless they
  were before, and segments stay queued only when the window is full.
\<close>

lemma admit_count_window:
  "unat una + unat wnd < 2 ^ 32 \<Longrightarrow> una \<le> nxt \<Longrightarrow>
   (let k = admit_count una wnd nxt q in
     (k = 0 \<or> unat nxt + k \<le> unat una + unat wnd) \<and>
     (k < length q \<longrightarrow> unat una + unat wnd \<le> unat nxt + k))"
proof (induction q arbitrary: nxt)
  case (Cons s q)
  have lim: "unat (una + wnd) = unat una + unat wnd" using Cons.prems(1) by (simp add: unat_word_ariths)
  show ?case
  proof (cases "nxt \<ge> una + wnd")
    case True
    then show ?thesis using lim by (simp add: Let_def word_le_nat_alt)
  next
    case False
    then have less: "unat nxt < unat una + unat wnd" using lim by (simp add: word_le_nat_alt)
    then have nxt: "unat (nxt + 1) = unat nxt + 1" using Cons.prems(1) by (simp add: unat_word_ariths)
    then have "una \<le> nxt + 1" using Cons.prems(2) by (simp add: word_le_nat_alt)
    from Cons.IH [OF Cons.prems(1) this] nxt less False show ?thesis by (auto simp: Let_def)
  qed
qed (simp add: Let_def)

end
