(* ===== verification/Rudp_Transmit.thy ===== *)
theory Rudp_Transmit
  imports Rudp_Packets
begin

text \<open>
  The loop of \<^verbatim>\<open>flush\<close> over \<^verbatim>\<open>sndBuf\<close> and the whole of \<^verbatim>\<open>flush\<close>: which segments a call
  emits, what it changes in the state, and that it never panics when the sizes are
  consistent.
\<close>

lemma framed_length: "framed pre m ps0 es ptr ps \<Longrightarrow> length (fst ptr) = m"
  by (simp add: framed_def)

lemma framed_prefix_ptr: "framed pre m ps0 es ptr ps \<Longrightarrow> take (length pre) (fst ptr) = pre"
  by (cases ptr) (auto dest: framed_prefix(1))

text \<open>What a (re)transmission never changes of a segment.\<close>

definition seg_key :: "segment \<Rightarrow> u32 \<times> u8 \<times> u8 \<times> u32 \<times> u32 \<times> u8 list" where
  "seg_key s = (seg_conv s, seg_cmd s, seg_frg s, seg_sn s, seg_acked s, seg_data s)"

lemma seg_key_simps:
  "seg_key s = seg_key t \<longleftrightarrow> seg_conv s = seg_conv t \<and> seg_cmd s = seg_cmd t \<and> seg_frg s = seg_frg t \<and>
     seg_sn s = seg_sn t \<and> seg_acked s = seg_acked t \<and> seg_data s = seg_data t"
  by (simp add: seg_key_def)

lemma resend_decide_frame:
  "resend_decide r resent n s st = (b, s', st') \<Longrightarrow>
     seg_key s' = seg_key s \<and> seg_xmit s' = seg_xmit s \<and> rs_ptr st' = rs_ptr st \<and> rs_world st' = rs_world st \<and>
     rs_current st' = rs_current st \<and> rs_state st' = rs_state st \<and> (seg_xmit s = 0 \<longrightarrow> b)"
  by (auto simp: resend_decide_def Let_def seg_key_def split: if_splits)

lemma resend_put_ok:
  assumes "sizes_ok r" "length pre = nat (reserved r)"
    and fr: "framed pre (unat (mtu r)) ps0 es (rs_ptr st) (packets (rs_world st))"
    and dat: "length (seg_data s) \<le> unat (mss r)"
  shows "\<exists>s' st'. resend_put r seg s st = Some (s', st') \<and> seg_key s' = seg_key s \<and>
     seg_xmit s' = seg_xmit s + 1 \<and> seg_una s' = seg_una seg \<and> seg_wnd s' = seg_wnd seg \<and>
     framed pre (unat (mtu r)) ps0 (es @ [s']) (rs_ptr st') (packets (rs_world st'))"
proof -
  obtain current w where w: "currentMs (rs_world st) = (current, w)" by (cases "currentMs (rs_world st)")
  have pk: "packets w = packets (rs_world st)" using currentMs_frame(2) [of "rs_world st"] w by simp
  let ?s = "s\<lparr>seg_xmit := seg_xmit s + 1, seg_ts := current, seg_wnd := seg_wnd seg, seg_una := seg_una seg\<rparr>"
  obtain ptr1 w1 where 1: "makeSpace r (24 + length (seg_data s)) (rs_ptr st) w = Some (ptr1, w1)"
      "snd ptr1 + (24 + length (seg_data s)) \<le> unat (mtu r)"
      "framed pre (unat (mtu r)) ps0 es ptr1 (packets w1)"
    using makeSpace_framed [OF assms(1,2), of "24 + length (seg_data s)" ps0 es "rs_ptr st" w] fr dat pk by auto
  obtain ptr2 ptr3 where 2: "encodeOverHead ?s ptr1 w1 = Some (ptr2, AddUint64 OutSegs_update 1 w1)"
      "encodeData ?s ptr2 = Some ptr3" "framed pre (unat (mtu r)) ps0 (es @ [?s]) ptr3 (packets w1)"
    using emit_data [OF 1(3), of ?s] 1(2) by auto
  show ?thesis
    using 1 2 by (simp add: resend_put_def w Let_def seg_key_def)
qed

lemma resend_one_ok:
  assumes "sizes_ok r" "length pre = nat (reserved r)"
    and "framed pre (unat (mtu r)) ps0 es (rs_ptr st) (packets (rs_world st))"
    and "length (seg_data s) \<le> unat (mss r)"
  shows "\<exists>s' st' sent. resend_one r seg resent n s st = Some (s', st') \<and> seg_key s' = seg_key s \<and>
     framed pre (unat (mtu r)) ps0 (es @ sent) (rs_ptr st') (packets (rs_world st')) \<and>
     (sent = [] \<and> seg_xmit s' = seg_xmit s \<and> (seg_acked s = 1 \<or> seg_xmit s \<noteq> 0) \<or>
      sent = [s'] \<and> seg_xmit s' = seg_xmit s + 1 \<and> seg_acked s \<noteq> 1 \<and> seg_una s' = seg_una seg \<and> seg_wnd s' = seg_wnd seg)"
proof (cases "seg_acked s = 1")
  case True
  then show ?thesis using assms(3) by (auto simp: resend_one_def)
next
  case False
  obtain b s1 st1 where d: "resend_decide r resent n s st = (b, s1, st1)"
    by (cases "resend_decide r resent n s st") auto
  note f = resend_decide_frame [OF d]
  show ?thesis
  proof (cases b)
    case True
    have "framed pre (unat (mtu r)) ps0 es (rs_ptr st1) (packets (rs_world st1))"
      and "length (seg_data s1) \<le> unat (mss r)"
      using f assms(3,4) by (simp_all add: seg_key_def)
    from resend_put_ok [OF assms(1,2) this, of seg]
    obtain s2 st2 where "resend_put r seg s1 st1 = Some (s2, st2)" "seg_key s2 = seg_key s1"
      "seg_xmit s2 = seg_xmit s1 + 1" "seg_una s2 = seg_una seg" "seg_wnd s2 = seg_wnd seg"
      "framed pre (unat (mtu r)) ps0 (es @ [s2]) (rs_ptr st2) (packets (rs_world st2))" by auto
    then show ?thesis using True False d f by (simp add: resend_one_def Let_def)
  next
    case no: False
    then show ?thesis using False d f assms(3) by (simp add: resend_one_def Let_def)
  qed
qed

text \<open>
  The whole loop: it keeps the numbers, payloads and marks of \<^verbatim>\<open>sndBuf\<close>, emits a
  subsequence of its unacknowledged segments, and always those never sent before.
\<close>

lemma resend_loop_ok:
  assumes "sizes_ok r" "length pre = nat (reserved r)"
    and "framed pre (unat (mtu r)) ps0 es (rs_ptr st) (packets (rs_world st))"
    and "\<forall>s \<in> set q. length (seg_data s) \<le> unat (mss r)"
  shows "\<exists>q' st' sent. resend_loop r seg resent n q st = Some (q', st') \<and> map seg_key q' = map seg_key q \<and>
     framed pre (unat (mtu r)) ps0 (es @ sent) (rs_ptr st') (packets (rs_world st')) \<and>
     set sent \<subseteq> {s \<in> set q'. seg_acked s \<noteq> 1 \<and> seg_una s = seg_una seg \<and> seg_wnd s = seg_wnd seg} \<and>
     (\<forall>i < length q. seg_xmit (q ! i) = 0 \<longrightarrow> seg_acked (q ! i) \<noteq> 1 \<longrightarrow> q' ! i \<in> set sent) \<and>
     (\<forall>i < length q. seg_xmit (q' ! i) \<noteq> seg_xmit (q ! i) \<longrightarrow> q' ! i \<in> set sent)"
  using assms(3,4)
proof (induction q arbitrary: st es)
  case Nil
  then show ?case by simp
next
  case (Cons s q)
  obtain s' st1 sent1 where 1: "resend_one r seg resent n s st = Some (s', st1)" "seg_key s' = seg_key s"
     "framed pre (unat (mtu r)) ps0 (es @ sent1) (rs_ptr st1) (packets (rs_world st1))"
     "sent1 = [] \<and> seg_xmit s' = seg_xmit s \<and> (seg_acked s = 1 \<or> seg_xmit s \<noteq> 0) \<or> sent1 = [s'] \<and> seg_acked s \<noteq> 1 \<and> seg_una s' = seg_una seg \<and> seg_wnd s' = seg_wnd seg"
    using resend_one_ok [OF assms(1,2) Cons.prems(1), of s seg resent n] Cons.prems(2) by auto
  obtain q' st2 sent2 where 2: "resend_loop r seg resent n q st1 = Some (q', st2)" "map seg_key q' = map seg_key q"
     "framed pre (unat (mtu r)) ps0 ((es @ sent1) @ sent2) (rs_ptr st2) (packets (rs_world st2))"
     "set sent2 \<subseteq> {s \<in> set q'. seg_acked s \<noteq> 1 \<and> seg_una s = seg_una seg \<and> seg_wnd s = seg_wnd seg}"
     "\<forall>i < length q. seg_xmit (q ! i) = 0 \<longrightarrow> seg_acked (q ! i) \<noteq> 1 \<longrightarrow> q' ! i \<in> set sent2"
     "\<forall>i < length q. seg_xmit (q' ! i) \<noteq> seg_xmit (q ! i) \<longrightarrow> q' ! i \<in> set sent2"
    using Cons.IH [OF 1(3)] Cons.prems(2) by auto
  have "set (sent1 @ sent2) \<subseteq> {s \<in> set (s' # q'). seg_acked s \<noteq> 1 \<and> seg_una s = seg_una seg \<and> seg_wnd s = seg_wnd seg}"
    using 1(2,4) 2(4) by (auto simp: seg_key_def)
  moreover have "(s' # q') ! i \<in> set (sent1 @ sent2)"
    if "i < length (s # q)" "seg_xmit ((s # q) ! i) = 0" "seg_acked ((s # q) ! i) \<noteq> 1" for i
    using that 1(4) 2(5) by (cases i) auto
  moreover have "(s' # q') ! i \<in> set (sent1 @ sent2)"
    if "i < length (s # q)" "seg_xmit ((s' # q') ! i) \<noteq> seg_xmit ((s # q) ! i)" for i
    using that 1(4) 2(6) by (cases i) auto
  ultimately show ?case
    using 1 2 by (intro exI [of _ "s' # q'"] exI [of _ st2] exI [of _ "sent1 @ sent2"]) auto
qed

section \<open>The whole call\<close>

text \<open>The fields no part of \<^verbatim>\<open>flush\<close> writes.\<close>

definition flush_frame :: "RUDP \<Rightarrow> RUDP \<Rightarrow> bool" where
  "flush_frame r r' \<longleftrightarrow>
     rudp_conv r' = rudp_conv r \<and> mtu r' = mtu r \<and> mss r' = mss r \<and> reserved r' = reserved r \<and>
     sndUna r' = sndUna r \<and> rcvNxt r' = rcvNxt r \<and> rcvQueue r' = rcvQueue r \<and> rcvBuf r' = rcvBuf r \<and>
     sndWnd r' = sndWnd r \<and> rcvWnd r' = rcvWnd r \<and> rmtWnd r' = rmtWnd r \<and> stream r' = stream r \<and>
     noCwnd r' = noCwnd r \<and> noDelay r' = noDelay r \<and> interval r' = interval r \<and> deadLink r' = deadLink r \<and>
     fastResend r' = fastResend r \<and> rxRTO r' = rxRTO r \<and> rxMinRTO r' = rxMinRTO r \<and>
     rxSRTT r' = rxSRTT r \<and> rxRTTVal r' = rxRTTVal r"

lemma flush_frame_refl [simp]: "flush_frame r r"
  by (simp add: flush_frame_def)

lemma flush_frame_trans: "flush_frame r r' \<Longrightarrow> flush_frame r' r'' \<Longrightarrow> flush_frame r r''"
  by (simp add: flush_frame_def)

lemma probe_timer_frame:
  assumes "probe_timer r w = (r', w')"
  shows "flush_frame r r' \<and> sndQueue r' = sndQueue r \<and> sndBuf r' = sndBuf r \<and> sndNxt r' = sndNxt r \<and>
    ackList r' = ackList r \<and> rudp_buffer r' = rudp_buffer r \<and> cwnd r' = cwnd r \<and> ssthresh r' = ssthresh r \<and>
    rudp_state r' = rudp_state r \<and> incr r' = incr r \<and>
    packets w' = packets w \<and> (probe r AND IRUDP_ASK_TELL \<noteq> 0 \<longrightarrow> probe r' AND IRUDP_ASK_TELL \<noteq> 0)"
proof -
  have bit: "(p OR 1) AND 2 = p AND 2" for p :: u32
    by (simp add: bit.conj_disj_distrib2)
  obtain c w0 where cm: "currentMs w = (c, w0)" by (cases "currentMs w")
  have "packets w0 = packets w" using currentMs_frame(2) [of w] cm by simp
  then show ?thesis
    using assms by (auto simp: probe_timer_def flush_frame_def Let_def bit cm split: if_splits)
qed

lemma update_cwnd_frame:
  "flush_frame r (update_cwnd wnd resent change lost r)"
  "sndQueue (update_cwnd wnd resent change lost r) = sndQueue r"
  "sndBuf (update_cwnd wnd resent change lost r) = sndBuf r"
  "sndNxt (update_cwnd wnd resent change lost r) = sndNxt r"
  "ackList (update_cwnd wnd resent change lost r) = ackList r"
  "rudp_buffer (update_cwnd wnd resent change lost r) = rudp_buffer r"
  "probe (update_cwnd wnd resent change lost r) = probe r"
  by (simp_all add: update_cwnd_def flush_frame_def Let_def)

lemma send_window_probe [simp]: "send_window (r\<lparr>probe := x\<rparr>) = send_window r"
  by (simp add: send_window_def Let_def)

lemma u32_ge_1: "1 \<le> (x :: u32) \<longleftrightarrow> x \<noteq> 0"
  by (simp add: word_le_nat_alt Suc_le_eq unat_gt_0)

lemma update_cwnd_pos: "noCwnd r = 0 \<Longrightarrow> 1 \<le> cwnd (update_cwnd wnd resent change lost r)"
  by (simp add: update_cwnd_def Let_def u32_ge_1)

lemma packets_flush_stats [simp]: "packets (flush_stats st w) = packets w"
  by (simp add: flush_stats_def Let_def)

text \<open>Everything fits a packet.\<close>

definition fits_mss :: "RUDP \<Rightarrow> bool" where
  "fits_mss r \<longleftrightarrow> (\<forall>s \<in> set (sndBuf r) \<union> set (sndQueue r). length (seg_data s) \<le> unat (mss r))"

lemma set_admit_segs:
  "s \<in> set (admit_segs conv nxt q) \<Longrightarrow> \<exists>t \<in> set q. seg_data s = seg_data t \<and> seg_xmit s = seg_xmit t \<and>
     seg_acked s = seg_acked t \<and> seg_frg s = seg_frg t \<and> seg_conv s = conv \<and> seg_cmd s = IRUDP_CMD_PUSH"
  by (induction q arbitrary: nxt) fastforce+

text \<open>
  The outcome of the part of \<^verbatim>\<open>flush\<close> that \<^verbatim>\<open>ackOnly\<close> skips: \<open>probes\<close> and \<open>pushes\<close> are the
  segments it emits.
\<close>

definition flush_data_post :: "RUDP \<Rightarrow> RUDP \<Rightarrow> segment list \<Rightarrow> bool" where
  "flush_data_post r r' pushes \<longleftrightarrow>
     (let k = admitted (send_window r) r;
          before = sndBuf r @ admit_segs (rudp_conv r) (sndNxt r) (take k (sndQueue r))
      in flush_frame r r' \<and> sndQueue r' = drop k (sndQueue r) \<and> sndNxt r' = sndNxt r + word_of_nat k \<and>
         map seg_key (sndBuf r') = map seg_key before \<and> probe r' = 0 \<and>
         set pushes \<subseteq> {s \<in> set (sndBuf r'). seg_acked s \<noteq> 1 \<and> seg_una s = rcvNxt r \<and> seg_wnd s = unusedWnd r} \<and>
         (\<forall>i < length before. seg_xmit (before ! i) = 0 \<longrightarrow> seg_acked (before ! i) \<noteq> 1 \<longrightarrow> sndBuf r' ! i \<in> set pushes) \<and>
         (\<forall>i < length before. seg_xmit (sndBuf r' ! i) \<noteq> seg_xmit (before ! i) \<longrightarrow> sndBuf r' ! i \<in> set pushes) \<and>
         (noCwnd r = 0 \<longrightarrow> 1 \<le> cwnd r'))"

text \<open>The two window probes.\<close>

lemma flush_probes_framed:
  assumes "sizes_ok r" "length pre = nat (reserved r)" "framed pre (unat (mtu r)) ps0 es ptr (packets w)" "seg_data seg = []"
  obtains seg2 ptr2 w2 seg3 ptr3 w3 probes where
    "flush_ask IRUDP_ASK_SEND IRUDP_CMD_WASK r seg ptr w = Some (seg2, ptr2, w2)"
    "flush_ask IRUDP_ASK_TELL IRUDP_CMD_WINS r seg2 ptr2 w2 = Some (seg3, ptr3, w3)"
    "framed pre (unat (mtu r)) ps0 (es @ probes) ptr3 (packets w3)" "seg_una seg3 = seg_una seg" "seg_wnd seg3 = seg_wnd seg"
    "\<forall>s \<in> set probes. \<exists>c \<in> {IRUDP_CMD_WASK, IRUDP_CMD_WINS}. s = seg\<lparr>seg_cmd := c\<rparr>"
    "probe r AND IRUDP_ASK_TELL \<noteq> 0 \<longrightarrow> seg\<lparr>seg_cmd := IRUDP_CMD_WINS\<rparr> \<in> set probes"
    "probe r AND IRUDP_ASK_SEND \<noteq> 0 \<longrightarrow> seg\<lparr>seg_cmd := IRUDP_CMD_WASK\<rparr> \<in> set probes"
proof -
  define seg2 where "seg2 = (if probe r AND IRUDP_ASK_SEND \<noteq> 0 then seg\<lparr>seg_cmd := IRUDP_CMD_WASK\<rparr> else seg)"
  define p2 where "p2 = (if probe r AND IRUDP_ASK_SEND \<noteq> 0 then [seg\<lparr>seg_cmd := IRUDP_CMD_WASK\<rparr>] else [])"
  obtain ptr2 w2 where 2: "flush_ask IRUDP_ASK_SEND IRUDP_CMD_WASK r seg ptr w = Some (seg2, ptr2, w2)"
      "framed pre (unat (mtu r)) ps0 (es @ p2) ptr2 (packets w2)"
    using flush_ask_framed [OF assms, of IRUDP_ASK_SEND IRUDP_CMD_WASK] unfolding seg2_def p2_def by blast
  have seg2': "seg_data seg2 = []" using assms(4) by (simp add: seg2_def)
  define seg3 where "seg3 = (if probe r AND IRUDP_ASK_TELL \<noteq> 0 then seg2\<lparr>seg_cmd := IRUDP_CMD_WINS\<rparr> else seg2)"
  define p3 where "p3 = (if probe r AND IRUDP_ASK_TELL \<noteq> 0 then [seg2\<lparr>seg_cmd := IRUDP_CMD_WINS\<rparr>] else [])"
  obtain ptr3 w3 where 3: "flush_ask IRUDP_ASK_TELL IRUDP_CMD_WINS r seg2 ptr2 w2 = Some (seg3, ptr3, w3)"
      "framed pre (unat (mtu r)) ps0 ((es @ p2) @ p3) ptr3 (packets w3)"
    using flush_ask_framed [OF assms(1,2) 2(2) seg2', of IRUDP_ASK_TELL IRUDP_CMD_WINS]
    unfolding seg3_def p3_def by blast
  show thesis
    by (rule that [OF 2(1) 3(1), of "p2 @ p3"]) (use 3(2) in \<open>auto simp: seg3_def seg2_def p2_def p3_def\<close>)
qed

lemma flush_data_ok:
  assumes ok: "sizes_ok r" "fits_mss r" and pre: "length pre = nat (reserved r)"
    and fr: "framed pre (unat (mtu r)) ps0 es ptr (packets w)" and seg: "seg_data seg = []" "seg_una seg = rcvNxt r" "seg_wnd seg = unusedWnd r"
  shows "\<exists>v r' w' gs probes pushes. flush_data r seg ptr w = Some (v, r', w') \<and>
     packets w' = ps0 @ map (frame_packet pre) gs \<and> concat gs = es @ probes @ pushes \<and>
     (\<forall>g \<in> set gs. length (frame_packet pre g) \<le> unat (mtu r)) \<and>
     (\<forall>s \<in> set probes. \<exists>c \<in> {IRUDP_CMD_WASK, IRUDP_CMD_WINS}. s = seg\<lparr>seg_cmd := c\<rparr>) \<and>
     (probe r AND IRUDP_ASK_TELL \<noteq> 0 \<longrightarrow> seg\<lparr>seg_cmd := IRUDP_CMD_WINS\<rparr> \<in> set probes) \<and>
     (probe (fst (probe_timer r w)) AND IRUDP_ASK_SEND \<noteq> 0 \<longrightarrow> seg\<lparr>seg_cmd := IRUDP_CMD_WASK\<rparr> \<in> set probes) \<and>
     probeWait r' = probeWait (fst (probe_timer r w)) \<and> tsProbe r' = tsProbe (fst (probe_timer r w)) \<and>
     flush_data_post r r' pushes \<and> ackList r' = ackList r \<and>
     length (rudp_buffer r') = unat (mtu r) \<and> take (length pre) (rudp_buffer r') = pre"
proof -
  obtain r1 w1 where 1: "probe_timer r w = (r1, w1)" by (cases "probe_timer r w")
  note f1 = probe_timer_frame [OF 1]
  have same: "sizes_ok r1" "length pre = nat (reserved r1)" "mtu r1 = mtu r" "mss r1 = mss r" "sndUna r1 = sndUna r"
      "rudp_conv r1 = rudp_conv r" "send_window r1 = send_window r"
    using f1 ok pre by (simp_all add: flush_frame_def sizes_ok_def send_window_def Let_def)
  have fr1: "framed pre (unat (mtu r1)) ps0 es ptr (packets w1)" using fr f1 same by simp
  obtain seg2 ptr2 w2 seg3 ptr3 w3 probes where
      2: "flush_ask IRUDP_ASK_SEND IRUDP_CMD_WASK r1 seg ptr w1 = Some (seg2, ptr2, w2)"
      and 3: "flush_ask IRUDP_ASK_TELL IRUDP_CMD_WINS r1 seg2 ptr2 w2 = Some (seg3, ptr3, w3)"
        "framed pre (unat (mtu r1)) ps0 (es @ probes) ptr3 (packets w3)" "seg_una seg3 = seg_una seg" "seg_wnd seg3 = seg_wnd seg"
      and probes: "\<forall>s \<in> set probes. \<exists>c \<in> {IRUDP_CMD_WASK, IRUDP_CMD_WINS}. s = seg\<lparr>seg_cmd := c\<rparr>"
        "probe r1 AND IRUDP_ASK_TELL \<noteq> 0 \<longrightarrow> seg\<lparr>seg_cmd := IRUDP_CMD_WINS\<rparr> \<in> set probes"
        "probe r1 AND IRUDP_ASK_SEND \<noteq> 0 \<longrightarrow> seg\<lparr>seg_cmd := IRUDP_CMD_WASK\<rparr> \<in> set probes"
    by (rule flush_probes_framed [OF same(1,2) fr1 seg(1)])
  define k where "k = admitted (send_window r) r"
  define before where "before = sndBuf r @ admit_segs (rudp_conv r) (sndNxt r) (take k (sndQueue r))"
  define r2 where "r2 = r1\<lparr>probe := 0, sndBuf := before, sndNxt := sndNxt r + word_of_nat k, sndQueue := drop k (sndQueue r)\<rparr>"
  have adm: "admit (send_window (r1\<lparr>probe := 0\<rparr>)) (r1\<lparr>probe := 0\<rparr>) = (k, r2)"
  proof -
    have "send_window (r1\<lparr>probe := 0\<rparr>) = send_window r" using same(7) by simp
    then show ?thesis using f1 same by (simp add: admit_eq r2_def before_def k_def)
  qed
  have same2: "sizes_ok r2" "length pre = nat (reserved r2)" "mtu r2 = mtu r" "mss r2 = mss r" "sndBuf r2 = before"
    using same by (auto simp: r2_def sizes_ok_def)
  obtain current w4 where 4: "currentMs w3 = (current, w4)" by (cases "currentMs w3")
  have w4: "packets w4 = packets w3" using currentMs_frame(2) [of w3] 4 by simp
  define st where "st = \<lparr>rs_current = current, rs_change = 0, rs_fast = 0, rs_early = 0, rs_lost = 0,
     rs_minRto = ucast (interval r2), rs_state = rudp_state r2, rs_ptr = ptr3, rs_world = w4\<rparr>"
  have frst: "framed pre (unat (mtu r2)) ps0 (es @ probes) (rs_ptr st) (packets (rs_world st))"
    using 3(2) same same2 w4 by (simp add: st_def)
  have small: "\<forall>s \<in> set before. length (seg_data s) \<le> unat (mss r2)"
    using ok(2) same2(4) by (auto simp: before_def fits_mss_def dest!: set_admit_segs in_set_takeD)
  obtain q' st' sent where 5: "resend_loop r2 seg3 (resent_limit r2) k before st = Some (q', st')"
      "map seg_key q' = map seg_key before"
      "framed pre (unat (mtu r2)) ps0 ((es @ probes) @ sent) (rs_ptr st') (packets (rs_world st'))"
      "set sent \<subseteq> {s \<in> set q'. seg_acked s \<noteq> 1 \<and> seg_una s = seg_una seg3 \<and> seg_wnd s = seg_wnd seg3}"
      "\<forall>i < length before. seg_xmit (before ! i) = 0 \<longrightarrow> seg_acked (before ! i) \<noteq> 1 \<longrightarrow> q' ! i \<in> set sent"
      "\<forall>i < length before. seg_xmit (q' ! i) \<noteq> seg_xmit (before ! i) \<longrightarrow> q' ! i \<in> set sent"
    using resend_loop_ok [OF same2(1,2) frst small] by blast
  define r3 where "r3 = r2\<lparr>sndBuf := q', rudp_state := rs_state st', rudp_buffer := fst (rs_ptr st')\<rparr>"
  have pre3: "length pre = nat (reserved r3)" "0 \<le> reserved r3"
    using same2 by (simp_all add: r3_def sizes_ok_def)
  obtain gs where 6: "packets (flushBuffer r3 (rs_ptr st') (rs_world st')) = ps0 @ map (frame_packet pre) gs"
      "concat gs = (es @ probes) @ sent" "\<forall>g \<in> set gs. length (frame_packet pre g) \<le> unat (mtu r2)"
    using flushBuffer_framed [OF pre3 5(3)] by blast
  define r4 where "r4 = update_cwnd (send_window r) (resent_limit r2) (rs_change st') (rs_lost st') r3"
  have run: "flush_data r seg ptr w =
      Some (ucast (rs_minRto st'), r4, flush_stats st' (flushBuffer r3 (rs_ptr st') (rs_world st')))"
  proof -
    have w: "send_window (r1\<lparr>probe := 0\<rparr>) = send_window r" using same(7) by simp
    have "(if k > 0 then r2 else r2) = r2" by simp
    show ?thesis
      unfolding flush_data_def
      by (simp add: 1 2 3(1) adm [unfolded w] same(7) 4 Let_def same2(5) 5(1) [unfolded st_def ucast_id] r4_def r3_def)
  qed
  have fr4: "flush_frame r r4"
  proof -
    have "flush_frame r r3" using f1 by (simp add: r3_def r2_def flush_frame_def)
    then show ?thesis unfolding r4_def by (rule flush_frame_trans [OF _ update_cwnd_frame(1)])
  qed
  have post: "flush_data_post r r4 sent"
  proof -
    have "noCwnd r = 0 \<longrightarrow> 1 \<le> cwnd r4"
      using update_cwnd_pos [of r3] f1 by (simp add: r4_def r3_def r2_def flush_frame_def)
    moreover have "seg_una seg3 = rcvNxt r" "seg_wnd seg3 = unusedWnd r" using seg(2,3) 3(3,4) by simp_all
    ultimately show ?thesis
      using fr4 5(2,4,5,6) unfolding flush_data_post_def Let_def
      by (simp add: k_def [symmetric] before_def [symmetric])
         (simp add: r4_def update_cwnd_frame r3_def r2_def)
  qed
  have tell: "probe r AND IRUDP_ASK_TELL \<noteq> 0 \<longrightarrow> seg\<lparr>seg_cmd := IRUDP_CMD_WINS\<rparr> \<in> set probes"
    using probes(2) f1 by auto
  have ask: "probe (fst (probe_timer r w)) AND IRUDP_ASK_SEND \<noteq> 0 \<longrightarrow> seg\<lparr>seg_cmd := IRUDP_CMD_WASK\<rparr> \<in> set probes"
    using probes(3) by (simp add: 1)
  have timer: "probeWait r4 = probeWait (fst (probe_timer r w))" "tsProbe r4 = tsProbe (fst (probe_timer r w))"
    by (simp_all add: 1 r4_def r3_def r2_def update_cwnd_def Let_def)
  have buf: "length (rudp_buffer r4) = unat (mtu r)" "take (length pre) (rudp_buffer r4) = pre" "ackList r4 = ackList r"
    using framed_length [OF 5(3)] framed_prefix_ptr [OF 5(3)] f1 same2(3)
    by (simp_all add: r4_def update_cwnd_frame r3_def r2_def)
  show ?thesis
    using run 6 probes(1) tell ask timer post buf same2(3)
    by (intro exI [of _ "ucast (rs_minRto st')"] exI [of _ r4]
        exI [of _ "flush_stats st' (flushBuffer r3 (rs_ptr st') (rs_world st'))"] exI [of _ gs]
        exI [of _ "probes"] exI [of _ sent]) simp
qed

lemma ack_template_data [simp]: "seg_data (ack_template r) = []"
  by (simp add: ack_template_def zero_segment_def)

lemma flush_ack_only:
  assumes ok: "sizes_ok r"
  shows "\<exists>r' w' gs. flush True r w = Some (interval r, r', w') \<and>
     packets w' = packets w @ map (frame_packet (reserved_bytes r)) gs \<and>
     concat gs = ack_segs r (ack_template r) (ackList r) \<and>
     (\<forall>g \<in> set gs. length (frame_packet (reserved_bytes r) g) \<le> unat (mtu r)) \<and>
     r' = r\<lparr>ackList := [], rudp_buffer := rudp_buffer r'\<rparr> \<and> reserved_bytes r' = reserved_bytes r \<and>
     length (rudp_buffer r') = unat (mtu r)"
proof -
  note start = framed_start [OF ok, of "packets w"]
  then have len: "length (reserved_bytes r) = nat (reserved r)" by blast
  have fr0: "framed (reserved_bytes r) (unat (mtu r)) (packets w) [] (rudp_buffer r, nat (reserved r)) (packets w)"
    using start by blast
  obtain seg' ptr' w' where 1: "flush_acks r (ack_template r) (ackList r) (rudp_buffer r, nat (reserved r)) w = Some (seg', ptr', w')"
     "framed (reserved_bytes r) (unat (mtu r)) (packets w) (ack_segs r (ack_template r) (ackList r)) ptr' (packets w')"
    using flush_acks_framed [OF ok len fr0, of "ack_template r" "ackList r"] by auto
  let ?r = "r\<lparr>ackList := []\<rparr>"
  have nonneg: "0 \<le> reserved r" using ok by (simp add: sizes_ok_def)
  obtain gs where 2: "packets (flushBuffer ?r ptr' w') = packets w @ map (frame_packet (reserved_bytes r)) gs"
      "concat gs = ack_segs r (ack_template r) (ackList r)"
      "\<forall>g \<in> set gs. length (frame_packet (reserved_bytes r) g) \<le> unat (mtu r)"
    using flushBuffer_framed [of "reserved_bytes r" ?r, OF _ _ 1(2)] len nonneg by auto
  have buf: "length (fst ptr') = unat (mtu r)" "take (nat (reserved r)) (fst ptr') = reserved_bytes r"
    using framed_length [OF 1(2)] framed_prefix_ptr [OF 1(2)] len by simp_all
  show ?thesis
    using start 1 2 buf
    by (intro exI [of _ "r\<lparr>ackList := [], rudp_buffer := fst ptr'\<rparr>"] exI [of _ "flushBuffer ?r ptr' w'"] exI [of _ gs])
       (simp add: flush_def Let_def reserved_bytes_def)
qed

lemma probe_timer_clock:
  "clock w' = clock w \<Longrightarrow> probeWait (fst (probe_timer (r\<lparr>ackList := q\<rparr>) w')) = probeWait (fst (probe_timer r w)) \<and>
     tsProbe (fst (probe_timer (r\<lparr>ackList := q\<rparr>) w')) = tsProbe (fst (probe_timer r w)) \<and>
     probe (fst (probe_timer (r\<lparr>ackList := q\<rparr>) w')) = probe (fst (probe_timer r w))"
  by (simp add: probe_timer_def currentMs_def Let_def)

lemma flush_full_probes:
  assumes ok: "sizes_ok r" "fits_mss r"
  shows "\<exists>v r' w' gs probes pushes. flush False r w = Some (v, r', w') \<and>
     packets w' = packets w @ map (frame_packet (reserved_bytes r)) gs \<and>
     concat gs = ack_segs r (ack_template r) (ackList r) @ probes @ pushes \<and>
     (\<forall>g \<in> set gs. length (frame_packet (reserved_bytes r) g) \<le> unat (mtu r)) \<and>
     (\<forall>s \<in> set probes. seg_cmd s \<in> {IRUDP_CMD_WASK, IRUDP_CMD_WINS} \<and> seg_conv s = rudp_conv r \<and>
        seg_una s = rcvNxt r \<and> seg_wnd s = unusedWnd r \<and> seg_data s = []) \<and>
     (probe r AND IRUDP_ASK_TELL \<noteq> 0 \<longrightarrow> IRUDP_CMD_WINS \<in> seg_cmd ` set probes) \<and>
     (probe (fst (probe_timer r w)) AND IRUDP_ASK_SEND \<noteq> 0 \<longrightarrow> IRUDP_CMD_WASK \<in> seg_cmd ` set probes) \<and>
     probeWait r' = probeWait (fst (probe_timer r w)) \<and> tsProbe r' = tsProbe (fst (probe_timer r w)) \<and>
     flush_data_post r r' pushes \<and> ackList r' = [] \<and>
     length (rudp_buffer r') = unat (mtu r) \<and> reserved_bytes r' = reserved_bytes r"
proof -
  note start = framed_start [OF ok(1), of "packets w"]
  then have len: "length (reserved_bytes r) = nat (reserved r)" by blast
  have fr0: "framed (reserved_bytes r) (unat (mtu r)) (packets w) [] (rudp_buffer r, nat (reserved r)) (packets w)"
    using start by blast
  obtain seg' ptr1 w1 where 1: "flush_acks r (ack_template r) (ackList r) (rudp_buffer r, nat (reserved r)) w = Some (seg', ptr1, w1)"
     "framed (reserved_bytes r) (unat (mtu r)) (packets w) (ack_segs r (ack_template r) (ackList r)) ptr1 (packets w1)"
     "same_but_sn_ts (ack_template r) seg'" "clock w1 = clock w"
    using flush_acks_framed [OF ok(1) len fr0, of "ack_template r" "ackList r"] by auto
  obtain x y where seg': "seg' = (ack_template r)\<lparr>seg_sn := x, seg_ts := y\<rparr>"
    using 1(3) unfolding same_but_sn_ts_def by blast
  let ?r = "r\<lparr>ackList := []\<rparr>"
  have ok': "sizes_ok ?r" "fits_mss ?r" using ok by (simp_all add: sizes_ok_def fits_mss_def)
  have eqs: "reserved ?r = reserved r" "mtu ?r = mtu r" "probe ?r = probe r" by simp_all
  have len': "length (reserved_bytes r) = nat (reserved ?r)" using len by simp
  have fr1: "framed (reserved_bytes r) (unat (mtu ?r)) (packets w) (ack_segs r (ack_template r) (ackList r)) ptr1 (packets w1)"
    using 1(2) by simp
  have dat: "seg_data seg' = []" "seg_una seg' = rcvNxt ?r" "seg_wnd seg' = unusedWnd ?r" using seg' by (simp_all add: ack_template_def zero_segment_def unusedWnd_def)
  obtain v r' w' gs probes pushes where 2: "flush_data ?r seg' ptr1 w1 = Some (v, r', w')"
     "packets w' = packets w @ map (frame_packet (reserved_bytes r)) gs"
     "concat gs = ack_segs r (ack_template r) (ackList r) @ probes @ pushes"
     "\<forall>g \<in> set gs. length (frame_packet (reserved_bytes r) g) \<le> unat (mtu r)"
     "\<forall>s \<in> set probes. \<exists>c \<in> {IRUDP_CMD_WASK, IRUDP_CMD_WINS}. s = seg'\<lparr>seg_cmd := c\<rparr>"
     "probe r AND IRUDP_ASK_TELL \<noteq> 0 \<longrightarrow> seg'\<lparr>seg_cmd := IRUDP_CMD_WINS\<rparr> \<in> set probes"
     "probe (fst (probe_timer ?r w1)) AND IRUDP_ASK_SEND \<noteq> 0 \<longrightarrow> seg'\<lparr>seg_cmd := IRUDP_CMD_WASK\<rparr> \<in> set probes"
     "probeWait r' = probeWait (fst (probe_timer ?r w1))" "tsProbe r' = tsProbe (fst (probe_timer ?r w1))"
     "flush_data_post ?r r' pushes" "ackList r' = ackList ?r"
     "length (rudp_buffer r') = unat (mtu r)" "take (nat (reserved r)) (rudp_buffer r') = reserved_bytes r"
    using flush_data_ok [OF ok' len' fr1 dat] unfolding eqs len by blast
  have same: "unusedWnd ?r = unusedWnd r" "send_window ?r = send_window r"
    by (simp_all add: unusedWnd_def send_window_def Let_def cong: if_cong)
  have post: "flush_data_post r r' pushes"
    using 2(10) by (simp add: flush_data_post_def flush_frame_def same Let_def)
  have probes: "\<forall>s \<in> set probes. seg_cmd s \<in> {IRUDP_CMD_WASK, IRUDP_CMD_WINS} \<and> seg_conv s = rudp_conv r \<and>
        seg_una s = rcvNxt r \<and> seg_wnd s = unusedWnd r \<and> seg_data s = []"
    using 2(5) seg' by (fastforce simp: ack_template_def zero_segment_def)
  have tell: "probe r AND IRUDP_ASK_TELL \<noteq> 0 \<longrightarrow> IRUDP_CMD_WINS \<in> seg_cmd ` set probes"
    using 2(6) by force
  note timer = probe_timer_clock [OF 1(4), of "[]" r]
  have ask: "probe (fst (probe_timer r w)) AND IRUDP_ASK_SEND \<noteq> 0 \<longrightarrow> IRUDP_CMD_WASK \<in> seg_cmd ` set probes"
    using 2(7) timer by force
  have res: "reserved_bytes r' = reserved_bytes r"
    using 2(13) post by (simp add: reserved_bytes_def flush_data_post_def flush_frame_def Let_def)
  have run: "flush False r w = Some (v, r', w')"
    using start 1(1) 2(1) by (simp add: flush_def Let_def)
  show ?thesis
    using run 2(2-4,8,9,11,12) timer probes tell ask post res by (intro exI) auto
qed

lemma flush_full:
  assumes ok: "sizes_ok r" "fits_mss r"
  shows "\<exists>v r' w' gs probes pushes. flush False r w = Some (v, r', w') \<and>
     packets w' = packets w @ map (frame_packet (reserved_bytes r)) gs \<and>
     concat gs = ack_segs r (ack_template r) (ackList r) @ probes @ pushes \<and>
     (\<forall>g \<in> set gs. length (frame_packet (reserved_bytes r) g) \<le> unat (mtu r)) \<and>
     (\<forall>s \<in> set probes. seg_cmd s \<in> {IRUDP_CMD_WASK, IRUDP_CMD_WINS} \<and> seg_conv s = rudp_conv r \<and>
        seg_una s = rcvNxt r \<and> seg_wnd s = unusedWnd r \<and> seg_data s = []) \<and>
     (probe r AND IRUDP_ASK_TELL \<noteq> 0 \<longrightarrow> IRUDP_CMD_WINS \<in> seg_cmd ` set probes) \<and>
     flush_data_post r r' pushes \<and> ackList r' = [] \<and>
     length (rudp_buffer r') = unat (mtu r) \<and> reserved_bytes r' = reserved_bytes r"
  using flush_full_probes [OF assms, of w] by blast

end
