(* ===== verification/Rudp_Flush_Spec.thy ===== *)
theory Rudp_Flush_Spec
  imports Rudp_Transmit
begin

text \<open>
  The properties of \<^verbatim>\<open>flush\<close>: it cannot panic, what its packets hold, which segments it
  (re)transmits, the window it respects, the timers and the congestion window.
\<close>

lemma data_of_keys: "map seg_key p = map seg_key q \<Longrightarrow> map seg_data p = map seg_data q"
proof -
  assume "map seg_key p = map seg_key q"
  then have "map (\<lambda>(_, _, _, _, _, d). d) (map seg_key p) = map (\<lambda>(_, _, _, _, _, d). d) (map seg_key q)" by simp
  then show ?thesis by (simp add: seg_key_def comp_def)
qed

lemma sn_of_keys: "map seg_key p = map seg_key q \<Longrightarrow> map seg_sn p = map seg_sn q"
proof -
  assume "map seg_key p = map seg_key q"
  then have "map (\<lambda>(_, _, _, n, _, _). n) (map seg_key p) = map (\<lambda>(_, _, _, n, _, _). n) (map seg_key q)" by simp
  then show ?thesis by (simp add: seg_key_def comp_def)
qed

lemma data_admit_segs [simp]: "map seg_data (admit_segs conv nxt q) = map seg_data q"
  by (induction q arbitrary: nxt) auto

lemma fits_mss_data:
  "fits_mss r \<longleftrightarrow> (\<forall>d \<in> set (map seg_data (sndBuf r @ sndQueue r)). length d \<le> unat (mss r))"
  by (auto simp: fits_mss_def)

lemma post_keys:
  "flush_data_post r r' p \<Longrightarrow>
     let k = admitted (send_window r) r
     in map seg_key (sndBuf r') = map seg_key (sndBuf r @ admit_segs (rudp_conv r) (sndNxt r) (take k (sndQueue r))) \<and>
        sndQueue r' = drop k (sndQueue r) \<and> sndNxt r' = sndNxt r + word_of_nat k \<and> k \<le> length (sndQueue r) \<and>
        length (sndBuf r') = length (sndBuf r) + k"
  by (auto simp: flush_data_post_def Let_def admit_count_le min_absorb2 dest: arg_cong [where f = length])

text \<open>No byte is lost or reordered between the queue and the buffer.\<close>

lemma post_data: "flush_data_post r r' p \<Longrightarrow> map seg_data (sndBuf r' @ sndQueue r') = map seg_data (sndBuf r @ sndQueue r)"
  by (drule post_keys) (clarsimp simp: Let_def simp del: map_append, drule data_of_keys, simp flip: take_map drop_map)

lemma post_snd_inv: "flush_data_post r r' p \<Longrightarrow> snd_inv r \<Longrightarrow> snd_inv r'"
proof -
  assume post: "flush_data_post r r' p" and inv: "snd_inv r"
  define k where "k = admitted (send_window r) r"
  have *: "snd_inv (snd (admit (send_window r) r))" using inv by (rule snd_inv_admit)
  have keys: "map seg_key (sndBuf r') = map seg_key (sndBuf r @ admit_segs (rudp_conv r) (sndNxt r) (take k (sndQueue r)))"
    using post by (simp add: flush_data_post_def Let_def k_def)
  from sn_of_keys [OF keys] have run: "sn_run una (sndBuf r') \<longleftrightarrow>
      sn_run una (sndBuf r @ admit_segs (rudp_conv r) (sndNxt r) (take k (sndQueue r)))" for una
    by (rule sn_run_cong)
  have len: "length (sndBuf r') = length (sndBuf r) + length (take k (sndQueue r))"
    using arg_cong [OF keys, of length] by simp
  show "snd_inv r'"
    using * post run len
    by (simp add: snd_inv_def admit_eq k_def flush_data_post_def flush_frame_def Let_def)
qed

lemma post_fits: "flush_data_post r r' p \<Longrightarrow> fits_mss r \<Longrightarrow> fits_mss r'"
  using post_data [of r r' p] by (simp only: fits_mss_data) (simp add: flush_data_post_def flush_frame_def Let_def)

lemma ack_segs_conveys:
  "a \<in> set q \<Longrightarrow> rcvNxt r \<le> ack_sn a \<Longrightarrow> seg\<lparr>seg_sn := ack_sn a, seg_ts := ack_ts a\<rparr> \<in> set (ack_segs r seg q)"
  by (induction q) auto

lemma ack_segs_nonempty: "q \<noteq> [] \<Longrightarrow> ack_segs r seg q \<noteq> []"
  by (induction q) auto

text \<open>When a segment of \<^verbatim>\<open>sndBuf\<close> is due.\<close>

definition due :: "u32 \<Rightarrow> nat \<Rightarrow> u32 \<Rightarrow> segment \<Rightarrow> bool" where
  "due resent newSegCount current s \<longleftrightarrow>
     seg_acked s \<noteq> 1 \<and>
     (seg_xmit s = 0 \<or> resent \<le> seg_fastack s \<or> 0 < seg_fastack s \<and> newSegCount = 0 \<or>
      0 \<le> sint (timeDiff current (seg_resendts s)))"

lemma resend_decide_due:
  "due resent n (rs_current st) s \<Longrightarrow>
   \<exists>s1 st1. resend_decide r resent n s st = (True, s1, st1) \<and> (seg_xmit s \<noteq> 0 \<longrightarrow> seg_fastack s1 = 0) \<and>
     seg_resendts s1 = rs_current st + seg_rto s1"
  by (auto simp: due_def resend_decide_def Let_def)

text \<open>A connection with one payload queued, one acknowledgement pending and the window open.\<close>

definition demo_flush :: RUDP where
  "demo_flush = (NewRudp 7)\<lparr>sndQueue := [zero_segment\<lparr>seg_data := [1, 2, 3]\<rparr>], cwnd := 1, rcvNxt := 1,
     ackList := [\<lparr>ack_sn = 0, ack_ts = 5\<rparr>]\<rparr>"

lemma demo_flush_ok: "sizes_ok demo_flush" "fits_mss demo_flush" "snd_inv demo_flush" "snd_nowrap demo_flush"
  by (simp_all add: demo_flush_def sizes_ok_def fits_mss_def snd_inv_def snd_nowrap_def NewRudp_def zero_RUDP_def
      zero_segment_def)

text \<open>\<^verbatim>\<open>flush\<close> is total, keeps the sending half in order and leaves the receiving half alone.\<close>

lemma flush_total_keeps:
  assumes "sizes_ok r" and "fits_mss r"
  shows "\<exists>v r' w'. flush ackOnly r w = Some (v, r', w') \<and> sizes_ok r' \<and> fits_mss r' \<and>
    (snd_inv r \<longrightarrow> snd_inv r') \<and> flush_frame r r'"
proof (cases ackOnly)
  case True
  obtain r' w' where run: "flush True r w = Some (interval r, r', w')"
    and r': "r' = r\<lparr>ackList := [], rudp_buffer := rudp_buffer r'\<rparr>" and len: "length (rudp_buffer r') = unat (mtu r)"
    using flush_ack_only [OF assms(1), of w] by blast
  define b where "b = rudp_buffer r'"
  have r': "r' = r\<lparr>ackList := [], rudp_buffer := b\<rparr>" "length b = unat (mtu r)" using r' len by (simp_all add: b_def)
  then show ?thesis
    using True run assms by (simp add: sizes_ok_def fits_mss_def snd_inv_def flush_frame_def)
next
  case False
  obtain v r' w' pushes where run: "flush False r w = Some (v, r', w')" and post: "flush_data_post r r' pushes"
    and len: "length (rudp_buffer r') = unat (mtu r)"
    using flush_full [OF assms, of w] by blast
  have fr: "flush_frame r r'" using post by (simp add: flush_data_post_def Let_def)
  then have "sizes_ok r'" using len assms(1) by (simp add: sizes_ok_def flush_frame_def)
  then show ?thesis using False run fr post_fits [OF post assms(2)] post_snd_inv [OF post] by auto
qed

section \<open>Properties\<close>

text \<open>
  Claim C13. With consistent sizes and payloads that fit the MSS, \<^verbatim>\<open>flush\<close> runs to its end
  in both modes: no slice expression and no encoder can panic, and the state it leaves
  satisfies the same condition, so the next call cannot either.
\<close>

theorem flush_never_panics:
  assumes "sizes_ok r" and "fits_mss r"
  shows "\<exists>v r' w'. flush ackOnly r w = Some (v, r', w') \<and> sizes_ok r' \<and> fits_mss r'"
  using flush_total_keeps [OF assms] by blast

theorem flush_never_panics_witness: "\<exists>v r' w'. flush False demo_flush (new_world [3, 4]) = Some (v, r', w')"
  using flush_never_panics [OF demo_flush_ok(1,2), of False "new_world [3, 4]"] by blast

text \<open>
  Claim C14. Every packet a full \<^verbatim>\<open>flush\<close> outputs is the reserved prefix followed by whole
  segments (header and payload), at most MTU bytes long; read in order the packets hold the
  pending acknowledgements, then the window probes, then payload segments, each of them the
  header and payload of an unacknowledged segment of the new \<^verbatim>\<open>sndBuf\<close>.
\<close>

theorem flush_packets:
  assumes "sizes_ok r" and "fits_mss r"
  shows "\<exists>v r' w' gs probes pushes. flush False r w = Some (v, r', w') \<and>
     packets w' = packets w @ map (\<lambda>g. reserved_bytes r @ concat (map (\<lambda>s. header_bytes s @ seg_data s) g)) gs \<and>
     (\<forall>p \<in> set (drop (length (packets w)) (packets w')). length p \<le> unat (mtu r)) \<and>
     concat gs = ack_segs r (ack_template r) (ackList r) @ probes @ pushes \<and>
     (\<forall>s \<in> set probes. seg_cmd s \<in> {IRUDP_CMD_WASK, IRUDP_CMD_WINS} \<and> seg_data s = [] \<and> seg_una s = rcvNxt r) \<and>
     (\<forall>s \<in> set pushes. s \<in> set (sndBuf r') \<and> seg_acked s \<noteq> 1)"
proof -
  obtain v r' w' gs probes pushes where *: "flush False r w = Some (v, r', w')"
     "packets w' = packets w @ map (frame_packet (reserved_bytes r)) gs"
     "concat gs = ack_segs r (ack_template r) (ackList r) @ probes @ pushes"
     "\<forall>g \<in> set gs. length (frame_packet (reserved_bytes r) g) \<le> unat (mtu r)"
     "\<forall>s \<in> set probes. seg_cmd s \<in> {IRUDP_CMD_WASK, IRUDP_CMD_WINS} \<and> seg_conv s = rudp_conv r \<and>
        seg_una s = rcvNxt r \<and> seg_wnd s = unusedWnd r \<and> seg_data s = []"
     "flush_data_post r r' pushes"
    using flush_full [OF assms, of w] by blast
  have fp: "frame_packet (reserved_bytes r) = (\<lambda>g. reserved_bytes r @ concat (map (\<lambda>s. header_bytes s @ seg_data s) g))"
    by (simp add: fun_eq_iff frame_packet_def wires_def seg_wire_def [abs_def])
  have "\<forall>s \<in> set pushes. s \<in> set (sndBuf r') \<and> seg_acked s \<noteq> 1"
    using *(6) by (auto simp: flush_data_post_def Let_def)
  with * show ?thesis by (intro exI [of _ v] exI [of _ r'] exI [of _ w'] exI [of _ gs] exI [of _ probes] exI [of _ pushes])
      (auto simp flip: fp)
qed

theorem flush_packets_witness:
  "\<exists>v r' w' gs probes pushes. flush False demo_flush (new_world [3, 4]) = Some (v, r', w') \<and>
     concat gs = ack_segs demo_flush (ack_template demo_flush) (ackList demo_flush) @ probes @ pushes"
  using flush_packets [OF demo_flush_ok(1,2), of "new_world [3, 4]"] by blast

text \<open>
  Claim C17. No acknowledgement is lost: after \<^verbatim>\<open>flush\<close>, in either mode, \<^verbatim>\<open>ackList\<close> is empty
  and each entry has either been put into a packet as an ACK segment with its number and time
  stamp, or its number is below the \<^verbatim>\<open>una\<close> that an ACK segment of this call carries.
\<close>

theorem flush_delivers_acks:
  assumes "sizes_ok r" and "fits_mss r"
  shows "\<exists>v r' w' gs. flush ackOnly r w = Some (v, r', w') \<and> ackList r' = [] \<and>
     packets w' = packets w @ map (frame_packet (reserved_bytes r)) gs \<and>
     (\<forall>a \<in> set (ackList r). \<exists>s \<in> set (concat gs). seg_cmd s = IRUDP_CMD_ACK \<and> seg_una s = rcvNxt r \<and>
        (seg_sn s = ack_sn a \<and> seg_ts s = ack_ts a \<or> ack_sn a < rcvNxt r))"
proof -
  let ?es = "ack_segs r (ack_template r) (ackList r)"
  have conveyed: "\<exists>s \<in> set ?es. seg_cmd s = IRUDP_CMD_ACK \<and> seg_una s = rcvNxt r \<and>
        (seg_sn s = ack_sn a \<and> seg_ts s = ack_ts a \<or> ack_sn a < rcvNxt r)" if mem: "a \<in> set (ackList r)" for a
  proof (cases "rcvNxt r \<le> ack_sn a")
    case True
    from ack_segs_conveys [OF mem True, of "ack_template r"] show ?thesis
      by (rule bexI [rotated]) (simp add: ack_template_def)
  next
    case False
    have "ackList r \<noteq> []" using mem by auto
    then have "hd ?es \<in> set ?es" by (intro list.set_sel(1) ack_segs_nonempty)
    then obtain s where s: "s \<in> set ?es" ..
    from ack_segs_template [OF s] show ?thesis
      using False s by (intro bexI [OF _ s]) (auto simp: ack_template_def)
  qed
  show ?thesis
  proof (cases ackOnly)
    case True
    obtain r' w' gs where "flush True r w = Some (interval r, r', w')"
      "packets w' = packets w @ map (frame_packet (reserved_bytes r)) gs" and gs: "concat gs = ?es"
      and r': "r' = r\<lparr>ackList := [], rudp_buffer := rudp_buffer r'\<rparr>"
      using flush_ack_only [OF assms(1), of w] by blast
    moreover have "ackList r' = []" by (subst r') simp
    moreover have "\<forall>a \<in> set (ackList r). \<exists>s \<in> set (concat gs). seg_cmd s = IRUDP_CMD_ACK \<and> seg_una s = rcvNxt r \<and>
        (seg_sn s = ack_sn a \<and> seg_ts s = ack_ts a \<or> ack_sn a < rcvNxt r)"
      unfolding gs using conveyed by blast
    moreover have "ackOnly = True" using True by simp
    ultimately show ?thesis by blast
  next
    case False
    obtain v r' w' gs probes pushes where "flush False r w = Some (v, r', w')"
       "packets w' = packets w @ map (frame_packet (reserved_bytes r)) gs"
       "concat gs = ?es @ probes @ pushes" "ackList r' = []"
      using flush_full [OF assms, of w] by blast
    then show ?thesis using False conveyed by (intro exI [of _ v] exI [of _ r'] exI [of _ w'] exI [of _ gs]) auto
  qed
qed

theorem flush_delivers_acks_witness:
  "\<exists>v r' w'. flush True demo_flush (new_world []) = Some (v, r', w') \<and> ackList r' = [] \<and> packets w' \<noteq> []"
proof -
  have acks: "ackList demo_flush = [\<lparr>ack_sn = 0, ack_ts = 5\<rparr>]" "rcvNxt demo_flush = 1"
    by (simp_all add: demo_flush_def)
  have "packets (new_world []) = []" by (simp add: new_world_def packets_def)
  then show ?thesis
    using flush_delivers_acks [OF demo_flush_ok(1,2), of True "new_world []"] unfolding acks by fastforce
qed

text \<open>
  Claim C15. The window is respected and used. When the run of numbers does not wrap, a full
  \<^verbatim>\<open>flush\<close> keeps \<^verbatim>\<open>sndBuf\<close> the run from \<^verbatim>\<open>sndUna\<close> to \<^verbatim>\<open>sndNxt\<close>, has at most as many segments in
  flight as the send window allows (or as there were before), leaves segments queued only
  when the window is full, and neither drops, duplicates nor reorders a payload.
\<close>

theorem flush_window:
  assumes "sizes_ok r" and "fits_mss r" and "snd_inv r" and "snd_nowrap r"
    and "unat (sndUna r) + unat (send_window r) < 2 ^ 32"
  shows "\<exists>v r' w'. flush False r w = Some (v, r', w') \<and> snd_inv r' \<and> snd_nowrap r' \<and>
     length (sndBuf r') \<le> max (length (sndBuf r)) (unat (send_window r)) \<and>
     (sndQueue r' \<noteq> [] \<longrightarrow> unat (send_window r) \<le> length (sndBuf r')) \<and>
     map seg_data (sndBuf r' @ sndQueue r') = map seg_data (sndBuf r @ sndQueue r)"
proof -
  obtain v r' w' pushes where run: "flush False r w = Some (v, r', w')" and post: "flush_data_post r r' pushes"
    using flush_full [OF assms(1,2), of w] by blast
  define k where "k = admitted (send_window r) r"
  have k: "sndQueue r' = drop k (sndQueue r)" "length (sndBuf r') = length (sndBuf r) + k" "k \<le> length (sndQueue r)"
    "sndUna r' = sndUna r"
    using post_keys [OF post] post by (simp_all add: k_def Let_def flush_data_post_def flush_frame_def)
  have nxt: "unat (sndNxt r) = unat (sndUna r) + length (sndBuf r)"
    using assms(3,4) by (simp add: snd_inv_def snd_nowrap_def unat_word_ariths unat_of_nat)
  then have "sndUna r \<le> sndNxt r" by (simp add: word_le_nat_alt)
  from admit_count_window [OF assms(5) this, of "sndQueue r"] nxt
  have win: "k = 0 \<or> length (sndBuf r) + k \<le> unat (send_window r)"
    "k < length (sndQueue r) \<longrightarrow> unat (send_window r) \<le> length (sndBuf r) + k"
    by (simp_all add: Let_def k_def)
  have "snd_nowrap r'" using win(1) k assms(4,5) by (auto simp: snd_nowrap_def)
  then show ?thesis
    using run win k post_snd_inv [OF post assms(3)] post_data [OF post] by auto
qed

theorem flush_window_witness:
  "\<exists>v r' w'. flush False demo_flush (new_world [3, 4]) = Some (v, r', w') \<and> length (sndBuf r') \<le> 1"
proof -
  have w: "sndUna demo_flush = 0" "send_window demo_flush = 1" "sndBuf demo_flush = []"
    by (simp_all add: demo_flush_def send_window_def NewRudp_def zero_RUDP_def Let_def)
  show ?thesis
    using flush_window [OF demo_flush_ok, of "new_world [3, 4]"] by (auto simp: w)
qed

text \<open>
  Claim C27. One iteration of the transmission loop sends exactly the segments that are due:
  not acknowledged, and never sent, skipped often enough, skipped while nothing new was
  admitted, or past their timer. Sending counts one transmission and clears the skip count of
  a segment sent before; a segment that is not due is left as it is, and the number, payload
  and acknowledgement mark never change.
\<close>

theorem resend_policy:
  assumes "sizes_ok r" and "length pre = nat (reserved r)" and "length (seg_data s) \<le> unat (mss r)"
    and "framed pre (unat (mtu r)) ps0 es (rs_ptr st) (packets (rs_world st))"
  shows "\<exists>s' st'. resend_one r seg resent n s st = Some (s', st') \<and> seg_key s' = seg_key s \<and>
     (if due resent n (rs_current st) s
      then seg_xmit s' = seg_xmit s + 1 \<and> (seg_xmit s \<noteq> 0 \<longrightarrow> seg_fastack s' = 0) \<and>
           seg_resendts s' = rs_current st + seg_rto s' \<and>
           framed pre (unat (mtu r)) ps0 (es @ [s']) (rs_ptr st') (packets (rs_world st'))
      else s' = s \<and> rs_ptr st' = rs_ptr st \<and> rs_world st' = rs_world st)"
proof (cases "due resent n (rs_current st) s")
  case False
  then show ?thesis
    by (cases "seg_acked s = 1") (auto simp: due_def resend_one_def resend_decide_def Let_def not_le not_less)
next
  case True
  obtain s1 st1 where d: "resend_decide r resent n s st = (True, s1, st1)"
    "seg_xmit s \<noteq> 0 \<longrightarrow> seg_fastack s1 = 0" "seg_resendts s1 = rs_current st + seg_rto s1"
    using resend_decide_due [OF True, of r] by blast
  note f = resend_decide_frame [OF d(1)]
  have "framed pre (unat (mtu r)) ps0 es (rs_ptr st1) (packets (rs_world st1))" "length (seg_data s1) \<le> unat (mss r)"
    using f assms(3,4) by (simp_all add: seg_key_def)
  from resend_put_ok [OF assms(1,2) this, of seg]
  obtain s2 st2 where p: "resend_put r seg s1 st1 = Some (s2, st2)" "seg_key s2 = seg_key s1"
      "seg_xmit s2 = seg_xmit s1 + 1" "framed pre (unat (mtu r)) ps0 (es @ [s2]) (rs_ptr st2) (packets (rs_world st2))"
    by auto
  have keep: "seg_fastack s2 = seg_fastack s1" "seg_resendts s2 = seg_resendts s1" "seg_rto s2 = seg_rto s1"
    using p(1) by (auto simp: resend_put_def Let_def bind_eq_Some_conv split: prod.splits)
  have "seg_acked s \<noteq> 1" using True by (simp add: due_def)
  then show ?thesis using True d p keep f by (simp add: resend_one_def Let_def)
qed

theorem resend_policy_witness:
  "\<exists>s' st'. resend_one demo_flush (ack_template demo_flush) 3 0 (zero_segment\<lparr>seg_xmit := 1, seg_fastack := 3\<rparr>)
     \<lparr>rs_current = 9, rs_change = 0, rs_fast = 0, rs_early = 0, rs_lost = 0, rs_minRto = 100, rs_state = 0,
      rs_ptr = (rudp_buffer demo_flush, 0), rs_world = new_world [9]\<rparr> = Some (s', st') \<and> seg_xmit s' = 2"
proof -
  let ?s = "zero_segment\<lparr>seg_xmit := 1, seg_fastack := 3\<rparr>"
  let ?st = "\<lparr>rs_current = 9, rs_change = 0, rs_fast = 0, rs_early = 0, rs_lost = 0, rs_minRto = 100, rs_state = 0,
      rs_ptr = (rudp_buffer demo_flush, 0), rs_world = new_world [9]\<rparr>"
  have res: "reserved demo_flush = 0" "reserved_bytes demo_flush = []"
    by (simp_all add: demo_flush_def NewRudp_def zero_RUDP_def reserved_bytes_def)
  have fr: "framed [] (unat (mtu demo_flush)) (packets (new_world [9])) [] (rs_ptr ?st) (packets (rs_world ?st))"
    using framed_start [OF demo_flush_ok(1), of "packets (new_world [9])"] by (simp add: res)
  have small: "length (seg_data ?s) \<le> unat (mss demo_flush)" by (simp add: zero_segment_def)
  have "due 3 0 (rs_current ?st) ?s" by (simp add: due_def zero_segment_def)
  then show ?thesis
    using resend_policy [OF demo_flush_ok(1) _ small fr, of "ack_template demo_flush" 3 0] by (auto simp: res)
qed

text \<open>
  The congestion window after a \<^verbatim>\<open>flush\<close>: never 0; one segment, with the threshold
  at half the window in use, when a timer expired; and otherwise, when segments were resent
  because of skips, the threshold is half the segments in flight and the window is that plus
  the skip limit.
\<close>

lemma update_cwnd_reacts:
  assumes "noCwnd r = 0"
  shows "let r' = update_cwnd wnd resent change lost r in
    cwnd r' \<ge> 1 \<and>
    (lost > 0 \<longrightarrow> cwnd r' = 1 \<and> ssthresh r' = max (wnd div 2) 2 \<and> incr r' = mss r) \<and>
    (lost = 0 \<longrightarrow> change > 0 \<longrightarrow> ssthresh r' = max ((sndNxt r - sndUna r) div 2) 2 \<and>
       (ssthresh r' + resent \<noteq> 0 \<longrightarrow> cwnd r' = ssthresh r' + resent \<and> incr r' = cwnd r' * mss r)) \<and>
    (lost = 0 \<longrightarrow> change = 0 \<longrightarrow> ssthresh r' = ssthresh r \<and> (cwnd r \<ge> 1 \<longrightarrow> cwnd r' = cwnd r))"
proof -
  have "lost > 0 \<longrightarrow> cwnd (update_cwnd wnd resent change lost r) = 1 \<and>
      ssthresh (update_cwnd wnd resent change lost r) = max (wnd div 2) 2 \<and>
      incr (update_cwnd wnd resent change lost r) = mss r"
    using assms by (cases "change > 0") (simp_all add: update_cwnd_def Let_def)
  moreover have "lost = 0 \<longrightarrow> change > 0 \<longrightarrow>
      ssthresh (update_cwnd wnd resent change lost r) = max ((sndNxt r - sndUna r) div 2) 2 \<and>
      (max ((sndNxt r - sndUna r) div 2) 2 + resent \<noteq> 0 \<longrightarrow>
        cwnd (update_cwnd wnd resent change lost r) = max ((sndNxt r - sndUna r) div 2) 2 + resent \<and>
        incr (update_cwnd wnd resent change lost r) = (max ((sndNxt r - sndUna r) div 2) 2 + resent) * mss r)"
    using assms by (simp add: update_cwnd_def Let_def)
  moreover have "lost = 0 \<longrightarrow> change = 0 \<longrightarrow> ssthresh (update_cwnd wnd resent change lost r) = ssthresh r \<and>
      (cwnd r \<ge> 1 \<longrightarrow> cwnd (update_cwnd wnd resent change lost r) = cwnd r)"
    using assms by (simp add: update_cwnd_def Let_def u32_ge_1)
  ultimately show ?thesis
    using update_cwnd_pos [OF assms, of wnd resent change lost]
    unfolding Let_def by (intro conjI impI) simp_all
qed

lemma update_cwnd_reacts_witness:
  "cwnd (update_cwnd 8 3 0 1 (NewRudp 7)) = 1 \<and> ssthresh (update_cwnd 8 3 0 1 (NewRudp 7)) = 4"
proof -
  have "max (8 div 2) 2 = (4 :: u32)" by (simp add: max_def)
  then show ?thesis
    using update_cwnd_reacts [of "NewRudp 7" 8 3 0 1] by (simp add: NewRudp_def zero_RUDP_def Let_def)
qed

text \<open>
  When fast retransmission is off (\<^verbatim>\<open>fastResend = 0\<close>, the default) the skip limit is
  \<^verbatim>\<open>0xffffffff\<close>, and an early retransmission adds that to the threshold: the sum wraps, and
  the new window is the threshold minus one instead of something above it.
\<close>

lemma early_retransmit_shrinks_below_threshold:
  assumes "noCwnd r = 0" and "fastResend r = 0" and "change > 0"
  shows "cwnd (update_cwnd wnd (resent_limit r) change 0 r) = ssthresh (update_cwnd wnd (resent_limit r) change 0 r) - 1"
proof -
  have "resent_limit r = - 1" using assms(2) by (simp add: resent_limit_def)
  moreover have "max (x :: u32) 2 - 1 \<noteq> 0" for x
    by (auto simp: max_def)
  ultimately show ?thesis
    using assms by (simp add: update_cwnd_def Let_def u32_ge_1)
qed

lemma early_retransmit_shrinks_below_threshold_witness:
  "cwnd (update_cwnd 8 (resent_limit (NewRudp 7)) 1 0 (NewRudp 7)) =
   ssthresh (update_cwnd 8 (resent_limit (NewRudp 7)) 1 0 (NewRudp 7)) - 1"
  using early_retransmit_shrinks_below_threshold [of "NewRudp 7" 1 8] by (simp add: NewRudp_def zero_RUDP_def)

text \<open>
  While the peer's window is closed the probe timer backs off: it starts at 7
  seconds, a probe is requested exactly when the time has come, each expiry multiplies the
  wait by 3/2 up to 120 seconds, and an open window resets it.
\<close>

lemma probe_backoff:
  assumes "probeWait r = 0 \<or> IRUDP_PROBE_MIN \<le> probeWait r" and "probeWait r \<le> IRUDP_PROBE_LIMIT"
  shows "let (r', w') = probe_timer r w; now = fst (currentMs w);
             expired = (probeWait r \<noteq> 0 \<and> 0 \<le> sint (timeDiff now (tsProbe r)))
         in if rmtWnd r \<noteq> 0 then r' = r\<lparr>probeWait := 0, tsProbe := 0\<rparr> \<and> w' = w
            else IRUDP_PROBE_MIN \<le> probeWait r' \<and> probeWait r' \<le> IRUDP_PROBE_LIMIT \<and>
                 probe r' = (if expired then probe r OR IRUDP_ASK_SEND else probe r) \<and>
                 (expired \<longrightarrow> unat (probeWait r') = min 120000 (unat (probeWait r) * 3 div 2)) \<and>
                 (probeWait r = 0 \<or> expired \<longrightarrow> tsProbe r' = now + probeWait r')"
proof -
  obtain now w0 where now: "currentMs w = (now, w0)" by (cases "currentMs w")
  have half: "unat (probeWait r + probeWait r div 2) = unat (probeWait r) * 3 div 2"
    using assms(2) by (simp add: unat_word_ariths unat_div word_le_nat_alt)
  have mn: "unat (min 120000 (probeWait r + probeWait r div 2)) = min 120000 (unat (probeWait r) * 3 div 2)"
    using half by (simp add: min_def word_le_nat_alt)
  have ge: "7000 \<le> min 120000 (probeWait r + probeWait r div 2)" if "7000 \<le> probeWait r"
    using that half by (simp add: word_le_nat_alt mn)
  show ?thesis
  proof (cases "rmtWnd r = 0")
    case False
    then show ?thesis by (simp add: probe_timer_def)
  next
    case closed: True
    show ?thesis
    proof (cases "probeWait r = 0")
      case True
      then show ?thesis using closed by (simp add: probe_timer_def now Let_def)
    next
      case False
      then have "\<not> probeWait r < 7000" "7000 \<le> probeWait r" using assms(1) by auto
      then show ?thesis using False closed assms(2) mn ge by (simp add: probe_timer_def now Let_def)
    qed
  qed
qed

lemma probe_backoff_witness:
  "unat (probeWait (fst (probe_timer ((NewRudp 7)\<lparr>rmtWnd := 0, probeWait := 7000, tsProbe := 5\<rparr>) (new_world [9])))) = 10500"
proof -
  let ?r = "(NewRudp 7)\<lparr>rmtWnd := 0, probeWait := 7000, tsProbe := 5\<rparr>"
  have now: "fst (currentMs (new_world [9])) = 9" by (simp add: currentMs_def new_world_def ms_clock_def)
  have exp: "0 \<le> sint (timeDiff 9 5)" by (simp add: timeDiff_def)
  obtain r' w' where p: "probe_timer ?r (new_world [9]) = (r', w')" by (cases "probe_timer ?r (new_world [9])")
  have "unat (probeWait r') = 10500"
    using probe_backoff [of ?r "new_world [9]"] exp by (simp add: Let_def now p)
  then show ?thesis by (simp add: p)
qed

text \<open>
  \<^verbatim>\<open>makeSpace\<close> empties the buffer as soon as the next segment would fill it exactly,
  so a full-size segment at the start of a packet makes it output a packet with no segment in
  it, of just the reserved bytes.
\<close>

lemma makeSpace_outputs_empty_packet:
  assumes "sizes_ok r" and "length buf = unat (mtu r)"
  shows "makeSpace r (IRUDP_OVERHEAD + unat (mss r)) (buf, nat (reserved r)) w =
    Some ((buf, nat (reserved r)), call_output buf (nat (reserved r)) w)"
proof -
  have "0 \<le> reserved r" "nat (reserved r) + (24 + unat (mss r)) = unat (mtu r)"
    using assms(1) by (auto simp: sizes_ok_def simp del: of_nat_unat)
  moreover from this have "reserved r \<le> int (length buf)" using assms(2) by linarith
  ultimately show ?thesis by (simp add: makeSpace_def start_ptr_def)
qed

lemma makeSpace_outputs_empty_packet_witness:
  "\<exists>w'. makeSpace (NewRudp 7) 1400 (rudp_buffer (NewRudp 7), 0) (new_world []) = Some ((rudp_buffer (NewRudp 7), 0), w') \<and>
     packets w' = [[]]"
proof -
  have new: "length (rudp_buffer (NewRudp 7)) = unat (mtu (NewRudp 7))" "reserved (NewRudp 7) = 0" "unat (mss (NewRudp 7)) = 1376"
    by (simp_all add: NewRudp_def zero_RUDP_def)
  show ?thesis
    using makeSpace_outputs_empty_packet [OF sizes_ok_NewRudp new(1), of "new_world []"]
    by (simp add: new(2,3) packets_def new_world_def)
qed

end
