(* ===== verification/Rudp_Reassembly.thy ===== *)
theory Rudp_Reassembly
  imports Rudp_Receive
begin

text \<open>
  What the receiving half promises. \<open>src\<close> is what the peer numbered: \<open>src n\<close> is the
  fragment number and the data of the segment with sequence number \<open>n\<close>. The invariant
  \<open>rcv_inv src\<close> says that the reorder buffer is strictly sorted and holds only numbers from
  \<^verbatim>\<open>rcvNxt\<close> on, and that \<^verbatim>\<open>rcvQueue\<close> holds the stretch of \<open>src\<close> that ends just before
  \<^verbatim>\<open>rcvNxt\<close>. It needs no assumption about the 32-bit numbers wrapping: \<^verbatim>\<open>parseData\<close> never
  accepts the number \<open>2^32 - 1\<close>.
\<close>

type_synonym payload = "u8 \<times> u8 list"

definition pay :: "segment \<Rightarrow> payload" where
  "pay s = (seg_frg s, seg_data s)"

definition rcv_inv :: "(nat \<Rightarrow> payload) \<Rightarrow> RUDP \<Rightarrow> bool" where
  "rcv_inv src r \<longleftrightarrow>
     sorted_wrt (<) (map seg_sn (rcvBuf r)) \<and>
     (\<forall>s \<in> set (rcvBuf r). rcvNxt r \<le> seg_sn s \<and> seg_sn s < - 1 \<and> pay s = src (unat (seg_sn s))) \<and>
     length (rcvQueue r) \<le> unat (rcvNxt r) \<and>
     map pay (rcvQueue r) = map src [unat (rcvNxt r) - length (rcvQueue r)..<unat (rcvNxt r)]"

section \<open>Sequence numbers that do not wrap\<close>

lemma unat_Suc_lt_max: "(x :: u32) < - 1 \<Longrightarrow> unat (x + 1) = Suc (unat x)"
  by unat_arith

lemma unat_add_run: "\<forall>j < i. (x :: u32) + word_of_nat j < - 1 \<Longrightarrow> unat (x + word_of_nat i) = unat x + i"
proof (induction i)
  case (Suc i)
  then have "unat (x + word_of_nat i) = unat x + i" "x + word_of_nat i < - 1" by auto
  then show ?case using unat_Suc_lt_max [of "x + word_of_nat i"] by (simp add: ac_simps)
qed simp

lemma less_word_max: "(x :: u32) < y \<Longrightarrow> x < - 1"
  by (meson less_le_trans word_n1_ge)

section \<open>Moving to the queue\<close>

lemma map_nth_upt: "k \<le> length xs \<Longrightarrow> map f (take k xs) = map (\<lambda>i. f (xs ! i)) [0..<k]"
  by (rule nth_equalityI) auto

lemma upt_shift_map: "map f [n..<n + k] = map (\<lambda>i. f (n + i)) [0..<k]"
  by (rule nth_equalityI) auto

text \<open>What \<^const>\<open>move_to_queue\<close> does under the invariant, in natural numbers.\<close>

lemma move_to_queue_inv:
  assumes "rcv_inv src r"
  obtains k where "k \<le> length (rcvBuf r)"
    and "move_to_queue r = r\<lparr>rcvNxt := rcvNxt r + word_of_nat k,
       rcvQueue := rcvQueue r @ take k (rcvBuf r), rcvBuf := drop k (rcvBuf r)\<rparr>"
    and "unat (rcvNxt r + word_of_nat k) = unat (rcvNxt r) + k"
    and "map pay (take k (rcvBuf r)) = map src [unat (rcvNxt r)..<unat (rcvNxt r) + k]"
    and "\<forall>s \<in> set (drop k (rcvBuf r)). rcvNxt r + word_of_nat k \<le> seg_sn s"
    and "0 < k \<Longrightarrow> length (rcvQueue r) + k \<le> unat (rcvWnd r)"
    and "k < length (rcvBuf r) \<Longrightarrow> seg_sn (rcvBuf r ! k) = rcvNxt r + word_of_nat k \<Longrightarrow>
         unat (rcvWnd r) \<le> length (rcvQueue r) + k"
    and "\<forall>i < k. unat (seg_sn (rcvBuf r ! i)) = unat (rcvNxt r) + i"
proof -
  obtain k where k: "k \<le> length (rcvBuf r)"
      "move_to_queue r = r\<lparr>rcvNxt := rcvNxt r + word_of_nat k,
         rcvQueue := rcvQueue r @ take k (rcvBuf r), rcvBuf := drop k (rcvBuf r)\<rparr>"
      "\<forall>i < k. seg_sn (rcvBuf r ! i) = rcvNxt r + word_of_nat i"
      "0 < k \<longrightarrow> length (rcvQueue r) + k \<le> unat (rcvWnd r)"
      "k < length (rcvBuf r) \<longrightarrow> seg_sn (rcvBuf r ! k) = rcvNxt r + word_of_nat k \<longrightarrow>
         unat (rcvWnd r) \<le> length (rcvQueue r) + k"
    using move_to_queue_spec [of r] by blast
  have buf: "\<And>i. i < length (rcvBuf r) \<Longrightarrow> rcvNxt r \<le> seg_sn (rcvBuf r ! i) \<and> seg_sn (rcvBuf r ! i) < - 1
      \<and> pay (rcvBuf r ! i) = src (unat (seg_sn (rcvBuf r ! i)))"
    using assms by (simp add: rcv_inv_def)
  have nowrap: "unat (rcvNxt r + word_of_nat i) = unat (rcvNxt r) + i" if "i \<le> k" for i
  proof (intro unat_add_run allI impI)
    fix j assume "j < i"
    with that have "j < k" by simp
    with k(1,3) buf [of j] show "rcvNxt r + word_of_nat j < - 1" by auto
  qed
  have sns: "\<forall>i < k. unat (seg_sn (rcvBuf r ! i)) = unat (rcvNxt r) + i"
    using k(3) nowrap by simp
  have "map pay (take k (rcvBuf r)) = map src [unat (rcvNxt r)..<unat (rcvNxt r) + k]"
    using k(1) buf sns by (simp add: map_nth_upt upt_shift_map)
  moreover have "rcvNxt r + word_of_nat k \<le> seg_sn s" if mem: "s \<in> set (drop k (rcvBuf r))" for s
  proof -
    obtain i where "i < length (rcvBuf r) - k" "s = drop k (rcvBuf r) ! i"
      using mem by (auto simp: in_set_conv_nth)
    then have j: "k \<le> k + i" "k + i < length (rcvBuf r)" "s = rcvBuf r ! (k + i)"
      by simp_all
    show ?thesis
    proof (cases k)
      case 0
      with buf j show ?thesis by simp
    next
      case (Suc m)
      have "seg_sn (rcvBuf r ! m) < seg_sn s"
        using assms j Suc by (auto simp: rcv_inv_def sorted_wrt_iff_nth_less)
      then have "unat (rcvNxt r) + k \<le> unat (seg_sn s)"
        using sns Suc by (simp add: word_less_nat_alt)
      then show ?thesis using nowrap [of k] by (simp add: word_le_nat_alt)
    qed
  qed
  ultimately show thesis using that k nowrap [of k] sns by blast
qed

lemma rcv_inv_move:
  assumes "rcv_inv src r"
  shows "rcv_inv src (move_to_queue r)"
proof -
  obtain k where k: "k \<le> length (rcvBuf r)"
      "move_to_queue r = r\<lparr>rcvNxt := rcvNxt r + word_of_nat k,
       rcvQueue := rcvQueue r @ take k (rcvBuf r), rcvBuf := drop k (rcvBuf r)\<rparr>"
      "unat (rcvNxt r + word_of_nat k) = unat (rcvNxt r) + k"
      "map pay (take k (rcvBuf r)) = map src [unat (rcvNxt r)..<unat (rcvNxt r) + k]"
      "\<forall>s \<in> set (drop k (rcvBuf r)). rcvNxt r + word_of_nat k \<le> seg_sn s"
    using move_to_queue_inv [OF assms] by metis
  have "map src [unat (rcvNxt r) - length (rcvQueue r)..<unat (rcvNxt r)]
      @ map src [unat (rcvNxt r)..<unat (rcvNxt r) + k]
      = map src [unat (rcvNxt r) - length (rcvQueue r)..<unat (rcvNxt r) + k]"
    by (simp flip: map_append upt_add_eq_append)
  with assms k show ?thesis
    by (auto simp: rcv_inv_def drop_map [symmetric] sorted_wrt_drop dest: in_set_dropD)
qed

section \<open>Inserting in order\<close>

lemma find_insert_spec:
  assumes "sorted_wrt (<) (map seg_sn buf)" and "n \<le> length buf"
    and "\<forall>j. n \<le> j \<longrightarrow> j < length buf \<longrightarrow> sn < seg_sn (buf ! j)"
    and "find_insert buf n sn = (rep, i)"
  shows "rep \<longleftrightarrow> sn \<in> seg_sn ` set buf"
    and "\<not> rep \<Longrightarrow> i \<le> length buf \<and> (\<forall>s \<in> set (take i buf). seg_sn s < sn) \<and> (\<forall>s \<in> set (drop i buf). sn < seg_sn s)"
proof -
  have *: "(rep \<longleftrightarrow> sn \<in> seg_sn ` set buf) \<and> (\<not> rep \<longrightarrow> i \<le> length buf \<and>
      (\<forall>j < i. seg_sn (buf ! j) < sn) \<and> (\<forall>j. i \<le> j \<longrightarrow> j < length buf \<longrightarrow> sn < seg_sn (buf ! j)))"
    using assms(2-4)
  proof (induction n)
    case 0
    then show ?case by (auto simp: in_set_conv_nth)
  next
    case (Suc n)
    have sorted: "\<forall>j < n. seg_sn (buf ! j) < seg_sn (buf ! n)"
      using assms(1) Suc.prems(1) by (auto simp: sorted_wrt_iff_nth_less)
    consider "seg_sn (buf ! n) = sn" | "seg_sn (buf ! n) < sn" | "sn < seg_sn (buf ! n)"
      by (meson linorder_cases)
    then show ?case
    proof cases
      case 1
      moreover have "buf ! n \<in> set buf" using Suc.prems(1) by simp
      ultimately show ?thesis using Suc.prems(3) by (auto simp: Let_def)
    next
      case 2
      then have ri: "rep = False" "i = Suc n" using Suc.prems(3) by (simp_all add: Let_def less_imp_neq)
      have lt: "\<forall>j < Suc n. seg_sn (buf ! j) < sn" using 2 sorted by (auto simp: less_Suc_eq)
      have "sn \<notin> seg_sn ` set buf"
        using lt Suc.prems(2) by (auto simp: in_set_conv_nth) (metis less_irrefl not_less_eq_eq not_le)
      with ri lt Suc.prems show ?thesis by simp
    next
      case 3
      then have "\<not> seg_sn (buf ! n) < sn" "seg_sn (buf ! n) \<noteq> sn" by auto
      then have "find_insert buf n sn = (rep, i)"
        using Suc.prems(3) by (simp add: Let_def)
      moreover have "\<forall>j. n \<le> j \<longrightarrow> j < length buf \<longrightarrow> sn < seg_sn (buf ! j)"
        using 3 Suc.prems(2) by (metis Suc_leI le_neq_implies_less)
      ultimately show ?thesis using Suc.IH Suc.prems(1) by simp
    qed
  qed
  show "rep \<longleftrightarrow> sn \<in> seg_sn ` set buf" using * by blast
  show "\<not> rep \<Longrightarrow> i \<le> length buf \<and> (\<forall>s \<in> set (take i buf). seg_sn s < sn) \<and> (\<forall>s \<in> set (drop i buf). sn < seg_sn s)"
    using * by (auto simp: in_set_conv_nth)
qed

text \<open>The reorder buffer after an accepted segment.\<close>

definition rcv_insert :: "segment \<Rightarrow> segment list \<Rightarrow> segment list" where
  "rcv_insert seg buf =
    (if seg_sn seg \<in> seg_sn ` set buf then buf
     else takeWhile (\<lambda>s. seg_sn s < seg_sn seg) buf @ [seg] @ dropWhile (\<lambda>s. seg_sn s < seg_sn seg) buf)"

lemma takeWhile_split:
  assumes "\<forall>x \<in> set (take i xs). P x" and "\<forall>x \<in> set (drop i xs). \<not> P x"
  shows "takeWhile P xs = take i xs" and "dropWhile P xs = drop i xs"
proof -
  have d: "takeWhile P (drop i xs) = [] \<and> dropWhile P (drop i xs) = drop i xs"
    using assms(2) by (cases "drop i xs") auto
  have "takeWhile P (take i xs @ drop i xs) = take i xs @ takeWhile P (drop i xs)"
    using assms(1) by (intro takeWhile_append2) auto
  with d show "takeWhile P xs = take i xs" by simp
  have "dropWhile P (take i xs @ drop i xs) = dropWhile P (drop i xs)"
    using assms(1) by (intro dropWhile_append2) auto
  with d show "dropWhile P xs = drop i xs" by simp
qed

lemma set_rcv_insert:
  "set (rcv_insert seg buf) = (if seg_sn seg \<in> seg_sn ` set buf then set buf else insert seg (set buf))"
proof -
  have "set (takeWhile P buf) \<union> set (dropWhile P buf) = set buf" for P
    by (metis set_append takeWhile_dropWhile_id)
  then show ?thesis by (auto simp: rcv_insert_def)
qed

lemma sorted_rcv_insert:
  assumes "sorted_wrt (<) (map seg_sn buf)"
  shows "sorted_wrt (<) (map seg_sn (rcv_insert seg buf))"
proof (cases "seg_sn seg \<in> seg_sn ` set buf")
  case False
  let ?P = "\<lambda>s. seg_sn s < seg_sn seg"
  have tw: "sorted_wrt (<) (map seg_sn (takeWhile ?P buf))" "sorted_wrt (<) (map seg_sn (dropWhile ?P buf))"
    using assms by (metis map_append sorted_wrt_append takeWhile_dropWhile_id)+
  have dw: "seg_sn seg < seg_sn s" if mem: "s \<in> set (dropWhile ?P buf)" for s
  proof -
    obtain h t where ht: "dropWhile ?P buf = h # t" using mem by (cases "dropWhile ?P buf") auto
    then have "\<not> seg_sn h < seg_sn seg" by (metis dropWhile_eq_Cons_conv)
    moreover have "h \<in> set buf" using ht by (metis list.set_intros(1) set_dropWhileD)
    ultimately have "seg_sn seg < seg_sn h" using False by (metis image_eqI linorder_neqE)
    moreover have "seg_sn h \<le> seg_sn s"
      using tw(2) ht mem by (auto intro: less_imp_le)
    ultimately show ?thesis by (rule less_le_trans)
  qed
  have "seg_sn t < seg_sn seg" if "t \<in> set (takeWhile ?P buf)" for t
    using that by (rule set_takeWhileD [THEN conjunct2])
  with tw dw False show ?thesis
    by (auto simp: rcv_insert_def sorted_wrt_append intro: less_trans)
qed (simp add: rcv_insert_def assms)

section \<open>parseData and Receive keep the invariant\<close>

abbreviation in_window :: "u32 \<Rightarrow> RUDP \<Rightarrow> bool" where
  "in_window sn r \<equiv> rcvNxt r \<le> sn \<and> sn < rcvNxt r + rcvWnd r"

lemma parseData_eq:
  assumes "sorted_wrt (<) (map seg_sn (rcvBuf r))"
  shows "parseData seg r =
    (if \<not> in_window (seg_sn seg) r then Some (True, r)
     else if seg_sn seg \<notin> seg_sn ` set (rcvBuf r) \<and> mtuLimit < length (seg_data seg) then None
     else Some (seg_sn seg \<in> seg_sn ` set (rcvBuf r),
                move_to_queue (r\<lparr>rcvBuf := rcv_insert seg (rcvBuf r)\<rparr>)))"
proof (cases "in_window (seg_sn seg) r")
  case False
  then show ?thesis by (auto simp: parseData_def not_le not_less)
next
  case True
  obtain rep i where fi: "find_insert (rcvBuf r) (length (rcvBuf r)) (seg_sn seg) = (rep, i)"
    by fastforce
  have rep: "rep \<longleftrightarrow> seg_sn seg \<in> seg_sn ` set (rcvBuf r)"
    using find_insert_spec(1) [OF assms le_refl _ fi] by auto
  have ins: "insert_at (rcvBuf r) i seg = rcv_insert seg (rcvBuf r)" if "\<not> rep"
  proof -
    have "\<forall>s \<in> set (take i (rcvBuf r)). seg_sn s < seg_sn seg"
      and "\<forall>s \<in> set (drop i (rcvBuf r)). \<not> seg_sn s < seg_sn seg"
      using find_insert_spec(2) [OF assms le_refl _ fi that] by (auto simp: not_less less_imp_le)
    note split = takeWhile_split [OF this]
    then show ?thesis
      using rep that by (simp add: insert_at_def rcv_insert_def)
  qed
  have keep: "rcv_insert seg (rcvBuf r) = rcvBuf r" if rep
    using rep that by (simp add: rcv_insert_def)
  show ?thesis
    using True fi rep ins keep
    by (cases rep) (auto simp: parseData_def newSegment_def not_le not_less)
qed

lemma rcv_inv_insert:
  assumes "rcv_inv src r" and "in_window (seg_sn seg) r" and "pay seg = src (unat (seg_sn seg))"
  shows "rcv_inv src (r\<lparr>rcvBuf := rcv_insert seg (rcvBuf r)\<rparr>)"
  using assms less_word_max [of "seg_sn seg"]
  by (auto simp: rcv_inv_def set_rcv_insert sorted_rcv_insert)

lemma rcv_inv_parseData:
  assumes "rcv_inv src r" and "pay seg = src (unat (seg_sn seg))" and "parseData seg r = Some (rep, r')"
  shows "rcv_inv src r'"
proof -
  have "sorted_wrt (<) (map seg_sn (rcvBuf r))" using assms(1) by (simp add: rcv_inv_def)
  from parseData_eq [OF this, of seg] assms(3) consider "r' = r"
    | "in_window (seg_sn seg) r" "r' = move_to_queue (r\<lparr>rcvBuf := rcv_insert seg (rcvBuf r)\<rparr>)"
    by (auto split: if_splits)
  then show ?thesis
  proof cases
    case 2
    with assms(1,2) show ?thesis by (simp add: rcv_inv_move rcv_inv_insert)
  qed (use assms(1) in simp)
qed

lemma map_upt_drop: "map f [a..<b] = xs @ ys \<Longrightarrow> ys = map f [a + length xs..<b]"
  by (metis append_eq_conv_conj drop_map drop_upt length_drop)

lemma rcv_inv_dequeue:
  assumes "rcv_inv src r"
  shows "rcv_inv src (r\<lparr>rcvQueue := drop n (rcvQueue r)\<rparr>)"
proof (cases "n \<le> length (rcvQueue r)")
  case True
  with assms have "unat (rcvNxt r) - length (rcvQueue r) + n = unat (rcvNxt r) - (length (rcvQueue r) - n)"
    by (simp add: rcv_inv_def)
  then have "drop n (map src [unat (rcvNxt r) - length (rcvQueue r)..<unat (rcvNxt r)])
      = map src [unat (rcvNxt r) - (length (rcvQueue r) - n)..<unat (rcvNxt r)]"
    by (simp only: drop_map drop_upt)
  with assms show ?thesis by (auto simp: rcv_inv_def drop_map [symmetric])
next
  case False
  with assms show ?thesis by (simp add: rcv_inv_def)
qed

lemma rcv_inv_after_receive:
  "rcv_inv src r \<Longrightarrow> rcv_inv src (after_receive r)"
proof -
  assume "rcv_inv src r"
  then have "rcv_inv src (move_to_queue (r\<lparr>rcvQueue := drop (msg_len (rcvQueue r)) (rcvQueue r)\<rparr>))"
    by (intro rcv_inv_move rcv_inv_dequeue)
  then show ?thesis by (simp add: after_receive_def Let_def rcv_inv_def)
qed

lemma rcv_inv_Receive:
  "rcv_inv src r \<Longrightarrow> Receive buffer r = Some (n, buffer', r') \<Longrightarrow> rcv_inv src r'"
  by (auto simp: Receive_eq rcv_inv_after_receive split: if_splits)

lemma rcv_inv_NewRudp: "rcv_inv src (NewRudp conv)"
  by (simp add: rcv_inv_def NewRudp_def zero_RUDP_def)

end
