(* ===== verification/Inorder.thy ===== *)
theory Inorder
  imports Rudp_Reassembly
begin

text \<open>
  The contract between the receiving half and whoever reads from it, as a locale, and its
  interpretation on \<^verbatim>\<open>parseData\<close> and \<^verbatim>\<open>Receive\<close>. A run is any interleaving of arriving
  segments and read calls; the log is what the reads returned. The client's theorem: the
  log followed by what is still queued is the byte stream of the peer, cut off at the number
  received in sequence so far: in order, nothing twice, nothing missing.
\<close>

datatype ('m, 'c) rcv_event = Arrive 'm | Fetch 'c

fun rcv_run ::
  "('m \<Rightarrow> 's \<Rightarrow> 's option) \<Rightarrow> ('c \<Rightarrow> 's \<Rightarrow> ('b list \<times> 's) option) \<Rightarrow> ('m, 'c) rcv_event list \<Rightarrow>
   's \<times> 'b list \<Rightarrow> ('s \<times> 'b list) option" where
  "rcv_run arrive fetch [] (s, log) = Some (s, log)"
| "rcv_run arrive fetch (Arrive m # es) (s, log) =
    do { s \<leftarrow> arrive m s; rcv_run arrive fetch es (s, log) }"
| "rcv_run arrive fetch (Fetch c # es) (s, log) =
    do { (bs, s) \<leftarrow> fetch c s; rcv_run arrive fetch es (s, log @ bs) }"

definition src_bytes :: "(nat \<Rightarrow> 'b list) \<Rightarrow> nat \<Rightarrow> nat \<Rightarrow> 'b list" where
  "src_bytes bytes m n = concat (map bytes [m..<n])"

lemma src_bytes_append: "m \<le> n \<Longrightarrow> src_bytes bytes m n @ src_bytes bytes n (n + k) = src_bytes bytes m (n + k)"
  by (simp add: src_bytes_def upt_add_eq_append [symmetric] flip: concat_append map_append)

locale inorder_receiver =
  fixes arrive :: "'m \<Rightarrow> 's \<Rightarrow> 's option"
    and fetch :: "'c \<Rightarrow> 's \<Rightarrow> ('b list \<times> 's) option"
    and from_src :: "'p \<Rightarrow> 'm \<Rightarrow> bool" \<comment> \<open>the segment carries what the peer numbered\<close>
    and bytes :: "'p \<Rightarrow> nat \<Rightarrow> 'b list"
    and next_sn :: "'s \<Rightarrow> nat"
    and queued :: "'s \<Rightarrow> 'b list"
    and inv :: "'p \<Rightarrow> 's \<Rightarrow> bool"
  assumes arrive_inv: "inv p s \<Longrightarrow> from_src p m \<Longrightarrow> arrive m s = Some s' \<Longrightarrow> inv p s'"
    and arrive_queued: "inv p s \<Longrightarrow> from_src p m \<Longrightarrow> arrive m s = Some s' \<Longrightarrow>
      next_sn s \<le> next_sn s' \<and> queued s' = queued s @ src_bytes (bytes p) (next_sn s) (next_sn s')"
    and fetch_inv: "inv p s \<Longrightarrow> fetch c s = Some (bs, s') \<Longrightarrow> inv p s'"
    and fetch_queued: "inv p s \<Longrightarrow> fetch c s = Some (bs, s') \<Longrightarrow>
      next_sn s \<le> next_sn s' \<and> bs @ queued s' = queued s @ src_bytes (bytes p) (next_sn s) (next_sn s')"
begin

lemma run_stream:
  assumes "inv p s" and "\<forall>m. Arrive m \<in> set es \<longrightarrow> from_src p m"
    and "rcv_run arrive fetch es (s, log) = Some (s', log')"
  shows "inv p s' \<and> next_sn s \<le> next_sn s' \<and>
    log' @ queued s' = log @ queued s @ src_bytes (bytes p) (next_sn s) (next_sn s')"
  using assms
proof (induction es arbitrary: s log)
  case Nil
  then show ?case by (simp add: src_bytes_def)
next
  case (Cons e es)
  obtain t l where step: "inv p t" "next_sn s \<le> next_sn t" "rcv_run arrive fetch es (t, l) = Some (s', log')"
      "l @ queued t = log @ queued s @ src_bytes (bytes p) (next_sn s) (next_sn t)"
  proof (cases e)
    case (Arrive m)
    then have src: "from_src p m" using Cons.prems(2) by simp
    from Arrive Cons.prems(3) obtain t where t: "arrive m s = Some t" "rcv_run arrive fetch es (t, log) = Some (s', log')"
      by (auto simp: bind_eq_Some_conv)
    with arrive_inv [OF Cons.prems(1) src] arrive_queued [OF Cons.prems(1) src] show thesis
      by (intro that [of t log]) auto
  next
    case (Fetch c)
    with Cons.prems(3) obtain bs t where t: "fetch c s = Some (bs, t)" "rcv_run arrive fetch es (t, log @ bs) = Some (s', log')"
      by (auto simp: bind_eq_Some_conv)
    with fetch_inv [OF Cons.prems(1)] fetch_queued [OF Cons.prems(1)] show thesis
      by (intro that [of t "log @ bs"]) auto
  qed
  have "\<forall>m. Arrive m \<in> set es \<longrightarrow> from_src p m" using Cons.prems(2) by simp
  from Cons.IH [OF step(1) this step(3)]
  have IH: "inv p s' \<and> next_sn t \<le> next_sn s' \<and>
      log' @ queued s' = l @ queued t @ src_bytes (bytes p) (next_sn t) (next_sn s')" .
  moreover have "src_bytes (bytes p) (next_sn s) (next_sn t) @ src_bytes (bytes p) (next_sn t) (next_sn s')
      = src_bytes (bytes p) (next_sn s) (next_sn s')"
    using step(2) IH src_bytes_append [of "next_sn s" "next_sn t" "bytes p" "next_sn s' - next_sn t"] by simp
  ultimately show ?case using step(2,4) by (metis append.assoc le_trans)
qed

lemma run_from_empty:
  assumes "inv p s" "queued s = []" "next_sn s = 0"
    and "\<forall>m. Arrive m \<in> set es \<longrightarrow> from_src p m"
    and "rcv_run arrive fetch es (s, []) = Some (s', log)"
  shows "log @ queued s' = src_bytes (bytes p) 0 (next_sn s')"
  using run_stream [OF assms(1,4,5)] assms(2,3) by simp

end

text \<open>A receiver that also bounds what it stores.\<close>

locale bounded_receiver = inorder_receiver +
  fixes small :: "'s \<Rightarrow> bool"
  assumes arrive_small: "inv p s \<Longrightarrow> from_src p m \<Longrightarrow> small s \<Longrightarrow> arrive m s = Some s' \<Longrightarrow> small s'"
    and fetch_small: "inv p s \<Longrightarrow> small s \<Longrightarrow> fetch c s = Some (bs, s') \<Longrightarrow> small s'"
begin

lemma run_small:
  "inv p s \<Longrightarrow> small s \<Longrightarrow> \<forall>m. Arrive m \<in> set es \<longrightarrow> from_src p m \<Longrightarrow>
   rcv_run arrive fetch es (s, log) = Some (s', log') \<Longrightarrow> small s'"
proof (induction es arbitrary: s log)
  case (Cons e es)
  show ?case
  proof (cases e)
    case (Arrive m)
    then have src: "from_src p m" using Cons.prems(3) by simp
    from Arrive Cons.prems(4) obtain t where "arrive m s = Some t" "rcv_run arrive fetch es (t, log) = Some (s', log')"
      by (auto simp: bind_eq_Some_conv)
    with Cons.IH [of t log] Cons.prems(1-3) src show ?thesis
      by (simp add: arrive_inv [OF Cons.prems(1) src] arrive_small [OF Cons.prems(1) src Cons.prems(2)])
  next
    case (Fetch c)
    with Cons.prems(4) obtain bs t where "fetch c s = Some (bs, t)" "rcv_run arrive fetch es (t, log @ bs) = Some (s', log')"
      by (auto simp: bind_eq_Some_conv)
    with Cons.IH [of t "log @ bs"] Cons.prems(1-3) show ?thesis
      by (simp add: fetch_inv [OF Cons.prems(1)] fetch_small [OF Cons.prems(1,2)])
  qed
qed simp

end

section \<open>parseData and Receive meet the contract\<close>

definition arrive_seg :: "segment \<Rightarrow> RUDP \<Rightarrow> RUDP option" where
  "arrive_seg seg r = map_option snd (parseData seg r)"

text \<open>A read with a buffer: the bytes the caller gets are the first \<^verbatim>\<open>n\<close> of the buffer.\<close>

definition fetch_bytes :: "u8 list \<Rightarrow> RUDP \<Rightarrow> (u8 list \<times> RUDP) option" where
  "fetch_bytes buffer r =
    do { (n, buffer, r) \<leftarrow> Receive buffer r; Some (take (nat n) buffer, r) }"

lemma fetch_bytes_eq:
  "fetch_bytes c r =
    (if peekSize r < 0 \<or> int (length c) < peekSize r then Some ([], r)
     else Some (concat (map seg_data (take (msg_len (rcvQueue r)) (rcvQueue r))), after_receive r))"
proof (cases "peekSize r < 0 \<or> int (length c) < peekSize r")
  case True
  then show ?thesis by (auto simp: fetch_bytes_def Receive_eq)
next
  case False
  define A where "A = concat (map seg_data (take (msg_len (rcvQueue r)) (rcvQueue r)))"
  have "peekSize r = int (length A)"
    using False peekSize_nonneg [of r] by (simp add: A_def flip: peek_loop_msg)
  with False show ?thesis
    by (simp add: fetch_bytes_def Receive_eq flip: A_def)
qed

lemma concat_pay: "map pay q = map src ns \<Longrightarrow> concat (map seg_data q) = concat (map (\<lambda>n. snd (src n)) ns)"
proof -
  assume "map pay q = map src ns"
  then have "map snd (map pay q) = map snd (map src ns)" by simp
  moreover have "snd \<circ> pay = seg_data" by (auto simp: pay_def)
  ultimately have "map seg_data q = map (\<lambda>n. snd (src n)) ns" by (simp add: comp_def)
  then show ?thesis by simp
qed

lemma move_to_queue_bytes:
  assumes "rcv_inv src r"
  shows "unat (rcvNxt r) \<le> unat (rcvNxt (move_to_queue r)) \<and>
    concat (map seg_data (rcvQueue (move_to_queue r))) =
      concat (map seg_data (rcvQueue r))
        @ src_bytes (\<lambda>n. snd (src n)) (unat (rcvNxt r)) (unat (rcvNxt (move_to_queue r)))"
proof -
  obtain k where "move_to_queue r = r\<lparr>rcvNxt := rcvNxt r + word_of_nat k,
       rcvQueue := rcvQueue r @ take k (rcvBuf r), rcvBuf := drop k (rcvBuf r)\<rparr>"
      "unat (rcvNxt r + word_of_nat k) = unat (rcvNxt r) + k"
      "map pay (take k (rcvBuf r)) = map src [unat (rcvNxt r)..<unat (rcvNxt r) + k]"
    using move_to_queue_inv [OF assms] by metis
  then show ?thesis by (simp add: src_bytes_def concat_pay)
qed

interpretation rudp_rcv: inorder_receiver
  arrive_seg fetch_bytes "\<lambda>src seg. pay seg = src (unat (seg_sn seg))" "\<lambda>src n. snd (src n)"
  "\<lambda>r. unat (rcvNxt r)" "\<lambda>r. concat (map seg_data (rcvQueue r))" rcv_inv
proof
  fix src s m s'
  assume inv: "rcv_inv src s" and src: "pay m = src (unat (seg_sn m))" and step: "arrive_seg m s = Some s'"
  then obtain rep where pd: "parseData m s = Some (rep, s')" by (auto simp: arrive_seg_def)
  with inv src show "rcv_inv src s'" by (blast intro: rcv_inv_parseData)
  have "sorted_wrt (<) (map seg_sn (rcvBuf s))" using inv by (simp add: rcv_inv_def)
  from parseData_eq [OF this, of m] pd consider "s' = s"
    | "in_window (seg_sn m) s" "s' = move_to_queue (s\<lparr>rcvBuf := rcv_insert m (rcvBuf s)\<rparr>)"
    by (auto split: if_splits)
  then show "unat (rcvNxt s) \<le> unat (rcvNxt s') \<and> concat (map seg_data (rcvQueue s')) =
      concat (map seg_data (rcvQueue s)) @ src_bytes (\<lambda>n. snd (src n)) (unat (rcvNxt s)) (unat (rcvNxt s'))"
  proof cases
    case 2
    with move_to_queue_bytes [OF rcv_inv_insert [OF inv 2(1) src]] show ?thesis by simp
  qed (simp add: src_bytes_def)
next
  fix src s c bs s'
  assume inv: "rcv_inv src s" and step: "fetch_bytes c s = Some (bs, s')"
  then show "rcv_inv src s'"
    by (auto simp: fetch_bytes_def bind_eq_Some_conv intro: rcv_inv_Receive)
  let ?q = "rcvQueue s" and ?s = "s\<lparr>rcvQueue := drop (msg_len (rcvQueue s)) (rcvQueue s)\<rparr>"
  have "(s' = s \<and> bs = []) \<or> (bs = concat (map seg_data (take (msg_len ?q) ?q)) \<and> s' = after_receive s)"
  proof (cases "peekSize s < 0 \<or> int (length c) < peekSize s")
    case True
    then show ?thesis using step by (simp add: fetch_bytes_eq)
  next
    case False
    then show ?thesis using step by (simp add: fetch_bytes_eq)
  qed
  then consider "s' = s" "bs = []"
    | "bs = concat (map seg_data (take (msg_len ?q) ?q))" "s' = after_receive s"
    by blast
  then show "unat (rcvNxt s) \<le> unat (rcvNxt s') \<and> bs @ concat (map seg_data (rcvQueue s')) =
      concat (map seg_data ?q) @ src_bytes (\<lambda>n. snd (src n)) (unat (rcvNxt s)) (unat (rcvNxt s'))"
  proof cases
    case 2
    then have s': "rcvNxt s' = rcvNxt (move_to_queue ?s)" "rcvQueue s' = rcvQueue (move_to_queue ?s)"
      by (simp_all add: after_receive_def Let_def)
    have split: "concat (map seg_data ?q) = bs @ concat (map seg_data (drop (msg_len ?q) ?q))"
      unfolding 2(1) by (metis append_take_drop_id concat_append map_append)
    have "rcv_inv src ?s" by (rule rcv_inv_dequeue [OF inv])
    from move_to_queue_bytes [OF this] show ?thesis
      unfolding s' split by simp
  qed (simp add: src_bytes_def)
qed

end
