(* ===== verification/Rudp_Send.thy ===== *)
theory Rudp_Send
  imports Rudp_State
begin

text \<open>
  \<^verbatim>\<open>Send\<close>: cutting the user's bytes into segments on \<^verbatim>\<open>sndQueue\<close>. In message mode the
  fragments of one call are numbered backwards, the last one 0; in stream mode the last
  queued segment is filled up first and every segment has number 0.
\<close>

text \<open>The stream-mode prologue: append what fits to the last queued segment.\<close>

definition send_fill :: "u8 list \<Rightarrow> RUDP \<Rightarrow> u8 list \<times> RUDP" where
  "send_fill buffer r =
    (let n = length (sndQueue r)
     in if n > 0 then
          let lastSegment = sndQueue r ! (n - 1)
          in if length (seg_data lastSegment) < unat (mss r) then
               let capacity = unat (mss r) - length (seg_data lastSegment);
                   extend = (if length buffer < capacity then length buffer else capacity);
                   lastSegment = lastSegment\<lparr>seg_data := seg_data lastSegment @ take extend buffer\<rparr>
               in (drop extend buffer, r\<lparr>sndQueue := (sndQueue r)[n - 1 := lastSegment]\<rparr>)
             else (buffer, r)
        else (buffer, r))"

text \<open>
  The segmenting loop; the first argument is \<^verbatim>\<open>count - i\<close>, the number of iterations left, so
  \<^verbatim>\<open>count - i - 1\<close> is its predecessor.
\<close>

fun send_loop :: "nat \<Rightarrow> u8 list \<Rightarrow> RUDP \<Rightarrow> RUDP option" where
  "send_loop 0 buffer r = Some r"
| "send_loop (Suc left) buffer r =
    do {
      let sz = (if length buffer > unat (mss r) then unat (mss r) else length buffer);
      seg \<leftarrow> newSegment sz;
      let seg = seg\<lparr>seg_data := copy_into (seg_data seg) (take sz buffer)\<rparr>;
      let buffer = drop sz buffer;
      let seg = seg\<lparr>seg_frg := (if stream r = 0 then word_of_nat left else 0)\<rparr>;
      send_loop left buffer (r\<lparr>sndQueue := sndQueue r @ [seg]\<rparr>)
    }"

text \<open>The number of new segments; the division panics when \<^verbatim>\<open>mss\<close> is 0.\<close>

definition send_count :: "nat \<Rightarrow> u32 \<Rightarrow> nat option" where
  "send_count n m =
    (if n \<le> unat m then Some 1
     else if m = 0 then None
     else Some ((n + unat m - 1) div unat m))"

definition Send :: "u8 list \<Rightarrow> RUDP \<Rightarrow> (int \<times> RUDP) option" where
  "Send buffer r =
    (if length buffer = 0 then Some (-1, r)
     else
       let (buffer, r) = (if stream r \<noteq> 0 then send_fill buffer r else (buffer, r))
       in if stream r \<noteq> 0 \<and> length buffer = 0 then Some (0, r)
          else do {
            count \<leftarrow> send_count (length buffer) (mss r);
            if count > 255 then Some (-2, r)
            else if count = 0 then Some (1, r)
            else do {
              r \<leftarrow> send_loop count buffer r;
              Some (0, r)
            }
          })"

section \<open>Specification: cutting a list into pieces\<close>

fun chunks :: "nat \<Rightarrow> nat \<Rightarrow> 'a list \<Rightarrow> 'a list list" where
  "chunks 0 m xs = []"
| "chunks (Suc k) m xs = take m xs # chunks k m (drop m xs)"

definition fragment :: "u8 \<Rightarrow> u8 list \<Rightarrow> segment" where
  "fragment frg d = zero_segment\<lparr>seg_frg := frg, seg_data := d\<rparr>"

lemma fragment_simps [simp]:
  "seg_data (fragment frg d) = d" "seg_frg (fragment frg d) = frg"
  by (simp_all add: fragment_def)

lemma length_chunks [simp]: "length (chunks k m xs) = k"
  by (induction k arbitrary: xs) auto

lemma concat_chunks: "concat (chunks k m xs) = take (k * m) xs"
  by (induction k arbitrary: xs) (auto simp: take_add)

lemma chunks_bounds:
  "0 < m \<Longrightarrow> (k - 1) * m < length xs \<Longrightarrow> c \<in> set (chunks k m xs) \<Longrightarrow> 0 < length c \<and> length c \<le> m"
proof (induction k arbitrary: xs)
  case (Suc k)
  show ?case
  proof (cases k)
    case 0
    with Suc.prems show ?thesis by auto
  next
    case (Suc j)
    from Suc.prems(2) Suc have "(k - 1) * m < length (drop m xs)" by simp
    note IH = Suc.IH [OF Suc.prems(1) this]
    from Suc.prems(3) consider "c = take m xs" | "c \<in> set (chunks k m (drop m xs))" by auto
    then show ?thesis
    proof cases
      case 1
      with Suc.prems(1,2) show ?thesis by auto
    next
      case 2
      with IH show ?thesis by blast
    qed
  qed
qed simp

lemma send_count_Some:
  assumes "0 < n" "send_count n m = Some c"
  shows "0 < c" and "(c - 1) * unat m < n" and "0 < unat m \<Longrightarrow> n \<le> c * unat m"
proof -
  have c: "c = (n + unat m - 1) div unat m" if "unat m < n"
    using assms that by (auto simp: send_count_def split: if_splits)
  have m: "0 < unat m" if "unat m < n"
    using assms that by (auto simp: send_count_def unat_gt_0 split: if_splits)
  have c1: "c = 1" if "\<not> unat m < n"
    using assms that by (simp add: send_count_def)
  have sum: "c * unat m + (n + unat m - 1) mod unat m = n + unat m - 1" if "unat m < n"
    using c [OF that] by simp
  have md: "(n + unat m - 1) mod unat m < unat m" if "unat m < n"
    using m [OF that] by simp
  show "0 < c"
    using c1 c m by (cases "unat m < n") (auto simp: div_greater_zero_iff)
  show "(c - 1) * unat m < n"
    using assms(1) c1 sum md m by (cases "unat m < n") (auto simp: diff_mult_distrib)
  show "n \<le> c * unat m" if "0 < unat m"
  proof (cases "unat m < n")
    case True
    with sum md show ?thesis by linarith
  next
    case False
    with c1 show ?thesis by simp
  qed
qed

text \<open>The loop appends the pieces, numbered down to 0 in message mode.\<close>

definition numbered :: "i32 \<Rightarrow> u8 list list \<Rightarrow> segment list" where
  "numbered strm cs = map (\<lambda>(i, c). fragment (if strm = 0 then word_of_nat i else 0) c)
     (zip (rev [0..<length cs]) cs)"

lemma numbered_Nil [simp]: "numbered strm [] = []"
  by (simp add: numbered_def)

lemma numbered_Cons:
  "numbered strm (c # cs) = fragment (if strm = 0 then word_of_nat (length cs) else 0) c # numbered strm cs"
  by (simp add: numbered_def)

lemma length_numbered [simp]: "length (numbered strm cs) = length cs"
  by (induction cs) (auto simp: numbered_Cons)

lemma map_seg_data_numbered [simp]: "map seg_data (numbered strm cs) = cs"
  by (induction cs) (auto simp: numbered_Cons)

lemma send_loop_Suc:
  "unat (mss r) \<le> mtuLimit \<Longrightarrow>
   send_loop (Suc left) buffer r =
     send_loop left (drop (unat (mss r)) buffer)
       (r\<lparr>sndQueue := sndQueue r @
          [fragment (if stream r = 0 then word_of_nat left else 0) (take (unat (mss r)) buffer)]\<rparr>)"
  by (cases "length buffer > unat (mss r)")
     (simp_all add: newSegment_def copy_into_def fragment_def zero_segment_def Let_def)

lemma send_loop_eq:
  "unat (mss r) \<le> mtuLimit \<Longrightarrow>
   send_loop k buffer r =
     Some (r\<lparr>sndQueue := sndQueue r @ numbered (stream r) (chunks k (unat (mss r)) buffer)\<rparr>)"
  by (induction k arbitrary: buffer r) (simp_all add: send_loop_Suc numbered_Cons del: send_loop.simps(2))

section \<open>What Send does\<close>

definition queue_bytes :: "segment list \<Rightarrow> u8 list" where
  "queue_bytes q = concat (map seg_data q)"

lemma queue_bytes_simps [simp]:
  "queue_bytes [] = []"
  "queue_bytes (s # q) = seg_data s @ queue_bytes q"
  "queue_bytes (p @ q) = queue_bytes p @ queue_bytes q"
  by (simp_all add: queue_bytes_def)

lemma queue_bytes_numbered [simp]: "queue_bytes (numbered strm cs) = concat cs"
  by (simp add: queue_bytes_def)

lemma send_count_le:
  assumes "0 < unat m" "0 < n"
  shows "\<exists>c. send_count n m = Some c \<and> (c \<le> 255 \<longleftrightarrow> n \<le> 255 * unat m)"
proof -
  obtain c where c: "send_count n m = Some c"
    using assms by (cases "send_count n m") (auto simp: send_count_def unat_gt_0 split: if_splits)
  note b = send_count_Some [OF assms(2) c]
  have "c \<le> 255 \<longleftrightarrow> n \<le> 255 * unat m"
  proof
    assume "c \<le> 255"
    then have "c * unat m \<le> 255 * unat m" by (rule mult_le_mono1)
    with b(3) [OF assms(1)] show "n \<le> 255 * unat m" by linarith
  next
    assume n: "n \<le> 255 * unat m"
    show "c \<le> 255"
    proof (rule ccontr)
      assume "\<not> c \<le> 255"
      then have "255 * unat m \<le> (c - 1) * unat m" by (intro mult_le_mono1) simp
      with b(2) n show False by linarith
    qed
  qed
  with c show ?thesis by blast
qed

lemma map_seg_frg_numbered:
  "length cs \<le> 256 \<Longrightarrow> map (\<lambda>s. unat (seg_frg s)) (numbered 0 cs) = rev [0..<length cs]"
  by (induction cs) (auto simp: numbered_Cons unat_of_nat)

lemma set_numbered_data: "s \<in> set (numbered strm cs) \<Longrightarrow> seg_data s \<in> set cs"
  by (metis image_eqI image_set map_seg_data_numbered)

lemma numbered_stream_frg: "strm \<noteq> 0 \<Longrightarrow> s \<in> set (numbered strm cs) \<Longrightarrow> seg_frg s = 0"
  by (induction cs) (auto simp: numbered_Cons)

lemma numbered_fragment: "s \<in> set (numbered strm cs) \<Longrightarrow> s = fragment (seg_frg s) (seg_data s)"
  by (induction cs) (auto simp: numbered_Cons)

text \<open>The part of \<^verbatim>\<open>Send\<close> after the stream-mode prologue, on a non-empty rest.\<close>

definition send_rest :: "u8 list \<Rightarrow> RUDP \<Rightarrow> (int \<times> RUDP) option" where
  "send_rest buffer r =
    do {
      count \<leftarrow> send_count (length buffer) (mss r);
      if count > 255 then Some (-2, r)
      else if count = 0 then Some (1, r)
      else do { r \<leftarrow> send_loop count buffer r; Some (0, r) }
    }"

lemma Send_unfold:
  "Send buffer r =
    (if buffer = [] then Some (-1, r)
     else if stream r = 0 then send_rest buffer r
     else case send_fill buffer r of (b, r') \<Rightarrow> if b = [] \<and> stream r' \<noteq> 0 then Some (0, r') else send_rest b r')"
  by (simp add: Send_def send_rest_def conj_commute split: prod.split)

lemma send_rest_ok:
  assumes "0 < unat (mss r)" "unat (mss r) \<le> mtuLimit" "buffer \<noteq> []" "length buffer \<le> 255 * unat (mss r)"
  shows "\<exists>cs. send_rest buffer r = Some (0, r\<lparr>sndQueue := sndQueue r @ numbered (stream r) cs\<rparr>)
    \<and> concat cs = buffer \<and> length cs \<le> 255 \<and> (\<forall>c \<in> set cs. c \<noteq> [] \<and> length c \<le> unat (mss r))"
proof -
  have len: "0 < length buffer" using assms(3) by simp
  obtain c where c: "send_count (length buffer) (mss r) = Some c" "c \<le> 255"
    using send_count_le [OF assms(1) len] assms(4) by blast
  note b = send_count_Some [OF len c(1)]
  have "concat (chunks c (unat (mss r)) buffer) = buffer"
    using b(3) assms(1) by (simp add: concat_chunks)
  moreover have "\<forall>d \<in> set (chunks c (unat (mss r)) buffer). d \<noteq> [] \<and> length d \<le> unat (mss r)"
    using chunks_bounds [OF assms(1) b(2)] by auto
  ultimately show ?thesis
    using c b(1) assms(2) by (intro exI [of _ "chunks c (unat (mss r)) buffer"])
      (simp add: send_rest_def send_loop_eq)
qed

lemma send_rest_too_long:
  assumes "0 < unat (mss r)" "255 * unat (mss r) < length buffer"
  shows "send_rest buffer r = Some (-2, r)"
proof -
  have len: "0 < length buffer" using assms by linarith
  obtain c where "send_count (length buffer) (mss r) = Some c" "\<not> c \<le> 255"
    using send_count_le [OF assms(1) len] assms(2) by (metis not_le)
  then show ?thesis by (simp add: send_rest_def)
qed

lemma send_fill_bytes:
  assumes "send_fill buffer r = (b, r')"
  shows "queue_bytes (sndQueue r') @ b = queue_bytes (sndQueue r) @ buffer"
    and "\<exists>q. r' = r\<lparr>sndQueue := q\<rparr>"
    and "length (sndQueue r') = length (sndQueue r)"
proof -
  have upd: "queue_bytes (q[length q - Suc 0 := l]) = queue_bytes (butlast q) @ seg_data l"
    if "q \<noteq> []" for q l
    using that by (cases q rule: rev_cases) auto
  have last: "queue_bytes q = queue_bytes (butlast q) @ seg_data (q ! (length q - Suc 0))"
    if "q \<noteq> []" for q
    using that by (cases q rule: rev_cases) auto
  show "queue_bytes (sndQueue r') @ b = queue_bytes (sndQueue r) @ buffer"
    using assms last [of "sndQueue r"]
    by (auto simp: send_fill_def Let_def upd split: if_splits)
  show "\<exists>q. r' = r\<lparr>sndQueue := q\<rparr>"
    using assms by (auto simp: send_fill_def Let_def split: if_splits intro: exI [of _ "sndQueue r"])
  show "length (sndQueue r') = length (sndQueue r)"
    using assms by (auto simp: send_fill_def Let_def split: if_splits)
qed

section \<open>Properties\<close>

text \<open>
  In message mode \<^verbatim>\<open>Send\<close> of at most 255 payloads' worth of bytes returns 0 and
  appends to \<^verbatim>\<open>sndQueue\<close> fragments whose data, joined, is the buffer, each non-empty and at
  most \<^verbatim>\<open>mss\<close> long, numbered \<open>n - 1\<close> down to 0; nothing else of the state changes.
\<close>

lemma Send_message_fragments:
  assumes "stream r = 0" and "0 < unat (mss r)" and "unat (mss r) \<le> mtuLimit"
    and "buffer \<noteq> []" and "length buffer \<le> 255 * unat (mss r)"
  shows "\<exists>fs. Send buffer r = Some (0, r\<lparr>sndQueue := sndQueue r @ fs\<rparr>)
    \<and> concat (map seg_data fs) = buffer
    \<and> map (\<lambda>f. unat (seg_frg f)) fs = rev [0..<length fs]
    \<and> list_all (\<lambda>f. seg_data f \<noteq> [] \<and> length (seg_data f) \<le> unat (mss r)) fs"
proof -
  obtain cs where cs: "send_rest buffer r = Some (0, r\<lparr>sndQueue := sndQueue r @ numbered (stream r) cs\<rparr>)"
      "concat cs = buffer" "length cs \<le> 255" "\<forall>c \<in> set cs. c \<noteq> [] \<and> length c \<le> unat (mss r)"
    using send_rest_ok [OF assms(2-5)] by blast
  then show ?thesis
    using assms(1,4) by (intro exI [of _ "numbered 0 cs"])
      (auto simp: Send_unfold map_seg_frg_numbered list_all_iff dest: set_numbered_data)
qed

lemma Send_message_fragments_witness:
  "\<exists>fs. Send [1, 2, 3, 4, 5] ((NewRudp 7)\<lparr>mss := 2\<rparr>)
      = Some (0, (NewRudp 7)\<lparr>mss := 2, sndQueue := fs\<rparr>)
    \<and> concat (map seg_data fs) = [1, 2, 3, 4, 5]"
  using Send_message_fragments [of "(NewRudp 7)\<lparr>mss := 2\<rparr>" "[1, 2, 3, 4, 5]"]
  by (auto simp: NewRudp_def zero_RUDP_def)

text \<open>
  Claim C32. In stream mode a \<^verbatim>\<open>Send\<close> that returns 0 appends the buffer to the queued
  byte stream, whatever part of it goes into the last queued segment, and every segment it
  adds has fragment number 0.
\<close>

theorem Send_stream_appends:
  assumes "stream r \<noteq> 0" and "0 < unat (mss r)" and "unat (mss r) \<le> mtuLimit"
    and "buffer \<noteq> []" and "Send buffer r = Some (0, r')"
  shows "queue_bytes (sndQueue r') = queue_bytes (sndQueue r) @ buffer
    \<and> list_all (\<lambda>s. seg_frg s = 0) (drop (length (sndQueue r)) (sndQueue r'))"
proof -
  obtain b rf where fill: "send_fill buffer r = (b, rf)" by fastforce
  note bytes = send_fill_bytes [OF fill]
  obtain q where rf: "rf = r\<lparr>sndQueue := q\<rparr>" using bytes(2) by blast
  show ?thesis
  proof (cases "b = []")
    case True
    with assms fill rf bytes show ?thesis by (auto simp: Send_unfold)
  next
    case False
    have rest: "send_rest b rf = Some (0, r')"
      using assms fill rf False by (auto simp: Send_unfold)
    then have "length b \<le> 255 * unat (mss rf)"
      using send_rest_too_long [of rf b] rf assms(2) by (cases "length b \<le> 255 * unat (mss rf)") auto
    then obtain cs where "r' = rf\<lparr>sndQueue := sndQueue rf @ numbered (stream rf) cs\<rparr>" "concat cs = b"
      using send_rest_ok [of rf b] rest rf assms(2,3) False by auto
    with rf bytes assms(1) show ?thesis
      by (auto simp: list_all_iff dest: numbered_stream_frg)
  qed
qed

theorem Send_stream_appends_witness:
  "\<exists>r'. Send [3, 4, 5] ((NewRudp 7)\<lparr>stream := 1, mss := 3, sndQueue := [fragment 0 [1, 2]]\<rparr>) = Some (0, r')
     \<and> queue_bytes (sndQueue r') = [1, 2, 3, 4, 5]"
proof -
  let ?r = "(NewRudp 7)\<lparr>stream := 1, mss := 3, sndQueue := [fragment 0 [1, 2]]\<rparr>"
  have "\<exists>r'. Send [3, 4, 5] ?r = Some (0, r')"
    by (simp add: Send_unfold send_fill_def send_rest_def send_count_def newSegment_def fragment_def
        NewRudp_def zero_RUDP_def zero_segment_def)
  then obtain r' where "Send [3, 4, 5] ?r = Some (0, r')" ..
  with Send_stream_appends [of ?r "[3, 4, 5]" r'] show ?thesis
    by (simp add: NewRudp_def zero_RUDP_def)
qed

text \<open>
  With a payload size between 1 and the pooled buffers' capacity \<^verbatim>\<open>Send\<close> never
  panics and returns one of \<open>-1\<close>, \<open>-2\<close>, \<open>0\<close> (the result 1 of the code cannot happen):
  \<open>-1\<close> exactly for an empty buffer, and in message mode \<open>-2\<close> exactly for more than
  \<open>255 * mss\<close> bytes; in message mode a failing call changes nothing.
\<close>

lemma Send_results:
  assumes "0 < unat (mss r)" and "unat (mss r) \<le> mtuLimit"
  shows "\<exists>c r'. Send buffer r = Some (c, r') \<and> c \<in> {-2, -1, 0} \<and> (c = -1 \<longleftrightarrow> buffer = [])
    \<and> (stream r = 0 \<longrightarrow> (c = -2 \<longleftrightarrow> 255 * unat (mss r) < length buffer) \<and> (c \<noteq> 0 \<longrightarrow> r' = r))"
proof -
  have rest: "\<exists>c r'. send_rest b s = Some (c, r') \<and> c \<in> {-2, 0} \<and>
      (c = -2 \<longleftrightarrow> 255 * unat (mss s) < length b) \<and> (c \<noteq> 0 \<longrightarrow> r' = s)"
    if "b \<noteq> []" "mss s = mss r" for b s
    using send_rest_ok [of s b] send_rest_too_long [of s b] that assms
    by (cases "length b \<le> 255 * unat (mss s)") auto
  obtain b rf where fill: "send_fill buffer r = (b, rf)" by fastforce
  have rf: "mss rf = mss r" "stream rf = stream r" using send_fill_bytes(2) [OF fill] by auto
  show ?thesis
  proof (cases "buffer = [] \<or> stream r = 0")
    case True
    then show ?thesis using rest [of buffer r] by (auto simp: Send_unfold)
  next
    case False
    with fill rf rest [of b rf] show ?thesis by (auto simp: Send_unfold)
  qed
qed

lemma Send_results_witness:
  "\<exists>r'. Send [] (NewRudp 7) = Some (-1, r')"
proof -
  obtain c r' where "Send [] (NewRudp 7) = Some (c, r')" "c = -1"
    using Send_results [of "NewRudp 7" "[]"] by (auto simp: NewRudp_def zero_RUDP_def)
  then show ?thesis by blast
qed

text \<open>
  In stream mode a refused \<^verbatim>\<open>Send\<close> is not atomic: when the rest is too long, the
  call returns \<open>-2\<close> although the bytes that filled up the last segment stay queued, so a
  caller that retries the buffer sends them twice.
\<close>

lemma Send_stream_refusal_keeps_prefix:
  assumes "stream r \<noteq> 0" and "sndQueue r = q @ [l]" and "length (seg_data l) < unat (mss r)"
    and "255 * unat (mss r) + (unat (mss r) - length (seg_data l)) < length buffer"
  shows "\<exists>r'. Send buffer r = Some (-2, r')
    \<and> queue_bytes (sndQueue r') = queue_bytes (sndQueue r) @ take (unat (mss r) - length (seg_data l)) buffer
    \<and> sndQueue r' \<noteq> sndQueue r"
proof -
  let ?cap = "unat (mss r) - length (seg_data l)"
  let ?rf = "r\<lparr>sndQueue := q @ [l\<lparr>seg_data := seg_data l @ take ?cap buffer\<rparr>]\<rparr>"
  have long: "?cap \<le> length buffer" "buffer \<noteq> []" "take ?cap buffer \<noteq> []"
    using assms(3,4) by auto
  have "send_fill buffer r = (drop ?cap buffer, ?rf)"
    using assms(2,3) long by (simp add: send_fill_def Let_def)
  moreover have "255 * unat (mss ?rf) < length (drop ?cap buffer)"
    using assms(3,4) by simp
  moreover have "0 < unat (mss ?rf)" using assms(3) by simp
  ultimately have "Send buffer r = Some (-2, ?rf)"
    using assms(1) long send_rest_too_long [of ?rf "drop ?cap buffer"] by (auto simp: Send_unfold)
  moreover have "l\<lparr>seg_data := seg_data l @ take ?cap buffer\<rparr> \<noteq> l"
    using long(3) by (metis append_self_conv segment.select_convs(13) segment.surjective segment.update_convs(13))
  ultimately show ?thesis
    using assms(2) by auto
qed

lemma Send_stream_refusal_keeps_prefix_witness:
  "\<exists>r'. Send (replicate 512 9) ((NewRudp 7)\<lparr>stream := 1, mss := 2, sndQueue := [fragment 0 [1]]\<rparr>) = Some (-2, r')
     \<and> queue_bytes (sndQueue r') = [1, 9]"
  using Send_stream_refusal_keeps_prefix
    [of "(NewRudp 7)\<lparr>stream := 1, mss := 2, sndQueue := [fragment 0 [1]]\<rparr>" "[]" "fragment 0 [1]" "replicate 512 9"]
  by auto

end
