(* ===== verification/Rudp_Refine.thy ===== *)
theory Rudp_Refine
  imports Inorder Rudp_Send
begin

text \<open>
  The abstract receiver: a partial map of the segments held back, the next number wanted and
  the queue. \<open>parseData\<close> refines \<open>a_arrive\<close>, which says in one line what the sorted slice
  and its searches are for: remember the segment unless it is known, then move the longest
  gap-free run for which the queue has room.
\<close>

record arcv =
  a_next :: nat
  a_pend :: "nat \<Rightarrow> payload option"
  a_queue :: "payload list"
  a_wnd :: nat

fun drain :: "nat \<Rightarrow> arcv \<Rightarrow> arcv" where
  "drain 0 a = a"
| "drain (Suc room) a =
    (case a_pend a (a_next a) of
       None \<Rightarrow> a
     | Some p \<Rightarrow> drain room (a\<lparr>a_next := Suc (a_next a), a_pend := (a_pend a)(a_next a := None),
                              a_queue := a_queue a @ [p]\<rparr>))"

definition a_drain :: "arcv \<Rightarrow> arcv" where
  "a_drain a = drain (a_wnd a - length (a_queue a)) a"

definition a_store :: "nat \<Rightarrow> payload \<Rightarrow> arcv \<Rightarrow> arcv" where
  "a_store sn p a = (if a_pend a sn = None then a\<lparr>a_pend := (a_pend a)(sn \<mapsto> p)\<rparr> else a)"

definition a_arrive :: "nat \<Rightarrow> payload \<Rightarrow> arcv \<Rightarrow> arcv" where
  "a_arrive sn p a =
    (if a_next a \<le> sn \<and> sn < a_next a + a_wnd a then a_drain (a_store sn p a) else a)"

definition pend_of :: "segment list \<Rightarrow> nat \<Rightarrow> payload option" where
  "pend_of buf = map_of (map (\<lambda>s. (unat (seg_sn s), pay s)) buf)"

definition abs_rcv :: "RUDP \<Rightarrow> arcv" where
  "abs_rcv r = \<lparr>a_next = unat (rcvNxt r), a_pend = pend_of (rcvBuf r),
     a_queue = map pay (rcvQueue r), a_wnd = unat (rcvWnd r)\<rparr>"

section \<open>The map of a sorted buffer\<close>

lemma pend_of_Some:
  assumes "sorted_wrt (<) (map seg_sn buf)"
  shows "pend_of buf n = Some p \<longleftrightarrow> (\<exists>s \<in> set buf. unat (seg_sn s) = n \<and> pay s = p)"
proof -
  have "distinct (map seg_sn buf)" using assms by (simp add: strict_sorted_iff)
  then have "distinct (map fst (map (\<lambda>s. (unat (seg_sn s), pay s)) buf))"
    by (auto simp: distinct_map inj_on_def)
  then show ?thesis by (auto simp: pend_of_def map_of_eq_Some_iff)
qed

lemma pend_of_None: "pend_of buf n = None \<longleftrightarrow> (\<forall>s \<in> set buf. unat (seg_sn s) \<noteq> n)"
  by (force simp: pend_of_def map_of_eq_None_iff)

lemma pend_of_insert:
  assumes "sorted_wrt (<) (map seg_sn buf)" and "seg_sn seg \<notin> seg_sn ` set buf"
  shows "pend_of (rcv_insert seg buf) = (pend_of buf)(unat (seg_sn seg) \<mapsto> pay seg)"
proof
  fix n
  have "pend_of (rcv_insert seg buf) n = Some p \<longleftrightarrow> ((pend_of buf)(unat (seg_sn seg) \<mapsto> pay seg)) n = Some p" for p
    using assms by (auto simp: pend_of_Some sorted_rcv_insert set_rcv_insert image_iff)
  then show "pend_of (rcv_insert seg buf) n = ((pend_of buf)(unat (seg_sn seg) \<mapsto> pay seg)) n"
    by (metis not_None_eq)
qed

lemma option_eq_by_Some: "(\<And>p. x = Some p \<longleftrightarrow> y = Some p) \<Longrightarrow> x = y"
  by (metis not_None_eq)

section \<open>Draining\<close>

lemma drain_run:
  assumes "\<forall>i < k. a_pend a (a_next a + i) = Some (p i)" and "k \<le> room"
    and "k = room \<or> a_pend a (a_next a + k) = None"
  shows "drain room a = a\<lparr>a_next := a_next a + k,
    a_pend := (\<lambda>n. if a_next a \<le> n \<and> n < a_next a + k then None else a_pend a n),
    a_queue := a_queue a @ map p [0..<k]\<rparr>"
  using assms
proof (induction k arbitrary: a p room)
  case 0
  have "(\<lambda>n. if a_next a \<le> n \<and> n < a_next a + 0 then None else a_pend a n) = a_pend a"
    by (auto simp: fun_eq_iff)
  with 0 show ?case by (cases room) simp_all
next
  case (Suc k)
  then obtain m where m: "room = Suc m" by (cases room) auto
  have p0: "a_pend a (a_next a) = Some (p 0)" using Suc.prems(1) by force
  have next_pend: "a_pend a (Suc (a_next a + i)) = Some (p (Suc i))" if "i < k" for i
    using Suc.prems(1) [rule_format, of "Suc i"] that by simp
  let ?a = "a\<lparr>a_next := Suc (a_next a), a_pend := (a_pend a)(a_next a := None), a_queue := a_queue a @ [p 0]\<rparr>"
  have "drain m ?a = ?a\<lparr>a_next := a_next ?a + k,
    a_pend := (\<lambda>n. if a_next ?a \<le> n \<and> n < a_next ?a + k then None else a_pend ?a n),
    a_queue := a_queue ?a @ map (\<lambda>i. p (Suc i)) [0..<k]\<rparr>"
    using Suc.prems m next_pend by (intro Suc.IH) auto
  moreover have "p 0 # map (\<lambda>i. p (Suc i)) [0..<k] = map p [0..<Suc k]"
    by (simp add: upt_conv_Cons map_Suc_upt [symmetric] del: upt_Suc)
  ultimately show ?case
    by (auto simp: m p0 fun_eq_iff simp del: upt_Suc)
qed

lemma pend_of_gap:
  assumes "sorted_wrt (<) (map seg_sn buf)" and "\<And>s. s \<in> set (take k buf) \<Longrightarrow> unat (seg_sn s) < m"
    and "k < length buf \<Longrightarrow> m < unat (seg_sn (buf ! k))"
  shows "pend_of buf m = None"
proof -
  have "unat (seg_sn (buf ! i)) \<noteq> m" if i: "i < length buf" for i
  proof (cases "i < k")
    case True
    then have "buf ! i \<in> set (take k buf)" using i by (auto simp: in_set_conv_nth)
    then show ?thesis using assms(2) by blast
  next
    case False
    then have "seg_sn (buf ! k) \<le> seg_sn (buf ! i)"
      using assms(1) i by (cases "i = k") (auto simp: sorted_wrt_iff_nth_less intro: less_imp_le)
    then show ?thesis using assms(3) False i by (simp add: word_le_nat_alt)
  qed
  then have "\<forall>s \<in> set buf. unat (seg_sn s) \<noteq> m" by (metis in_set_conv_nth)
  then show ?thesis by (simp add: pend_of_None)
qed

lemma abs_move_to_queue:
  assumes "rcv_inv src r"
  shows "abs_rcv (move_to_queue r) = a_drain (abs_rcv r)"
proof -
  obtain k where k: "k \<le> length (rcvBuf r)"
      "move_to_queue r = r\<lparr>rcvNxt := rcvNxt r + word_of_nat k,
       rcvQueue := rcvQueue r @ take k (rcvBuf r), rcvBuf := drop k (rcvBuf r)\<rparr>"
      "unat (rcvNxt r + word_of_nat k) = unat (rcvNxt r) + k"
      "\<forall>s \<in> set (drop k (rcvBuf r)). rcvNxt r + word_of_nat k \<le> seg_sn s"
      "0 < k \<Longrightarrow> length (rcvQueue r) + k \<le> unat (rcvWnd r)"
      "k < length (rcvBuf r) \<Longrightarrow> seg_sn (rcvBuf r ! k) = rcvNxt r + word_of_nat k \<Longrightarrow>
         unat (rcvWnd r) \<le> length (rcvQueue r) + k"
      "\<forall>i < k. unat (seg_sn (rcvBuf r ! i)) = unat (rcvNxt r) + i"
    using move_to_queue_inv [OF assms] by metis
  let ?buf = "rcvBuf r" and ?n = "unat (rcvNxt r)" and ?room = "unat (rcvWnd r) - length (rcvQueue r)"
  have sorted: "sorted_wrt (<) (map seg_sn ?buf)" using assms by (simp add: rcv_inv_def)
  have late: "?n + k \<le> unat (seg_sn s)" if "s \<in> set (drop k ?buf)" for s
    using k(3,4) that by (metis word_le_nat_alt)
  have early: "?n \<le> unat (seg_sn s) \<and> unat (seg_sn s) < ?n + k" if "s \<in> set (take k ?buf)" for s
    using that k(1,7) by (auto simp: in_set_conv_nth)
  have buf: "set ?buf = set (take k ?buf) \<union> set (drop k ?buf)"
    by (metis append_take_drop_id set_append)
  have run: "\<forall>i < k. pend_of ?buf (?n + i) = Some (pay (?buf ! i))"
    using k(1,7) by (auto simp: pend_of_Some [OF sorted] intro!: bexI [of _ "?buf ! _"])
  have stop: "k = ?room \<or> pend_of ?buf (?n + k) = None"
  proof (cases "k < length ?buf \<and> seg_sn (?buf ! k) = rcvNxt r + word_of_nat k")
    case True
    with k(5,6) show ?thesis by (cases "k = 0") auto
  next
    case False
    have "?n + k < unat (seg_sn (?buf ! k))" if "k < length ?buf"
    proof -
      have "?buf ! k \<in> set (drop k ?buf)" using that by (auto simp: in_set_conv_nth intro!: exI [of _ 0])
      then show ?thesis using late [of "?buf ! k"] False that by (auto simp flip: k(3) simp: order_less_le)
    qed
    then have "pend_of ?buf (?n + k) = None" by (intro pend_of_gap [OF sorted, of k]) (use early in auto)
    then show ?thesis by simp
  qed
  have le: "k \<le> ?room" using k(5) by (cases "k = 0") auto
  have pend: "pend_of (drop k ?buf) = (\<lambda>n. if ?n \<le> n \<and> n < ?n + k then None else pend_of ?buf n)"
  proof (intro ext option_eq_by_Some)
    fix n p
    have "sorted_wrt (<) (map seg_sn (drop k ?buf))" using sorted by (simp add: drop_map [symmetric] sorted_wrt_drop)
    then show "pend_of (drop k ?buf) n = Some p \<longleftrightarrow>
        (if ?n \<le> n \<and> n < ?n + k then None else pend_of ?buf n) = Some p"
      using late early by (auto simp: pend_of_Some sorted buf) (meson leD)+
  qed
  have q: "map pay (take k ?buf) = map (\<lambda>i. pay (?buf ! i)) [0..<k]"
    using k(1) by (rule map_nth_upt)
  show ?thesis
    using drain_run [of k "abs_rcv r" "\<lambda>i. pay (?buf ! i)" ?room] run stop le
    by (simp add: a_drain_def abs_rcv_def k(2,3) pend q cong: if_cong)
qed

section \<open>Bounds on the two buffers\<close>

definition rcv_bounded :: "RUDP \<Rightarrow> bool" where
  "rcv_bounded r \<longleftrightarrow> length (rcvQueue r) \<le> unat (rcvWnd r) \<and>
     (\<forall>s \<in> set (rcvBuf r). unat (seg_sn s) < unat (rcvNxt r) + unat (rcvWnd r))"

lemma unat_add_le: "unat (a + b) \<le> unat a + unat (b :: u32)"
  by (simp add: unat_word_ariths)

lemma rcv_bounded_move:
  assumes "rcv_inv src r" "rcv_bounded r"
  shows "rcv_bounded (move_to_queue r)"
proof -
  obtain k where k: "k \<le> length (rcvBuf r)"
      "move_to_queue r = r\<lparr>rcvNxt := rcvNxt r + word_of_nat k,
       rcvQueue := rcvQueue r @ take k (rcvBuf r), rcvBuf := drop k (rcvBuf r)\<rparr>"
      "unat (rcvNxt r + word_of_nat k) = unat (rcvNxt r) + k"
      "0 < k \<Longrightarrow> length (rcvQueue r) + k \<le> unat (rcvWnd r)"
    using move_to_queue_inv [OF assms(1)] by metis
  show ?thesis
    using assms(2) k by (cases "k = 0") (auto simp: rcv_bounded_def dest!: in_set_dropD)
qed

lemma rcv_bounded_parseData:
  assumes "rcv_inv src r" "rcv_bounded r" "pay seg = src (unat (seg_sn seg))"
    and "parseData seg r = Some (rep, r')"
  shows "rcv_bounded r'"
proof -
  have "sorted_wrt (<) (map seg_sn (rcvBuf r))" using assms(1) by (simp add: rcv_inv_def)
  from parseData_eq [OF this, of seg] assms(4) consider "r' = r"
    | "in_window (seg_sn seg) r" "r' = move_to_queue (r\<lparr>rcvBuf := rcv_insert seg (rcvBuf r)\<rparr>)"
    by (auto split: if_splits)
  then show ?thesis
  proof cases
    case 2
    then have "unat (seg_sn seg) < unat (rcvNxt r) + unat (rcvWnd r)"
      using unat_add_le [of "rcvNxt r" "rcvWnd r"] by (simp add: word_less_nat_alt)
    with assms(2) have "rcv_bounded (r\<lparr>rcvBuf := rcv_insert seg (rcvBuf r)\<rparr>)"
      by (auto simp: rcv_bounded_def set_rcv_insert split: if_splits)
    with rcv_inv_insert [OF assms(1) 2(1) assms(3)] 2(2) show ?thesis
      by (simp add: rcv_bounded_move)
  qed (use assms(2) in simp)
qed

lemma length_rcvBuf_bounded:
  assumes "rcv_inv src r" "rcv_bounded r"
  shows "length (rcvBuf r) \<le> unat (rcvWnd r)"
proof -
  have "distinct (map seg_sn (rcvBuf r))"
    using assms(1) by (simp add: rcv_inv_def strict_sorted_iff)
  then have "distinct (map (\<lambda>s. unat (seg_sn s)) (rcvBuf r))"
    by (auto simp: distinct_map inj_on_def)
  then have "length (rcvBuf r) = card (set (map (\<lambda>s. unat (seg_sn s)) (rcvBuf r)))"
    by (metis distinct_card length_map)
  also have "\<dots> \<le> card {unat (rcvNxt r)..<unat (rcvNxt r) + unat (rcvWnd r)}"
    using assms by (intro card_mono) (auto simp: rcv_inv_def rcv_bounded_def word_le_nat_alt)
  finally show ?thesis by simp
qed

lemma rcv_bounded_fetch:
  assumes "rcv_inv src r" "rcv_bounded r" "fetch_bytes c r = Some (bs, r')"
  shows "rcv_bounded r'"
proof (cases "peekSize r < 0 \<or> int (length c) < peekSize r")
  case True
  with assms(2,3) show ?thesis by (simp add: fetch_bytes_eq)
next
  case False
  let ?r = "r\<lparr>rcvQueue := drop (msg_len (rcvQueue r)) (rcvQueue r)\<rparr>"
  have "rcv_bounded ?r" using assms(2) by (auto simp: rcv_bounded_def)
  then have "rcv_bounded (move_to_queue ?r)"
    by (rule rcv_bounded_move [OF rcv_inv_dequeue [OF assms(1)]])
  moreover have "r' = after_receive r" using False assms(3) by (simp add: fetch_bytes_eq)
  ultimately show ?thesis by (simp add: after_receive_def Let_def rcv_bounded_def)
qed

interpretation rudp_bnd: bounded_receiver
  arrive_seg fetch_bytes "\<lambda>src seg. pay seg = src (unat (seg_sn seg))" "\<lambda>src n. snd (src n)"
  "\<lambda>r. unat (rcvNxt r)" "\<lambda>r. concat (map seg_data (rcvQueue r))" rcv_inv rcv_bounded
proof
  show "rcv_inv p s \<Longrightarrow> pay m = p (unat (seg_sn m)) \<Longrightarrow> rcv_bounded s \<Longrightarrow> arrive_seg m s = Some s' \<Longrightarrow> rcv_bounded s'"
    for p s m s'
    by (auto simp: arrive_seg_def intro: rcv_bounded_parseData)
  show "rcv_inv p s \<Longrightarrow> rcv_bounded s \<Longrightarrow> fetch_bytes c s = Some (bs, s') \<Longrightarrow> rcv_bounded s'" for p s c bs s'
    by (rule rcv_bounded_fetch)
qed

section \<open>Messages\<close>

lemma msg_len_numbered:
  "cs \<noteq> [] \<Longrightarrow> length cs \<le> 256 \<Longrightarrow> map seg_frg q = map seg_frg (numbered 0 cs) @ fs \<Longrightarrow>
   msg_len q = length cs"
proof (induction cs arbitrary: q)
  case (Cons c cs)
  obtain s q' where q: "q = s # q'" "seg_frg s = word_of_nat (length cs)"
      "map seg_frg q' = map seg_frg (numbered 0 cs) @ fs"
    using Cons.prems(3) by (cases q) (auto simp: numbered_Cons)
  have "(word_of_nat (length cs) :: u8) = 0 \<longleftrightarrow> cs = []"
    using Cons.prems(2) by (auto simp: word_of_nat_eq_0_iff dest!: dvd_imp_le)
  with q Cons.IH [of q'] Cons.prems(2) show ?case by (cases "cs = []") auto
qed simp

section \<open>Properties\<close>

text \<open>
  Claim C12. In-order, exactly-once delivery. Take any interleaving of arriving segments (in
  any order, repeated, with gaps) and read calls with buffers of any size, where every
  segment carries what the peer put under its sequence number. Then the bytes the reads
  returned, followed by those still queued, are the peer's byte stream up to \<^verbatim>\<open>rcvNxt\<close>.
\<close>

theorem rudp_in_order_delivery:
  assumes "\<And>m. Arrive m \<in> set es \<Longrightarrow> (seg_frg m, seg_data m) = src (unat (seg_sn m))"
    and "rcv_run arrive_seg fetch_bytes es (NewRudp conv, []) = Some (r, log)"
  shows "log @ concat (map seg_data (rcvQueue r)) = concat (map (\<lambda>n. snd (src n)) [0..<unat (rcvNxt r)])"
proof -
  have "\<forall>m. Arrive m \<in> set es \<longrightarrow> pay m = src (unat (seg_sn m))"
    using assms(1) by (simp add: pay_def)
  from rudp_rcv.run_from_empty [OF rcv_inv_NewRudp _ _ this assms(2)] show ?thesis
    by (simp add: NewRudp_def zero_RUDP_def src_bytes_def)
qed

definition demo_seg :: "u32 \<Rightarrow> u8 \<Rightarrow> segment" where
  "demo_seg sn b = zero_segment\<lparr>seg_sn := sn, seg_data := [b, b]\<rparr>"

theorem rudp_in_order_delivery_witness:
  "\<exists>r log. rcv_run arrive_seg fetch_bytes
      [Arrive (demo_seg 1 1), Arrive (demo_seg 1 1), Arrive (demo_seg 0 0), Fetch [7, 7, 7]] (NewRudp 5, [])
      = Some (r, log)
    \<and> log @ concat (map seg_data (rcvQueue r)) = [0, 0, 1, 1]"
proof -
  let ?es = "[Arrive (demo_seg 1 1), Arrive (demo_seg 1 1), Arrive (demo_seg 0 0), Fetch [7, 7, 7]]"
  let ?src = "\<lambda>n. (0, [word_of_nat n, word_of_nat n])"
  have run: "\<exists>r log. rcv_run arrive_seg fetch_bytes ?es (NewRudp 5, []) = Some (r, log) \<and> rcvNxt r = 2"
    by (simp add: arrive_seg_def fetch_bytes_def parseData_def Receive_def demo_seg_def zero_segment_def
        NewRudp_def zero_RUDP_def newSegment_def insert_at_def move_to_queue_def removeFront_def peekSize_def
        copy_into_def Let_def word_le_nat_alt word_less_nat_alt)
  then obtain r log where r: "rcv_run arrive_seg fetch_bytes ?es (NewRudp 5, []) = Some (r, log)" "rcvNxt r = 2"
    by blast
  have "(seg_frg m, seg_data m) = ?src (unat (seg_sn m))" if "Arrive m \<in> set ?es" for m
    using that by (auto simp: demo_seg_def zero_segment_def)
  from rudp_in_order_delivery [of ?es ?src, OF this r(1)] r show ?thesis
    by (simp add: upt_conv_Cons)
qed

text \<open>
  Claim C18. Refinement. While the receive window does not reach past \<open>2^32\<close>, \<^verbatim>\<open>parseData\<close>
  is the abstract operation \<open>a_arrive\<close> on the abstraction of its state, and it reports a
  repeat exactly for a number outside the window or already held back.
\<close>

theorem parseData_refines:
  assumes "rcv_inv src r" and "(seg_frg seg, seg_data seg) = src (unat (seg_sn seg))"
    and "length (seg_data seg) \<le> mtuLimit" and "unat (rcvNxt r) + unat (rcvWnd r) < 2 ^ 32"
  shows "\<exists>rep r'. parseData seg r = Some (rep, r')
    \<and> abs_rcv r' = a_arrive (unat (seg_sn seg)) (pay seg) (abs_rcv r)
    \<and> (rep \<longleftrightarrow> unat (seg_sn seg) < unat (rcvNxt r)
         \<or> unat (rcvNxt r) + unat (rcvWnd r) \<le> unat (seg_sn seg)
         \<or> a_pend (abs_rcv r) (unat (seg_sn seg)) \<noteq> None)"
proof -
  have sorted: "sorted_wrt (<) (map seg_sn (rcvBuf r))" using assms(1) by (simp add: rcv_inv_def)
  have top: "unat (rcvNxt r + rcvWnd r) = unat (rcvNxt r) + unat (rcvWnd r)"
    using assms(4) by (simp add: unat_word_ariths)
  have win: "in_window (seg_sn seg) r \<longleftrightarrow> unat (rcvNxt r) \<le> unat (seg_sn seg) \<and>
      unat (seg_sn seg) < unat (rcvNxt r) + unat (rcvWnd r)"
    by (simp add: word_le_nat_alt word_less_nat_alt top)
  have dup: "seg_sn seg \<in> seg_sn ` set (rcvBuf r) \<longleftrightarrow> pend_of (rcvBuf r) (unat (seg_sn seg)) \<noteq> None"
    by (auto simp: pend_of_None image_iff) metis
  have "pay seg = src (unat (seg_sn seg))" using assms(2) by (simp add: pay_def)
  note ins = rcv_inv_insert [OF assms(1) _ this]
  have store: "abs_rcv (r\<lparr>rcvBuf := rcv_insert seg (rcvBuf r)\<rparr>)
      = a_store (unat (seg_sn seg)) (pay seg) (abs_rcv r)"
    using dup by (cases "seg_sn seg \<in> seg_sn ` set (rcvBuf r)")
      (auto simp: abs_rcv_def a_store_def pend_of_insert [OF sorted], simp_all add: rcv_insert_def)
  have abs: "a_next (abs_rcv r) = unat (rcvNxt r)" "a_wnd (abs_rcv r) = unat (rcvWnd r)"
      "a_pend (abs_rcv r) = pend_of (rcvBuf r)"
    by (simp_all add: abs_rcv_def)
  show ?thesis
  proof (cases "in_window (seg_sn seg) r")
    case False
    then have "parseData seg r = Some (True, r)" using parseData_eq [OF sorted, of seg] by auto
    moreover have "a_arrive (unat (seg_sn seg)) (pay seg) (abs_rcv r) = abs_rcv r"
      using False by (simp only: a_arrive_def abs win if_False simp_thms)
    ultimately show ?thesis using False win by auto
  next
    case True
    then have "parseData seg r = Some (seg_sn seg \<in> seg_sn ` set (rcvBuf r),
        move_to_queue (r\<lparr>rcvBuf := rcv_insert seg (rcvBuf r)\<rparr>))"
      using parseData_eq [OF sorted, of seg] assms(3) by auto
    moreover have "a_arrive (unat (seg_sn seg)) (pay seg) (abs_rcv r)
        = a_drain (a_store (unat (seg_sn seg)) (pay seg) (abs_rcv r))"
      using True by (simp only: a_arrive_def abs win if_True simp_thms)
    ultimately show ?thesis
      using abs_move_to_queue [OF ins [OF True]] store True win dup abs by auto
  qed
qed

theorem parseData_refines_witness:
  "\<exists>rep r'. parseData (demo_seg 3 9) (NewRudp 5) = Some (rep, r')
    \<and> abs_rcv r' = a_arrive 3 (0, [9, 9]) (abs_rcv (NewRudp 5)) \<and> \<not> rep"
  using parseData_refines [OF rcv_inv_NewRudp, of "demo_seg 3 9" "\<lambda>_. (0, [9, 9])" 5]
  by (auto simp: demo_seg_def zero_segment_def NewRudp_def zero_RUDP_def pay_def abs_rcv_def pend_of_def)

text \<open>
  Bounded memory. In every such run the queue and the reorder buffer each hold at
  most \<^verbatim>\<open>rcvWnd\<close> segments, whatever the network delivers.
\<close>

lemma receiver_memory_bounded:
  assumes "\<And>m. Arrive m \<in> set es \<Longrightarrow> (seg_frg m, seg_data m) = src (unat (seg_sn m))"
    and "rcv_run arrive_seg fetch_bytes es (NewRudp conv, []) = Some (r, log)"
  shows "length (rcvQueue r) \<le> unat (rcvWnd r) \<and> length (rcvBuf r) \<le> unat (rcvWnd r)"
proof -
  have src: "\<forall>m. Arrive m \<in> set es \<longrightarrow> pay m = src (unat (seg_sn m))"
    using assms(1) by (simp add: pay_def)
  have "rcv_bounded (NewRudp conv)" by (simp add: rcv_bounded_def NewRudp_def zero_RUDP_def)
  from rudp_bnd.run_small [OF rcv_inv_NewRudp this src assms(2)] have "rcv_bounded r" .
  moreover have "rcv_inv src r"
    using rudp_rcv.run_stream [OF rcv_inv_NewRudp src assms(2)] by blast
  ultimately show ?thesis using length_rcvBuf_bounded by (auto simp: rcv_bounded_def)
qed

lemma receiver_memory_bounded_witness:
  "\<exists>r. rcv_run arrive_seg fetch_bytes [Arrive (demo_seg 1 1), Fetch []] (NewRudp 5, []) = Some (r, [])
     \<and> length (rcvBuf r) \<le> unat (rcvWnd r)"
proof -
  let ?es = "[Arrive (demo_seg 1 1), Fetch []]"
  have "\<exists>r. rcv_run arrive_seg fetch_bytes ?es (NewRudp 5, []) = Some (r, [])"
    by (simp add: arrive_seg_def fetch_bytes_eq parseData_def demo_seg_def zero_segment_def
        NewRudp_def zero_RUDP_def newSegment_def insert_at_def move_to_queue_def peekSize_def
        copy_into_def Let_def word_le_nat_alt word_less_nat_alt)
  then obtain r where r: "rcv_run arrive_seg fetch_bytes ?es (NewRudp 5, []) = Some (r, [])" by blast
  have "(seg_frg m, seg_data m) = (\<lambda>_. (0, [1, 1])) (unat (seg_sn m))" if "Arrive m \<in> set ?es" for m
    using that by (auto simp: demo_seg_def zero_segment_def)
  from receiver_memory_bounded [OF this r] r show ?thesis by blast
qed

text \<open>
  Claim C22. Message round trip. If the queue of the receiver starts with the fragments one
  message-mode \<^verbatim>\<open>Send\<close> made, and the caller's buffer is large enough, \<^verbatim>\<open>Receive\<close> returns
  the length of the message and puts exactly the message at the front of the buffer, and the
  queue goes on with what followed the message.
\<close>

theorem send_receive_message:
  assumes "stream s = 0" and "0 < unat (mss s)" and "unat (mss s) \<le> mtuLimit"
    and "Send msg s = Some (0, s\<lparr>sndQueue := sndQueue s @ fs\<rparr>)" and "msg \<noteq> []"
    and "map pay (rcvQueue r) = map pay fs @ rest" and "length msg \<le> length buffer"
  shows "\<exists>r' more. Receive buffer r = Some (int (length msg), msg @ drop (length msg) buffer, r')
    \<and> map pay (rcvQueue r') = rest @ more"
proof -
  have "Send msg s = send_rest msg s" using assms(1,5) by (simp add: Send_unfold)
  moreover have "length msg \<le> 255 * unat (mss s)"
    using send_rest_too_long [of s msg] assms(2,4) calculation by (cases "length msg \<le> 255 * unat (mss s)") auto
  ultimately obtain cs where cs: "s\<lparr>sndQueue := sndQueue s @ fs\<rparr> = s\<lparr>sndQueue := sndQueue s @ numbered 0 cs\<rparr>"
      "concat cs = msg" "length cs \<le> 255"
    using send_rest_ok [OF assms(2,3,5)] assms(1,4) by auto
  have fs: "fs = numbered 0 cs"
    using arg_cong [OF cs(1), of sndQueue] by simp
  have ne: "cs \<noteq> []" using assms(5) cs(2) by auto
  let ?q = "rcvQueue r"
  have "map fst (map pay ?q) = map fst (map pay fs @ rest)" using assms(6) by simp
  then have frg: "map seg_frg ?q = map seg_frg (numbered 0 cs) @ map fst rest"
    by (simp add: fs pay_def comp_def)
  have ml: "msg_len ?q = length cs"
    by (rule msg_len_numbered [OF ne _ frg]) (use cs(3) in simp)
  have "map pay (take (length cs) ?q) = map pay fs"
    using assms(6) by (simp add: fs take_map [symmetric])
  then have "map snd (map pay (take (length cs) ?q)) = map snd (map pay fs)" by simp
  then have "map seg_data (take (length cs) ?q) = cs"
    using map_seg_data_numbered [of 0 cs] by (simp add: fs pay_def comp_def)
  then have bytes: "concat (map seg_data (take (msg_len ?q) ?q)) = msg"
    by (simp add: ml cs(2))
  have len: "peek_loop ?q = length msg" by (simp add: peek_loop_msg bytes)
  obtain h t where q: "?q = h # t" using assms(6) ne by (cases ?q) (auto simp: fs numbered_def)
  have hfrg: "seg_frg h = word_of_nat (length cs - 1)"
    using frg q ne by (cases cs) (auto simp: numbered_Cons)
  have "length cs \<le> length ?q" using ml msg_len_le [of ?q] by simp
  moreover have "unat (seg_frg h + 1) = length cs"
  proof -
    have "seg_frg h + 1 = word_of_nat (length cs)"
      unfolding hfrg using ne by (cases cs) (auto simp: add.commute)
    then show ?thesis using cs(3) by (simp add: unat_of_nat)
  qed
  ultimately have "peekSize r = int (length msg)"
    using peekSize_Some [OF q] len by simp
  then have rcv: "Receive buffer r = Some (int (length msg), msg @ drop (length msg) buffer, after_receive r)"
    using assms(7) by (simp add: Receive_eq bytes len)
  obtain more where "rcvQueue (after_receive r) = drop (length cs) ?q @ more"
    using rcvQueue_after_receive [of r] by (auto simp: ml)
  moreover have "map pay (drop (length cs) ?q) = rest"
    using assms(6) by (simp add: fs drop_map [symmetric])
  ultimately show ?thesis using rcv by (intro exI [of _ "after_receive r"] exI [of _ "map pay more"]) simp
qed

theorem send_receive_message_witness:
  "\<exists>r'. Receive [0, 0, 0, 0] ((NewRudp 7)\<lparr>rcvQueue := [fragment 1 [1, 2], fragment 0 [3], fragment 0 [9]]\<rparr>)
      = Some (3, [1, 2, 3, 0], r') \<and> map pay (rcvQueue r') = [(0, [9])]"
proof -
  let ?s = "(NewRudp 7)\<lparr>mss := 2\<rparr>" and ?fs = "[fragment 1 [1, 2], fragment 0 [3]]"
  let ?r = "(NewRudp 7)\<lparr>rcvQueue := ?fs @ [fragment 0 [9]]\<rparr>"
  have "Send [1, 2, 3] ?s = Some (0, ?s\<lparr>sndQueue := sndQueue ?s @ ?fs\<rparr>)"
    by (simp add: Send_unfold send_rest_def send_count_def newSegment_def fragment_def
        NewRudp_def zero_RUDP_def zero_segment_def copy_into_def)
  then obtain r' more where r': "Receive [0, 0, 0, 0] ?r = Some (int (length [1, 2, 3 :: u8]),
      [1, 2, 3] @ drop (length [1, 2, 3 :: u8]) [0, 0, 0, 0], r')" "map pay (rcvQueue r') = [(0, [9])] @ more"
    using send_receive_message [of ?s "[1, 2, 3]" ?fs ?r "[(0, [9])]" "[0, 0, 0, 0]"]
    by (auto simp: NewRudp_def zero_RUDP_def pay_def)
  obtain k where "rcvQueue (after_receive ?r) = drop (msg_len (rcvQueue ?r)) (rcvQueue ?r) @ take k (rcvBuf ?r)"
    using rcvQueue_after_receive by blast
  then have "rcvQueue (after_receive ?r) = [fragment 0 [9]]"
    by (simp add: NewRudp_def zero_RUDP_def)
  moreover have "r' = after_receive ?r" using r'(1) by (simp add: Receive_eq split: if_splits)
  ultimately show ?thesis using r' by (simp add: pay_def)
qed

text \<open>
  The receiver stops for good before the sequence numbers wrap: once the window
  \<^verbatim>\<open>rcvNxt + rcvWnd\<close>, computed in uint32, has wrapped, no segment whatever is accepted, in
  particular not the one with number \<^verbatim>\<open>rcvNxt\<close> that the peer keeps sending.
\<close>

lemma parseData_stalls_at_wrap:
  assumes "2 ^ 32 \<le> unat (rcvNxt r) + unat (rcvWnd r)"
  shows "parseData seg r = Some (True, r)"
proof -
  have "unat (rcvNxt r + rcvWnd r) = unat (rcvNxt r) + unat (rcvWnd r) - 2 ^ 32"
    using assms unat_u32_less [of "rcvNxt r"] unat_u32_less [of "rcvWnd r"]
    by (simp add: unat_word_ariths mod_if)
  then have "rcvNxt r + rcvWnd r \<le> rcvNxt r"
    using unat_u32_less [of "rcvWnd r"] by (simp add: word_le_nat_alt)
  then show ?thesis by (auto simp: parseData_def not_le)
qed

lemma parseData_stalls_at_wrap_witness:
  "parseData (demo_seg 4294967280 1) ((NewRudp 7)\<lparr>rcvNxt := 4294967280\<rparr>)
     = Some (True, (NewRudp 7)\<lparr>rcvNxt := 4294967280\<rparr>)"
  using parseData_stalls_at_wrap [of "(NewRudp 7)\<lparr>rcvNxt := 4294967280\<rparr>"]
  by (simp add: NewRudp_def zero_RUDP_def)

text \<open>
  \<^verbatim>\<open>peekSize\<close> waits for all fragments of a message, except that for fragment
  number 255 the count \<^verbatim>\<open>seg.frg+1\<close> wraps to 0: then it reports the bytes of whatever part
  of the message has arrived.
\<close>

lemma peekSize_fragments:
  assumes "rcvQueue r = seg # q" and "seg_frg seg \<noteq> 0"
  shows "peekSize r =
    (if seg_frg seg \<noteq> 255 \<and> length (rcvQueue r) \<le> unat (seg_frg seg) then -1
     else int (length (concat (map seg_data (take (msg_len (rcvQueue r)) (rcvQueue r))))))"
proof (cases "seg_frg seg = 255")
  case True
  with assms show ?thesis by (simp add: peekSize_def peek_loop_msg del: peek_loop.simps msg_len.simps)
next
  case False
  then have "unat (seg_frg seg + 1) = unat (seg_frg seg) + 1"
    by (simp add: unat_u8_Suc)
  with assms False show ?thesis
    by (simp add: peekSize_def peek_loop_msg del: peek_loop.simps msg_len.simps)
qed

lemma peekSize_fragments_witness:
  "peekSize ((NewRudp 7)\<lparr>rcvQueue := [fragment 255 [1, 2]]\<rparr>) = 2 \<and>
   peekSize ((NewRudp 7)\<lparr>rcvQueue := [fragment 254 [1, 2]]\<rparr>) = -1"
  using peekSize_fragments [of "(NewRudp 7)\<lparr>rcvQueue := [fragment 255 [1, 2]]\<rparr>"]
    peekSize_fragments [of "(NewRudp 7)\<lparr>rcvQueue := [fragment 254 [1, 2]]\<rparr>"]
  by simp

text \<open>
  \<^verbatim>\<open>unusedWnd\<close> advertises the free room of the queue modulo \<open>2^16\<close>: exactly for
  windows below 65536, and with a window of 65536 an empty queue is advertised as full.
\<close>

lemma unusedWnd_mod:
  "unat (unusedWnd r) = (unat (rcvWnd r) - length (rcvQueue r)) mod 2 ^ 16"
proof (cases "length (rcvQueue r) < unat (rcvWnd r)")
  case True
  then have "unusedWnd r = word_of_nat (unat (rcvWnd r) - length (rcvQueue r))"
    by (simp add: unusedWnd_def of_nat_diff)
  then show ?thesis by (simp add: unat_of_nat)
qed (simp add: unusedWnd_def)

end
