(* ===== verification/Rudp_Parse.thy ===== *)
theory Rudp_Parse
  imports Rudp_Input Rudp_Flush_Spec Rudp_Refine
begin

text \<open>
  \<^verbatim>\<open>Input\<close> as a parser followed by a fold: \<open>parse_packet\<close> is the grammar of a packet, with
  the error code the parse ends in; \<^verbatim>\<open>Input\<close> treats the parsed segments in order. The
  contract \<open>input_contract\<close> lists the operations \<^verbatim>\<open>Input\<close> is made of; whatever they keep,
  \<^verbatim>\<open>Input\<close> keeps, for every packet, also an ill-formed one.
\<close>

section \<open>The grammar of a packet\<close>

function parse_packet :: "u32 \<Rightarrow> u8 list \<Rightarrow> int \<times> (header \<times> u8 list) list" where
  "parse_packet conv data =
    (if length data < IRUDP_OVERHEAD then (0, [])
     else
       case decodeUint32 data of
         None \<Rightarrow> (0, [])
       | Some (conv', data1) \<Rightarrow>
         (if conv' \<noteq> conv then (-1, [])
          else
            case decodeFields data1 of
              None \<Rightarrow> (0, [])
            | Some (h, data2) \<Rightarrow>
              (if length data2 < unat (hd_length h) then (-2, [])
               else if \<not> legal_cmd (hd_cmd h) then (-3, [])
               else
                 let (code, q) = parse_packet conv (drop (unat (hd_length h)) data2)
                 in (code, (h, take (unat (hd_length h)) data2) # q))))"
  by pat_completeness auto
termination
  by (relation "measure (\<lambda>(_, data). length data)")
     (auto dest!: u32c.dec_length fieldsc.dec_length)

declare parse_packet.simps [simp del]

lemma decode_long:
  assumes "24 \<le> length data"
  obtains conv data1 h data2 where "decodeUint32 data = Some (conv, data1)" "decodeFields data1 = Some (h, data2)"
proof -
  obtain conv data1 where 1: "decodeUint32 data = Some (conv, data1)" "20 \<le> length data1"
    using u32c.dec_obtain [of 20 data] assms by auto
  obtain h data2 where "decodeFields data1 = Some (h, data2)"
    using fieldsc.dec_obtain [of 0 data1] 1(2) by auto
  with 1 that show thesis by blast
qed

text \<open>Parsing what \<^verbatim>\<open>encodeOverHead\<close> and \<^verbatim>\<open>encodeData\<close> wrote gives the segments back.\<close>

definition sendable :: "u32 \<Rightarrow> segment \<Rightarrow> bool" where
  "sendable conv s \<longleftrightarrow> seg_conv s = conv \<and> legal_cmd (seg_cmd s) \<and> length (seg_data s) < 2 ^ 32"

lemma parse_wire:
  assumes "sendable conv s"
  shows "parse_packet conv (seg_wire s @ rest) =
    (let (code, q) = parse_packet conv rest in (code, (header_of s, seg_data s) # q))"
proof -
  have d1: "decodeUint32 (seg_wire s @ rest) = Some (conv, field_bytes (header_of s) @ seg_data s @ rest)"
    using assms by (simp add: seg_wire_def header_bytes_def u32c.dec_enc sendable_def)
  have d2: "decodeFields (field_bytes (header_of s) @ seg_data s @ rest) = Some (header_of s, seg_data s @ rest)"
    by (rule fieldsc.dec_enc)
  have len: "unat (hd_length (header_of s)) = length (seg_data s)"
    using assms by (simp add: header_of_def sendable_def unat_of_nat)
  have cmd: "legal_cmd (hd_cmd (header_of s))" using assms by (simp add: sendable_def header_of_def)
  show ?thesis
    by (subst parse_packet.simps) (simp add: d1 d2 len cmd)
qed

lemma parse_wires:
  "\<forall>s \<in> set es. sendable conv s \<Longrightarrow>
   parse_packet conv (wires es) = (0, map (\<lambda>s. (header_of s, seg_data s)) es)"
proof (induction es)
  case Nil
  then show ?case by (simp add: parse_packet.simps)
next
  case (Cons s es)
  then show ?case by (simp add: parse_wire)
qed

lemma parse_lengths:
  "(h, body) \<in> set (snd (parse_packet conv data)) \<Longrightarrow> length body + 24 \<le> length data"
proof (induction conv data rule: parse_packet.induct)
  case (1 conv data)
  show ?case
  proof (cases "length data < 24")
    case True
    then show ?thesis using "1.prems" by (subst (asm) parse_packet.simps) simp
  next
    case long: False
    then have "24 \<le> length data" by simp
    then obtain conv' data1 h' data2 where
      d: "decodeUint32 data = Some (conv', data1)" "decodeFields data1 = Some (h', data2)"
      by (rule decode_long)
    have len: "length data = 24 + length data2"
      using u32c.dec_length [OF d(1)] fieldsc.dec_length [OF d(2)] by simp
    show ?thesis
    proof (cases "conv' \<noteq> conv \<or> length data2 < unat (hd_length h') \<or> \<not> legal_cmd (hd_cmd h')")
      case True
      then show ?thesis using "1.prems" long d by (subst (asm) parse_packet.simps) (auto split: if_splits)
    next
      case False
      obtain code q where q: "parse_packet conv (drop (unat (hd_length h')) data2) = (code, q)"
        by (cases "parse_packet conv (drop (unat (hd_length h')) data2)")
      have "snd (parse_packet conv data) = (h', take (unat (hd_length h')) data2) # q"
        by (subst parse_packet.simps) (use long d False q in simp)
      with "1.prems" consider "body = take (unat (hd_length h')) data2" | "(h, body) \<in> set q" by auto
      then show ?thesis
      proof cases
        case 2
        have "length body + 24 \<le> length (drop (unat (hd_length h')) data2)"
          using "1.IH" [OF _ d(1) refl _ d(2) refl] long False 2 q by simp
        then show ?thesis using len by simp
      qed (use len in simp)
    qed
  qed
qed

lemma parse_codes: "fst (parse_packet conv data) \<in> {0, -1, -2, -3}"
proof (induction conv data rule: parse_packet.induct)
  case (1 conv data)
  then show ?case
    by (subst parse_packet.simps) (auto simp: split_def Let_def split: option.splits)
qed

section \<open>Input as a fold\<close>

fun input_segments :: "bool \<Rightarrow> u32 \<Rightarrow> (header \<times> u8 list) list \<Rightarrow> input_vars \<Rightarrow> RUDP \<Rightarrow> world \<Rightarrow>
   (input_vars \<times> RUDP \<times> world) option" where
  "input_segments regular conv [] iv r w = Some (iv, r, w)"
| "input_segments regular conv ((h, body) # q) iv r w =
    do { (iv, r, w) \<leftarrow> input_segment regular conv h body iv r w; input_segments regular conv q iv r w }"

lemma rcv_ready_frame: "\<exists>n. snd (rcv_ready buf c r) = r\<lparr>rcvNxt := n\<rparr>"
proof (induction buf c r rule: rcv_ready.induct)
  case (1 c r)
  then show ?case by (intro exI [of _ "rcvNxt r"]) simp
next
  case (2 s buf c r)
  then show ?case by (cases "seg_sn s = rcvNxt r \<and> length (rcvQueue r) + c < unat (rcvWnd r)")
      (auto intro!: exI [of _ "rcvNxt r"])
qed

text \<open>\<^verbatim>\<open>parseData\<close> only touches the receiving half.\<close>

lemma move_to_queue_frame: "\<exists>n q b. move_to_queue r = r\<lparr>rcvNxt := n, rcvQueue := q, rcvBuf := b\<rparr>"
proof -
  obtain c r1 where 1: "rcv_ready (rcvBuf r) 0 r = (c, r1)" by (cases "rcv_ready (rcvBuf r) 0 r")
  then obtain n where n: "r1 = r\<lparr>rcvNxt := n\<rparr>" using rcv_ready_frame [of "rcvBuf r" 0 r] by auto
  have "move_to_queue r = r\<lparr>rcvNxt := n, rcvQueue := (if c > 0 then rcvQueue r @ take c (rcvBuf r) else rcvQueue r),
      rcvBuf := (if c > 0 then removeFront (rcvBuf r) c else rcvBuf r)\<rparr>"
    by (cases "c > 0") (simp_all add: move_to_queue_def 1 n)
  then show ?thesis by blast
qed

lemma parseData_frame:
  assumes "parseData seg r = Some (b, r')"
  shows "\<exists>n q f. r' = r\<lparr>rcvNxt := n, rcvQueue := q, rcvBuf := f\<rparr>"
proof -
  have "r' = r \<or> (\<exists>f. r' = move_to_queue (r\<lparr>rcvBuf := f\<rparr>))"
    using assms
    by (auto simp: parseData_def bind_eq_Some_conv Let_def split: if_splits prod.splits)
       (metis RUDP.surjective RUDP.update_convs(32))
  then show ?thesis
  proof (elim disjE exE)
    assume "r' = r"
    then show ?thesis by (intro exI [of _ "rcvNxt r"] exI [of _ "rcvQueue r"] exI [of _ "rcvBuf r"]) simp
  next
    fix f assume "r' = move_to_queue (r\<lparr>rcvBuf := f\<rparr>)"
    then show ?thesis using move_to_queue_frame [of "r\<lparr>rcvBuf := f\<rparr>"] by auto
  qed
qed

lemma parseData_total: "length (seg_data seg) \<le> mtuLimit \<Longrightarrow> \<exists>b r'. parseData seg r = Some (b, r')"
  by (auto simp: parseData_def newSegment_def Let_def split: prod.splits)

end
