(* ===== verification/Rudp_Input_Spec.thy ===== *)
theory Rudp_Input_Spec
  imports Rudp_Parse
begin

text \<open>
  What \<^verbatim>\<open>Input\<close> keeps. The locale \<open>header_contract\<close> lists the steps the loop is made of and
  \<open>header_input\<close> adds those that follow it; \<open>segment_contract\<close> and \<open>input_contract\<close> are the
  versions whose steps do not depend on the header, \<open>total_contract\<close> says that none of them can
  panic. Each invariant of the connection is an interpretation.
\<close>

section \<open>One segment\<close>

text \<open>The effect of the three commands without payload on the state.\<close>

definition input_control :: "header \<Rightarrow> RUDP \<Rightarrow> RUDP" where
  "input_control h r =
    (if hd_cmd h = IRUDP_CMD_ACK then parseFastAck (hd_sn h) (hd_ts h) (parseAck (hd_sn h) r)
     else if hd_cmd h = IRUDP_CMD_WASK then r\<lparr>probe := probe r OR IRUDP_ASK_TELL\<rparr>
     else r)"

definition input_vars_after :: "bool \<Rightarrow> header \<Rightarrow> input_vars \<Rightarrow> input_vars" where
  "input_vars_after slide h iv =
    iv\<lparr>iv_flag := (if hd_cmd h = IRUDP_CMD_ACK then 1 else iv_flag iv),
       iv_latest := (if hd_cmd h = IRUDP_CMD_ACK then hd_ts h else iv_latest iv),
       iv_inSegs := iv_inSegs iv + 1,
       iv_windowSlide := (slide \<or> iv_windowSlide iv)\<rparr>"

lemma input_segment_eq:
  "input_segment regular conv h body iv r w =
    (let r0 = (if regular then r\<lparr>rmtWnd := ucast (hd_wnd h)\<rparr> else r);
         r1 = ack_una (hd_una h) r0;
         iv1 = input_vars_after (0 < fst (parseUna (hd_una h) r0)) h iv
     in if hd_cmd h = IRUDP_CMD_PUSH
        then map_option (\<lambda>(r, w). (iv1, r, w)) (input_push regular conv h body r1 w)
        else Some (iv1, input_control h r1, w))"
proof -
  define r0 where "r0 = (if regular then r\<lparr>rmtWnd := ucast (hd_wnd h)\<rparr> else r)"
  obtain n q where n: "parseUna (hd_una h) r0 = (n, q)" by (cases "parseUna (hd_una h) r0")
  show ?thesis
    unfolding input_segment_def r0_def [symmetric] n Let_def ack_una_def
    by (cases "input_push regular conv h body (updateSndUna q) w")
       (auto simp: n input_control_def input_vars_after_def)
qed

section \<open>The contracts\<close>

text \<open>
  The general contract: the steps may use what \<open>Q\<close> says of the header and payload they
  handle.
\<close>

locale header_contract =
  fixes P :: "RUDP \<Rightarrow> world \<Rightarrow> bool" and Q :: "header \<Rightarrow> u8 list \<Rightarrow> bool"
  assumes hdr_wnd: "P r w \<Longrightarrow> P (r\<lparr>rmtWnd := x\<rparr>) w"
    and hdr_una: "P r w \<Longrightarrow> Q h body \<Longrightarrow> P (ack_una (hd_una h) r) w"
    and hdr_push: "P r w \<Longrightarrow> Q h body \<Longrightarrow> hd_cmd h = IRUDP_CMD_PUSH \<Longrightarrow>
      input_push regular conv h body r w = Some (r', w') \<Longrightarrow> P r' w'"
    and hdr_ack: "P r w \<Longrightarrow> Q h body \<Longrightarrow> hd_cmd h = IRUDP_CMD_ACK \<Longrightarrow>
      P (parseFastAck (hd_sn h) (hd_ts h) (parseAck (hd_sn h) r)) w"
    and hdr_ask: "P r w \<Longrightarrow> P (r\<lparr>probe := y\<rparr>) w"
begin

lemma keep_segment:
  assumes "P r w" "Q h body" "input_segment regular conv h body iv r w = Some (iv', r', w')"
  shows "P r' w'"
proof -
  define r1 where "r1 = ack_una (hd_una h) (if regular then r\<lparr>rmtWnd := ucast (hd_wnd h)\<rparr> else r)"
  have P1: "P r1 w" using assms(1,2) hdr_wnd by (auto simp: r1_def intro: hdr_una)
  note eq = assms(3) [unfolded input_segment_eq Let_def, folded r1_def]
  show ?thesis
  proof (cases "hd_cmd h = IRUDP_CMD_PUSH")
    case True
    then have "input_push regular conv h body r1 w = Some (r', w')"
      using eq by (auto simp: map_option_case split: option.splits)
    then show ?thesis by (rule hdr_push [OF P1 assms(2) True])
  next
    case False
    then have "r' = input_control h r1" "w' = w" using eq by simp_all
    then show ?thesis
      using P1 hdr_ack [OF P1 assms(2)] hdr_ask [OF P1] by (simp add: input_control_def)
  qed
qed

lemma keep_segments:
  "P r w \<Longrightarrow> \<forall>(h, body) \<in> set q. Q h body \<Longrightarrow> input_segments regular conv q iv r w = Some (iv', r', w') \<Longrightarrow> P r' w'"
  by (induction regular conv q iv r w rule: input_segments.induct)
     (auto simp: bind_eq_Some_conv dest: keep_segment)

end

text \<open>The contract in finer steps that do not depend on the header, except for the payload stored.\<close>

locale segment_contract =
  fixes P :: "RUDP \<Rightarrow> world \<Rightarrow> bool" and Q :: "header \<Rightarrow> u8 list \<Rightarrow> bool"
  assumes keep_wnd: "P r w \<Longrightarrow> P (r\<lparr>rmtWnd := x\<rparr>) w"
    and keep_una: "P r w \<Longrightarrow> P (ack_una u r) w"
    and keep_pushAck: "P r w \<Longrightarrow> P (pushAck sn ts r) w"
    and keep_store: "P r w \<Longrightarrow> Q h body \<Longrightarrow> hd_cmd h = IRUDP_CMD_PUSH \<Longrightarrow>
      parseData (push_segment conv h body) r = Some (b, r') \<Longrightarrow> P r' w"
    and keep_ack: "P r w \<Longrightarrow> P (parseFastAck sn ts (parseAck sn r)) w"
    and keep_ask: "P r w \<Longrightarrow> P (r\<lparr>probe := y\<rparr>) w"
    and keep_stat: "P r w \<Longrightarrow> P r (AddUint64 upd n w)"
begin

lemma keep_push:
  assumes "P r w" "Q h body" "hd_cmd h = IRUDP_CMD_PUSH" "input_push regular conv h body r w = Some (r', w')"
  shows "P r' w'"
  using assms keep_store [OF keep_pushAck [OF assms(1)] assms(2,3)] keep_pushAck [OF assms(1)]
  by (auto simp: input_push_def Let_def bind_eq_Some_conv intro: keep_stat split: if_splits)

end

sublocale segment_contract \<subseteq> header_contract P Q
  by unfold_locales (rule keep_wnd keep_una keep_push keep_ack keep_ask; assumption)+

locale header_input = header_contract +
  assumes hdr_stat: "P r w \<Longrightarrow> P r (AddUint64 upd n w)"
    and hdr_clock: "P r w \<Longrightarrow> P r (snd (currentMs w))"
    and hdr_rtt: "P r w \<Longrightarrow> P (updateRTO rtt r) w"
    and hdr_grow: "P r w \<Longrightarrow> grow_cwnd old r = Some r' \<Longrightarrow> P r' w"
    and hdr_flush: "P r w \<Longrightarrow> flush ackOnly r w = Some (v, r', w') \<Longrightarrow> P r' w'"

locale input_contract = segment_contract +
  assumes keep_clock: "P r w \<Longrightarrow> P r (snd (currentMs w))"
    and keep_rtt: "P r w \<Longrightarrow> P (updateRTO rtt r) w"
    and keep_grow: "P r w \<Longrightarrow> grow_cwnd old r = Some r' \<Longrightarrow> P r' w"
    and keep_flush: "P r w \<Longrightarrow> flush ackOnly r w = Some (v, r', w') \<Longrightarrow> P r' w'"

sublocale input_contract \<subseteq> header_input P Q
  by unfold_locales (rule keep_stat keep_clock keep_rtt keep_grow keep_flush; assumption)+

locale total_contract = input_contract +
  assumes store_total: "P r w \<Longrightarrow> Q h body \<Longrightarrow> parseData (push_segment conv h body) r \<noteq> None"
    and grow_total: "P r w \<Longrightarrow> grow_cwnd old r \<noteq> None"
    and flush_total: "P r w \<Longrightarrow> flush ackOnly r w \<noteq> None"

section \<open>The loop is the fold\<close>

interpretation conv_kept: segment_contract "\<lambda>r _. rudp_conv r = c" "\<lambda>_ _. True" for c
proof
  fix r h body conv b r'
  show "rudp_conv r = c \<Longrightarrow> parseData (push_segment conv h body) r = Some (b, r') \<Longrightarrow> rudp_conv r' = c"
    by (auto dest!: parseData_frame)
qed (simp_all add: ack_una_def parseUna_def updateSndUna_def pushAck_def parseAck_def parseFastAck_def Let_def)

lemma input_loop_parse:
  "input_loop regular data iv r w =
    (let (code, q) = parse_packet (rudp_conv r) data
     in do { (iv, r, w) \<leftarrow> input_segments regular (rudp_conv r) q iv r w;
             Some (if code = 0 then Inr iv else Inl code, r, w) })"
proof (induction regular data iv r w rule: input_loop.induct)
  case (1 regular data iv r w)
  show ?case
  proof (cases "length data < 24")
    case True
    then show ?thesis by (subst input_loop.simps, subst parse_packet.simps) simp
  next
    case long: False
    then have "24 \<le> length data" by simp
    then obtain conv data1 h data2 where
      d: "decodeUint32 data = Some (conv, data1)" "decodeFields data1 = Some (h, data2)"
      by (rule decode_long)
    show ?thesis
    proof (cases "conv \<noteq> rudp_conv r \<or> length data2 < unat (hd_length h) \<or> \<not> legal_cmd (hd_cmd h)")
      case True
      then show ?thesis using long d by (subst input_loop.simps, subst parse_packet.simps) auto
    next
      case False
      let ?body = "take (unat (hd_length h)) data2" and ?rest = "drop (unat (hd_length h)) data2"
      obtain code q where q: "parse_packet conv ?rest = (code, q)" by (cases "parse_packet conv ?rest")
      have parse: "parse_packet (rudp_conv r) data = (code, (h, ?body) # q)"
        by (subst parse_packet.simps) (use long d False q in simp)
      have loop: "input_loop regular data iv r w =
          (case input_segment regular conv h ?body iv r w of None \<Rightarrow> None
           | Some (iv, r, w) \<Rightarrow> input_loop regular ?rest iv r w)"
        by (subst input_loop.simps) (use long d False in simp)
      show ?thesis
      proof (cases "input_segment regular conv h ?body iv r w")
        case None
        then show ?thesis using False by (simp add: loop parse)
      next
        case (Some a)
        obtain iv1 r1 w1 where a: "a = (iv1, r1, w1)" by (cases a)
        have "rudp_conv r1 = rudp_conv r"
          using conv_kept.keep_segment [OF refl TrueI] Some a by blast
        moreover have "input_loop regular ?rest iv1 r1 w1 =
          (let (code, q) = parse_packet (rudp_conv r1) ?rest
           in do { (iv, r, w) \<leftarrow> input_segments regular (rudp_conv r1) q iv1 r1 w1;
                   Some (if code = 0 then Inr iv else Inl code, r, w) })"
          using "1.IH" [OF _ d(1) refl _ d(2) refl] long False Some a by (simp add: split_def)
        ultimately show ?thesis using False Some a q by (simp add: loop parse split_def cong: if_cong)
      qed
    qed
  qed
qed

section \<open>What the contracts give for Input\<close>

definition iv_start :: input_vars where
  "iv_start = \<lparr>iv_flag = 0, iv_latest = 0, iv_inSegs = 0, iv_windowSlide = False\<rparr>"

text \<open>The part of \<^verbatim>\<open>Input\<close> after a loop that ran to its end.\<close>

definition input_tail :: "bool \<Rightarrow> bool \<Rightarrow> u32 \<Rightarrow> input_vars \<Rightarrow> RUDP \<Rightarrow> world \<Rightarrow> (int \<times> RUDP \<times> world) option" where
  "input_tail regular ackNoDelay old iv r w =
    (let (r, w) = input_rtt regular iv r (AddUint64 InSegs_update (iv_inSegs iv) w)
     in do {
       r \<leftarrow> grow_cwnd old r;
       (if iv_windowSlide iv \<or> ackNoDelay \<and> ackList r \<noteq> []
        then do { (_, r, w) \<leftarrow> flush (\<not> iv_windowSlide iv) r w; Some (0, r, w) }
        else Some (0, r, w))
     })"

lemma Input_eq:
  "Input data regular ackNoDelay r w =
    (if length data < IRUDP_OVERHEAD then Some (-1, r, w)
     else case parse_packet (rudp_conv r) data of (code, q) \<Rightarrow>
       do {
         (iv, r', w') \<leftarrow> input_segments regular (rudp_conv r) q iv_start r w;
         if code = 0 then input_tail regular ackNoDelay (sndUna r) iv r' w' else Some (code, r', w')
       })"
proof -
  have "(case (if code = 0 then Inr iv else Inl code) of Inl c \<Rightarrow> f c | Inr iv \<Rightarrow> g iv) =
      (if code = 0 then g iv else f code)" for code :: int and iv :: input_vars and f g
    by simp
  then show ?thesis
    by (auto simp: Input_def input_loop_parse input_tail_def split_def Let_def iv_start_def bind_eq_Some_conv
        intro!: arg_cong2 [where f = Option.bind] ext split: if_splits)
qed

context header_input
begin

lemma keep_rtt_step: "P r w \<Longrightarrow> input_rtt regular iv r w = (r', w') \<Longrightarrow> P r' w'"
  using hdr_clock [of r w] by (auto simp: input_rtt_def hdr_rtt split_def Let_def split: if_splits)

lemma keep_tail:
  assumes "P r w" "input_tail regular ackNoDelay old iv r w = Some (c, r', w')"
  shows "P r' w'"
proof -
  obtain r1 w1 where 1: "input_rtt regular iv r (AddUint64 InSegs_update (iv_inSegs iv) w) = (r1, w1)"
    by (cases "input_rtt regular iv r (AddUint64 InSegs_update (iv_inSegs iv) w)")
  obtain r2 where 2: "grow_cwnd old r1 = Some r2" "r' = r2 \<and> w' = w1 \<or> (\<exists>b v. flush b r2 w1 = Some (v, r', w'))"
    using assms(2) by (auto simp: input_tail_def 1 bind_eq_Some_conv split: if_splits)
  then show ?thesis
    using keep_rtt_step [OF hdr_stat [OF assms(1)] 1] hdr_grow hdr_flush by blast
qed

lemma keep_Input:
  assumes "P r w" "\<forall>(h, body) \<in> set (snd (parse_packet (rudp_conv r) data)). Q h body"
    and "Input data regular ackNoDelay r w = Some (c, r', w')"
  shows "P r' w'"
proof (cases "length data < 24")
  case True
  then show ?thesis using assms(1,3) by (simp add: Input_def)
next
  case False
  obtain code q where q: "parse_packet (rudp_conv r) data = (code, q)" by (cases "parse_packet (rudp_conv r) data")
  then obtain iv r1 w1 where 1: "input_segments regular (rudp_conv r) q iv_start r w = Some (iv, r1, w1)"
      "(if code = 0 then input_tail regular ackNoDelay (sndUna r) iv r1 w1 else Some (code, r1, w1)) = Some (c, r', w')"
    using assms(3) False by (auto simp: Input_eq bind_eq_Some_conv)
  have "P r1 w1" using keep_segments [OF assms(1) _ 1(1)] assms(2) q by simp
  then show ?thesis using 1(2) keep_tail by (auto split: if_splits)
qed

end

context total_contract
begin

lemma segment_total:
  assumes "P r w" "Q h body"
  shows "\<exists>iv' r' w'. input_segment regular conv h body iv r w = Some (iv', r', w')"
proof -
  define r1 where "r1 = ack_una (hd_una h) (if regular then r\<lparr>rmtWnd := ucast (hd_wnd h)\<rparr> else r)"
  have "P r1 w" using assms(1) keep_wnd by (auto simp: r1_def intro: keep_una)
  then have "P (pushAck (hd_sn h) (hd_ts h) r1) w" by (rule keep_pushAck)
  from store_total [OF this assms(2), of conv] obtain b r2 where
    "parseData (push_segment conv h body) (pushAck (hd_sn h) (hd_ts h) r1) = Some (b, r2)" by auto
  then have "\<exists>a. input_push regular conv h body r1 w = Some a"
    by (simp add: input_push_def Let_def)
  then show ?thesis unfolding input_segment_eq Let_def r1_def [symmetric] by auto
qed

lemma segments_total:
  "P r w \<Longrightarrow> \<forall>(h, body) \<in> set q. Q h body \<Longrightarrow>
   \<exists>iv' r' w'. input_segments regular conv q iv r w = Some (iv', r', w')"
proof (induction q arbitrary: iv r w)
  case (Cons a q)
  obtain h body where a: "a = (h, body)" by (cases a)
  then have Q: "Q h body" using Cons.prems(2) by simp
  obtain iv1 r1 w1 where 1: "input_segment regular conv h body iv r w = Some (iv1, r1, w1)"
    using segment_total [OF Cons.prems(1) Q] by blast
  with keep_segment [OF Cons.prems(1) Q] Cons.IH [of r1 w1] Cons.prems(2) show ?case by (simp add: a)
qed simp

lemma Input_total:
  assumes "P r w" "\<forall>(h, body) \<in> set (snd (parse_packet (rudp_conv r) data)). Q h body"
  shows "\<exists>c r' w'. Input data regular ackNoDelay r w = Some (c, r', w') \<and> P r' w' \<and>
    c = (if length data < 24 then -1 else fst (parse_packet (rudp_conv r) data))"
proof (cases "length data < 24")
  case True
  then show ?thesis using assms(1) by (simp add: Input_def)
next
  case False
  obtain code q where q: "parse_packet (rudp_conv r) data = (code, q)" by (cases "parse_packet (rudp_conv r) data")
  obtain iv r1 w1 where 1: "input_segments regular (rudp_conv r) q iv_start r w = Some (iv, r1, w1)"
    using segments_total [OF assms(1), of q] assms(2) q by fastforce
  have P1: "P r1 w1" using keep_segments [OF assms(1) _ 1] assms(2) q by simp
  have "\<exists>r' w'. input_tail regular ackNoDelay (sndUna r) iv r1 w1 = Some (0, r', w')"
  proof -
    obtain r2 w2 where 2: "input_rtt regular iv r1 (AddUint64 InSegs_update (iv_inSegs iv) w1) = (r2, w2)"
      by (cases "input_rtt regular iv r1 (AddUint64 InSegs_update (iv_inSegs iv) w1)")
    then have "P r2 w2" using keep_stat [OF P1] keep_rtt_step by blast
    with grow_total [of r2 w2 "sndUna r"] obtain r3 where 3: "grow_cwnd (sndUna r) r2 = Some r3" "P r3 w2"
      using keep_grow by blast
    show ?thesis
      using flush_total [OF 3(2), of "\<not> iv_windowSlide iv"] by (auto simp: input_tail_def 2 3(1))
  qed
  then have "\<exists>r' w'. Input data regular ackNoDelay r w = Some (code, r', w')"
    using False 1 q by (auto simp: Input_eq)
  then show ?thesis using keep_Input [OF assms] False q by fastforce
qed

end

end
