(* ===== verification/Rudp_Connection.thy ===== *)
theory Rudp_Connection
  imports Rudp_Input_Spec
begin

text \<open>
  The invariants of a whole connection end under \<^verbatim>\<open>Input\<close>: the interpretations of the
  contracts of \<^verbatim>\<open>Rudp_Input_Spec\<close> and the properties of \<^verbatim>\<open>Input\<close> that rest on them.
\<close>

section \<open>The steps outside the loop\<close>

lemma updateRTO_frame: "\<exists>a b c. updateRTO rtt r = r\<lparr>rxSRTT := a, rxRTTVal := b, rxRTO := c\<rparr>"
proof -
  have "\<exists>a b. (if rxRTTVal r = 0
              then r\<lparr>rxSRTT := rtt, rxRTTVal := signed_drop_bit 1 rtt\<rparr>
              else
                let delta = rxSRTT r - rtt;
                    delta = (if sint delta < 0 then - delta else delta);
                    r = r\<lparr>rxRTTVal := i32_div (3 * rxRTTVal r + delta) 4\<rparr>;
                    r = r\<lparr>rxSRTT := i32_div (7 * rxSRTT r + rtt) 8\<rparr>
                in if sint (rxSRTT r) < 1 then r\<lparr>rxSRTT := 1\<rparr> else r) = r\<lparr>rxSRTT := a, rxRTTVal := b\<rparr>"
    (is "\<exists>a b. ?q = _")
    by (rule exI [of _ "rxSRTT ?q"], rule exI [of _ "rxRTTVal ?q"]) (simp add: Let_def)
  then obtain a b where ab: "?q = r\<lparr>rxSRTT := a, rxRTTVal := b\<rparr>" by blast
  show ?thesis
    unfolding updateRTO_def ab by (auto simp: Let_def)
qed

lemma u32_div_Some [simp]: "b \<noteq> 0 \<Longrightarrow> u32_div a b = Some (a div b)"
  by (simp add: u32_div_def)

text \<open>Updates of the two congestion variables only.\<close>

definition cwnd_only :: "RUDP \<Rightarrow> RUDP \<Rightarrow> bool" where
  "cwnd_only r r' \<longleftrightarrow> (\<exists>a b. r' = r\<lparr>cwnd := a, incr := b\<rparr>)"

lemma cwnd_only_intros [intro]:
  "cwnd_only r r" "cwnd_only r r' \<Longrightarrow> cwnd_only r (r'\<lparr>cwnd := x\<rparr>)" "cwnd_only r r' \<Longrightarrow> cwnd_only r (r'\<lparr>incr := y\<rparr>)"
proof -
  have "r = r\<lparr>cwnd := cwnd r, incr := incr r\<rparr>" by simp
  then show "cwnd_only r r" unfolding cwnd_only_def by blast
  show "cwnd_only r (r'\<lparr>cwnd := x\<rparr>)" "cwnd_only r (r'\<lparr>incr := y\<rparr>)" if only: "cwnd_only r r'"
  proof -
    from only obtain a b where r': "r' = r\<lparr>cwnd := a, incr := b\<rparr>" by (auto simp: cwnd_only_def)
    then have "r'\<lparr>cwnd := x\<rparr> = r\<lparr>cwnd := x, incr := b\<rparr>" "r'\<lparr>incr := y\<rparr> = r\<lparr>cwnd := a, incr := y\<rparr>" by simp_all
    then show "cwnd_only r (r'\<lparr>cwnd := x\<rparr>)" "cwnd_only r (r'\<lparr>incr := y\<rparr>)"
      unfolding cwnd_only_def by blast+
  qed
qed

lemma congestion_avoidance_total_frame:
  assumes "mss r \<noteq> 0"
  shows "\<exists>r'. congestion_avoidance r = Some r' \<and> cwnd_only r r'"
proof -
  define r1 where "r1 = (if incr r < mss r then r\<lparr>incr := mss r\<rparr> else r)"
  have 1: "incr r1 \<noteq> 0" "0 < mss r" "cwnd_only r r1" using assms by (auto simp: r1_def word_gt_0)
  define x where "x = incr r1 + (mss r * mss r div incr r1 + mss r div 16)"
  define r2 where "r2 = r1\<lparr>incr := x\<rparr>"
  have 2: "cwnd_only r r2" using 1(3) by (auto simp: r2_def)
  have "congestion_avoidance r =
      (if (cwnd r2 + 1) * mss r \<le> incr r2 then Some (r2\<lparr>cwnd := (incr r2 + mss r - 1) div mss r\<rparr>) else Some r2)"
    unfolding congestion_avoidance_def Let_def r1_def [symmetric]
    by (simp only: u32_div_Some [OF 1(1)] u32_div_Some [OF assms] bind.bind_lunit 1(2) if_True
        x_def [symmetric] r2_def [symmetric])
  then show ?thesis using 2 by (simp only: if_split) blast
qed

lemma grow_cwnd_total_frame:
  assumes "mss r \<noteq> 0"
  shows "\<exists>r'. grow_cwnd old r = Some r' \<and> cwnd_only r r'"
proof -
  define m where "m = (if cwnd r < ssthresh r then Some (r\<lparr>cwnd := cwnd r + 1, incr := incr r + mss r\<rparr>)
      else congestion_avoidance r)"
  obtain q where q: "m = Some q" "cwnd_only r q"
    using congestion_avoidance_total_frame [OF assms] unfolding m_def by (cases "cwnd r < ssthresh r") auto
  show ?thesis
    unfolding grow_cwnd_def m_def [symmetric] q(1) using q(2) by (auto simp: Let_def)
qed

lemma grow_cwnd_total: "mss r \<noteq> 0 \<Longrightarrow> \<exists>r'. grow_cwnd old r = Some r'"
  using grow_cwnd_total_frame by blast

lemma grow_cwnd_frame: "mss r \<noteq> 0 \<Longrightarrow> grow_cwnd old r = Some r' \<Longrightarrow> \<exists>a b. r' = r\<lparr>cwnd := a, incr := b\<rparr>"
  using grow_cwnd_total_frame [of r old] by (auto simp: cwnd_only_def)

lemma flush_keeps:
  assumes "sizes_ok r" "fits_mss r" "flush ackOnly r w = Some (v, r', w')"
  shows "sizes_ok r' \<and> fits_mss r' \<and> (snd_inv r \<longrightarrow> snd_inv r') \<and> flush_frame r r'"
  using flush_total_keeps [OF assms(1,2), of ackOnly w] assms(3) by auto

lemma fits_mss_sub:
  "fits_mss r \<Longrightarrow> mss r' = mss r \<Longrightarrow> sndQueue r' = sndQueue r \<Longrightarrow>
   \<forall>s \<in> set (sndBuf r'). seg_data s = [] \<or> (\<exists>t \<in> set (sndBuf r). seg_data s = seg_data t) \<Longrightarrow> fits_mss r'"
  by (fastforce simp: fits_mss_def)

lemma ack_una_frame: "\<exists>n u. ack_una una r = r\<lparr>sndBuf := drop n (sndBuf r), sndUna := u\<rparr>"
proof -
  have "snd (parseUna una r) = r\<lparr>sndBuf := drop (una_count una (sndBuf r)) (sndBuf r)\<rparr>"
    by (cases "una_count una (sndBuf r) = 0") (simp_all add: parseUna_def removeFront_def Let_def)
  then have "ack_una una r = r\<lparr>sndBuf := drop (una_count una (sndBuf r)) (sndBuf r), sndUna := sndUna (ack_una una r)\<rparr>"
    by (simp add: ack_una_def updateSndUna_def)
  then show ?thesis by blast
qed

lemma set_ack_loop: "s \<in> set (ack_loop sn q) \<Longrightarrow> seg_data s = [] \<or> (\<exists>t \<in> set q. seg_data s = seg_data t)"
  by (induction q) (auto simp: delSegment_def split: if_splits)

lemma set_fastack_loop: "s \<in> set (fastack_loop sn ts q) \<Longrightarrow> \<exists>t \<in> set q. seg_data s = seg_data t"
  by (induction q) (auto split: if_splits)

lemma parse_acks_frame:
  "\<exists>b. parseFastAck sn ts (parseAck sn r) = r\<lparr>sndBuf := b\<rparr> \<and>
     (\<forall>s \<in> set b. seg_data s = [] \<or> (\<exists>t \<in> set (sndBuf r). seg_data s = seg_data t))"
proof (cases "sn < sndUna r \<or> sn \<ge> sndNxt r")
  case True
  then show ?thesis by (intro exI [of _ "sndBuf r"]) (auto simp: parseAck_def parseFastAck_def)
next
  case False
  have "seg_data s = [] \<or> (\<exists>t \<in> set (sndBuf r). seg_data s = seg_data t)"
    if "s \<in> set (fastack_loop sn ts (ack_loop sn (sndBuf r)))" for s
    using set_fastack_loop [OF that] set_ack_loop by metis
  then show ?thesis using False
    by (intro exI [of _ "fastack_loop sn ts (ack_loop sn (sndBuf r))"]) (auto simp: parseAck_def parseFastAck_def)
qed

section \<open>The sizes and the sending half\<close>

text \<open>
  \<open>sender_ok\<close>: the sizes are consistent, every payload fits a packet, and \<^verbatim>\<open>sndBuf\<close> is the run
  of numbers from \<^verbatim>\<open>sndUna\<close> up to \<^verbatim>\<open>sndNxt\<close>.
\<close>

definition sender_ok :: "RUDP \<Rightarrow> bool" where
  "sender_ok r \<longleftrightarrow> sizes_ok r \<and> fits_mss r \<and> snd_inv r"

lemma sender_ok_cong:
  "sender_ok r \<Longrightarrow> mss r' = mss r \<Longrightarrow> mtu r' = mtu r \<Longrightarrow> reserved r' = reserved r \<Longrightarrow> rudp_buffer r' = rudp_buffer r \<Longrightarrow>
   sndQueue r' = sndQueue r \<Longrightarrow> sndBuf r' = sndBuf r \<Longrightarrow> sndUna r' = sndUna r \<Longrightarrow> sndNxt r' = sndNxt r \<Longrightarrow> sender_ok r'"
  by (simp add: sender_ok_def sizes_ok_def fits_mss_def snd_inv_def)

lemma sender_ok_mss: "sender_ok r \<Longrightarrow> mss r \<noteq> 0"
  by (auto simp: sender_ok_def sizes_ok_def)

interpretation sender: total_contract "\<lambda>r _. sender_ok r" "\<lambda>_ body. length body \<le> mtuLimit"
proof
  fix r u sn ts h body conv b r' old ackOnly w v w' rtt x y
  show "sender_ok r \<Longrightarrow> sender_ok (r\<lparr>rmtWnd := x\<rparr>)"
    by (erule sender_ok_cong) simp_all
  show "sender_ok r \<Longrightarrow> sender_ok (r\<lparr>probe := y\<rparr>)"
    by (erule sender_ok_cong) simp_all
  show "sender_ok r \<Longrightarrow> sender_ok (pushAck sn ts r)"
    by (erule sender_ok_cong) (simp_all add: pushAck_def)
  show "sender_ok r \<Longrightarrow> sender_ok (ack_una u r)"
    using ack_una_frame [of u r] snd_inv_ack_una [of r u]
    by (auto simp: sender_ok_def sizes_ok_def fits_mss_def dest!: in_set_dropD)
  show "sender_ok r \<Longrightarrow> sender_ok (parseFastAck sn ts (parseAck sn r))"
    using parse_acks_frame [of sn ts r] snd_inv_parseFastAck [OF snd_inv_parseAck, of r]
    by (auto simp: sender_ok_def sizes_ok_def elim!: fits_mss_sub)
  show "sender_ok r \<Longrightarrow> parseData (push_segment conv h body) r = Some (b, r') \<Longrightarrow> sender_ok r'"
    by (drule parseData_frame) (auto elim!: sender_ok_cong)
  show "sender_ok r \<Longrightarrow> sender_ok (updateRTO rtt r)"
    using updateRTO_frame [of rtt r] by (auto elim!: sender_ok_cong)
  show "sender_ok r \<Longrightarrow> grow_cwnd old r = Some r' \<Longrightarrow> sender_ok r'"
    by (frule sender_ok_mss, drule (1) grow_cwnd_frame) (auto elim!: sender_ok_cong)
  show "sender_ok r \<Longrightarrow> flush ackOnly r w = Some (v, r', w') \<Longrightarrow> sender_ok r'"
    using flush_keeps [of r ackOnly w v r' w'] by (auto simp: sender_ok_def)
  show "sender_ok r \<Longrightarrow> length body \<le> mtuLimit \<Longrightarrow> parseData (push_segment conv h body) r \<noteq> None"
    using parseData_total [of "push_segment conv h body" r] by (auto simp: push_segment_def)
  show "sender_ok r \<Longrightarrow> grow_cwnd old r \<noteq> None"
    using grow_cwnd_total [of r old] by (auto simp: sender_ok_def sizes_ok_def)
  show "sender_ok r \<Longrightarrow> flush ackOnly r w \<noteq> None"
    using flush_total_keeps [of r ackOnly w] by (auto simp: sender_ok_def)
qed

section \<open>Properties\<close>

text \<open>
  Claim C8. \<^verbatim>\<open>Input\<close> survives every packet: for any bytes a UDP read of 1500 bytes can deliver,
  also adversarial ones, it returns one of its four result codes, keeps the sizes consistent
  and keeps \<^verbatim>\<open>sndBuf\<close> the run of numbers from \<^verbatim>\<open>sndUna\<close> up to \<^verbatim>\<open>sndNxt\<close>.
\<close>

theorem Input_never_panics:
  assumes "sizes_ok r" and "fits_mss r" and "snd_inv r" and "length data \<le> mtuLimit"
  shows "\<exists>c r' w'. Input data regular ackNoDelay r w = Some (c, r', w') \<and> c \<in> {0, -1, -2, -3} \<and>
    sizes_ok r' \<and> fits_mss r' \<and> snd_inv r'"
proof -
  have ok: "sender_ok r" using assms(1-3) by (simp add: sender_ok_def)
  have "\<forall>(h, body) \<in> set (snd (parse_packet (rudp_conv r) data)). length body \<le> mtuLimit"
    using assms(4) parse_lengths [of _ _ "rudp_conv r" data] by fastforce
  from sender.Input_total [OF ok this, of regular ackNoDelay w] show ?thesis
    using parse_codes [of "rudp_conv r" data] by (auto simp: sender_ok_def)
qed

theorem Input_never_panics_witness:
  "\<exists>c r' w'. Input [1, 2, 3] True False (NewRudp 7) (new_world []) = Some (c, r', w') \<and> snd_inv r'"
proof -
  have "fits_mss (NewRudp 7)" "snd_inv (NewRudp 7)"
    by (simp_all add: fits_mss_def snd_inv_def NewRudp_def zero_RUDP_def)
  then show ?thesis
    using Input_never_panics [OF sizes_ok_NewRudp, of 7 "[1, 2, 3]" True False "new_world []"] by auto
qed

text \<open>Segments written one after the other, as \<^verbatim>\<open>flush\<close> does between two calls of \<^verbatim>\<open>makeSpace\<close>.\<close>

fun encode_segments :: "segment list \<Rightarrow> cursor \<Rightarrow> world \<Rightarrow> (cursor \<times> world) option" where
  "encode_segments [] ptr w = Some (ptr, w)"
| "encode_segments (s # es) ptr w =
    do {
      (ptr, w) \<leftarrow> encodeOverHead s ptr w;
      ptr \<leftarrow> encodeData s ptr;
      encode_segments es ptr w
    }"

lemma encode_segments_Cons:
  "encode_segments (s # es) c w =
    do { c \<leftarrow> put_bytes c (seg_wire s); encode_segments es c (AddUint64 OutSegs_update 1 w) }"
  by (simp add: encodeOverHead_put encodeData_def seg_wire_def flip: put_bytes_append split: bind_splits)

lemma encode_segments_put: "p \<le> length b \<Longrightarrow> map_option fst (encode_segments es (b, p) w) = put_bytes (b, p) (wires es)"
proof (induction es arbitrary: b p w)
  case Nil
  then show ?case by (simp add: put_bytes_def)
next
  case (Cons s es)
  have all: "put_bytes (b, p) (wires (s # es)) = Option.bind (put_bytes (b, p) (seg_wire s)) (\<lambda>c. put_bytes c (wires es))"
    by (simp add: put_bytes_append)
  show ?case
  proof (cases "put_bytes (b, p) (seg_wire s)")
    case None
    then show ?thesis unfolding all encode_segments_Cons by simp
  next
    case (Some c)
    obtain b1 p1 where c: "c = (b1, p1)" by (cases c)
    then have "p1 \<le> length b1" using Some by (auto simp: put_bytes_Some)
    from Cons.IH [OF this] show ?thesis unfolding all encode_segments_Cons Some c by simp
  qed
qed

lemma length_wires: "length (wires es) = sum_list (map (\<lambda>s. 24 + length (seg_data s)) es)"
  by (induction es) (simp_all add: length_seg_wire)

text \<open>
  Claim C9. Encoding and decoding agree: segments of the connection with legal commands, written
  one after the other with \<^verbatim>\<open>encodeOverHead\<close> and \<^verbatim>\<open>encodeData\<close> into a buffer with room for them,
  fill exactly 24 bytes and their data each, and on those bytes the loop of \<^verbatim>\<open>Input\<close> runs to its
  end and treats exactly those headers and payloads, in order. Without room the encoders panic.
\<close>

theorem packet_roundtrip:
  assumes "\<forall>s \<in> set es. seg_conv s = rudp_conv r \<and> legal_cmd (seg_cmd s) \<and> length (seg_data s) < 2 ^ 32"
    and "n = sum_list (map (\<lambda>s. 24 + length (seg_data s)) es)"
  shows "if n \<le> length buf
    then \<exists>buf' w1. encode_segments es (buf, 0) w0 = Some ((buf', n), w1) \<and> length buf' = length buf \<and>
      input_loop regular (take n buf') iv r w =
        do { (iv, r, w) \<leftarrow> input_segments regular (rudp_conv r) (map (\<lambda>s. (header_of s, seg_data s)) es) iv r w;
             Some (Inr iv, r, w) }
    else encode_segments es (buf, 0) w0 = None"
proof -
  have n: "n = length (wires es)" by (simp add: assms(2) length_wires)
  note put = encode_segments_put [of 0 buf es w0, simplified]
  show ?thesis
  proof (cases "n \<le> length buf")
    case True
    then have "put_bytes (buf, 0) (wires es) = Some (wires es @ drop n buf, n)" by (simp add: put_bytes_Some n)
    then obtain w1 where enc: "encode_segments es (buf, 0) w0 = Some ((wires es @ drop n buf, n), w1)"
      using put by (cases "encode_segments es (buf, 0) w0") auto
    have "parse_packet (rudp_conv r) (wires es) = (0, map (\<lambda>s. (header_of s, seg_data s)) es)"
      using assms(1) by (intro parse_wires) (auto simp: sendable_def)
    moreover have "take n (wires es @ drop n buf) = wires es" by (simp add: n)
    ultimately show ?thesis using True enc n by (simp add: input_loop_parse)
  next
    case False
    then have "put_bytes (buf, 0) (wires es) = None" by (simp add: put_bytes_def n)
    then show ?thesis using put False by simp
  qed
qed

text \<open>A segment with two bytes and a window question, written into a buffer of 60 bytes.\<close>

definition demo_segments :: "segment list" where
  "demo_segments = [zero_segment\<lparr>seg_conv := 7, seg_cmd := IRUDP_CMD_PUSH, seg_data := [5, 6]\<rparr>,
     zero_segment\<lparr>seg_conv := 7, seg_cmd := IRUDP_CMD_WASK\<rparr>]"

theorem packet_roundtrip_witness:
  "\<exists>buf' w1 iv r' w'. encode_segments demo_segments (replicate 60 0, 0) (new_world []) = Some ((buf', 50), w1) \<and>
     input_loop True (take 50 buf') iv_start (NewRudp 7) (new_world []) = Some (Inr iv, r', w') \<and>
     probe r' = IRUDP_ASK_TELL \<and> map seg_data (rcvQueue r') = [[5, 6]]"
proof -
  have conv: "rudp_conv (NewRudp 7) = 7" by (simp add: NewRudp_def zero_RUDP_def)
  have "\<forall>s \<in> set demo_segments. seg_conv s = rudp_conv (NewRudp 7) \<and> legal_cmd (seg_cmd s) \<and> length (seg_data s) < 2 ^ 32"
    by (simp add: demo_segments_def conv legal_cmd_def zero_segment_def)
  moreover have "50 = sum_list (map (\<lambda>s. 24 + length (seg_data s)) demo_segments)"
    by (simp add: demo_segments_def zero_segment_def)
  ultimately obtain buf' w1 where 1: "encode_segments demo_segments (replicate 60 0, 0) (new_world []) = Some ((buf', 50), w1)"
    "input_loop True (take 50 buf') iv_start (NewRudp 7) (new_world []) =
        do { (iv, r, w) \<leftarrow> input_segments True 7 (map (\<lambda>s. (header_of s, seg_data s)) demo_segments) iv_start (NewRudp 7) (new_world []);
             Some (Inr iv, r, w) }"
    using packet_roundtrip [of demo_segments "NewRudp 7" 50 "replicate 60 0" "new_world []" True iv_start "new_world []"]
    by (auto simp: conv)
  have "map_option (\<lambda>(iv, r, w). probe r = IRUDP_ASK_TELL \<and> map seg_data (rcvQueue r) = [[5, 6]])
      (input_segments True 7 (map (\<lambda>s. (header_of s, seg_data s)) demo_segments) iv_start (NewRudp 7) (new_world [])) = Some True"
    by code_simp
  then show ?thesis using 1 by (auto simp: bind_eq_Some_conv)
qed

section \<open>The growth of the congestion window\<close>






end
