(* ===== verification/Session_Tx.thy ===== *)
theory Session_Tx
  imports Rudp_Connection
begin

text \<open>
  The session of \<^verbatim>\<open>sess.go\<close>, the socket it writes to, and its transmission queue:
  \<^verbatim>\<open>output\<close>, \<^verbatim>\<open>uncork\<close>, and the two transmission routines of \<^verbatim>\<open>tx.go\<close> and \<^verbatim>\<open>tx_linux.go\<close>.
\<close>

section \<open>The surroundings of a session\<close>

type_synonym addr = string \<comment> \<open>a \<^verbatim>\<open>net.Addr\<close>, as its \<^verbatim>\<open>String()\<close>\<close>
type_synonym datagram = "u8 list \<times> addr"

text \<open>
  The errors of the socket as the code tells them apart: a \<^verbatim>\<open>*net.OpError\<close> around an
  \<^verbatim>\<open>*os.SyscallError\<close> with the name of the call, or any other error.
\<close>

datatype sock_error = OpSyscall string | OtherError string

datatype rudp_error = errTimeout | ErrClosedPipe | errInvalidOperation | SocketError sock_error

text \<open>
  \<open>h_writes\<close> and \<open>h_batches\<close> give the results of the coming calls of \<^verbatim>\<open>WriteTo\<close> and
  \<^verbatim>\<open>WriteBatch\<close>, the latter depending on the number of messages offered; each call consumes
  one. \<open>h_sent\<close> lists the datagrams the socket has accepted, \<open>h_puts\<close> the deadlines at which
  the scheduler was asked to call \<^verbatim>\<open>update\<close>.
\<close>

record host =
  h_world :: world
  h_writes :: "nat \<Rightarrow> sock_error + nat"
  h_batches :: "nat \<Rightarrow> nat \<Rightarrow> sock_error + nat"
  h_sent :: "datagram list"
  h_puts :: "int list"

definition add_stat :: "((u64 \<Rightarrow> u64) \<Rightarrow> Snmp \<Rightarrow> Snmp) \<Rightarrow> u64 \<Rightarrow> host \<Rightarrow> host" where
  "add_stat upd n h = h\<lparr>h_world := AddUint64 upd n (h_world h)\<rparr>"

definition WriteTo :: "datagram \<Rightarrow> host \<Rightarrow> (sock_error + nat) \<times> host" where
  "WriteTo d h =
    (let res = h_writes h 0; h = h\<lparr>h_writes := \<lambda>i. h_writes h (Suc i)\<rparr>
     in (res, case res of Inl _ \<Rightarrow> h | Inr _ \<Rightarrow> h\<lparr>h_sent := h_sent h @ [d]\<rparr>))"

definition WriteBatch :: "datagram list \<Rightarrow> host \<Rightarrow> (sock_error + nat) \<times> host" where
  "WriteBatch ms h =
    (let res = h_batches h 0 (length ms); h = h\<lparr>h_batches := \<lambda>i. h_batches h (Suc i)\<rparr>
     in (res, case res of Inl _ \<Rightarrow> h | Inr n \<Rightarrow> h\<lparr>h_sent := h_sent h @ take n ms\<rparr>))"

section \<open>The session\<close>

text \<open>
  \<open>s_listener\<close>, \<open>s_block\<close> and \<open>s_xconn\<close> say whether the pointer or interface is set. A
  channel with one slot is a bool, a channel that is only ever closed too; the two error
  channels are closed exactly when their error is set. \<open>s_rcvBuf\<close> is the whole backing array.
  A deadline is \<^term>\<open>None\<close> for the zero time.
\<close>

record UDPSession =
  s_ownConn :: bool
  s_rudp :: RUDP
  s_listener :: bool
  s_block :: bool
  s_rcvBuf :: "u8 list"
  s_bufPtr :: "u8 list"
  s_remote :: addr
  readDdl :: "int option"
  writeDdl :: "int option"
  headerSize :: nat
  s_ackNoDelay :: bool
  writeDelay :: bool
  s_dup :: int
  s_die :: bool
  chReadEvent :: bool
  chWriteEvent :: bool
  socketReadError :: "sock_error option"
  socketWriteError :: "sock_error option"
  txqueue :: "datagram list"
  s_xconn :: bool
  xconnWriteError :: "sock_error option"

text \<open>The send, receive and remote windows leave room for another segment.\<close>

definition can_send :: "RUDP \<Rightarrow> bool" where
  "can_send r \<longleftrightarrow> WaitSnd r < unat (sndWnd r) \<and> WaitSnd r < unat (rmtWnd r)"

definition notifyReadEvent :: "UDPSession \<Rightarrow> UDPSession" where
  "notifyReadEvent s = s\<lparr>chReadEvent := True\<rparr>"

definition notifyWriteEvent :: "UDPSession \<Rightarrow> UDPSession" where
  "notifyWriteEvent s = s\<lparr>chWriteEvent := True\<rparr>"

text \<open>\<^verbatim>\<open>socketReadErrorOnce.Do\<close>: only the first error is kept.\<close>

definition notifyReadError :: "sock_error \<Rightarrow> UDPSession \<Rightarrow> UDPSession" where
  "notifyReadError err s = (if socketReadError s = None then s\<lparr>socketReadError := Some err\<rparr> else s)"

definition notifyWriteError :: "sock_error \<Rightarrow> UDPSession \<Rightarrow> UDPSession" where
  "notifyWriteError err s = (if socketWriteError s = None then s\<lparr>socketWriteError := Some err\<rparr> else s)"

section \<open>output\<close>

text \<open>Buffers of the pool have room for \<^verbatim>\<open>mtuLimit\<close> bytes; a longer packet panics.\<close>

definition sess_output :: "u8 list \<Rightarrow> UDPSession \<Rightarrow> UDPSession option" where
  "sess_output buf s = (if length buf \<le> mtuLimit then Some (s\<lparr>txqueue := txqueue s @ [(buf, s_remote s)]\<rparr>) else None)"

text \<open>
  The callback \<^verbatim>\<open>newUDPSession\<close> gives to \<^verbatim>\<open>NewRudp\<close>, on all calls of an engine operation;
  \<^verbatim>\<open>buf[:size]\<close> panics beyond the buffer.
\<close>

fun output_calls :: "(u8 list \<times> nat) list \<Rightarrow> UDPSession \<Rightarrow> UDPSession option" where
  "output_calls [] s = Some s"
| "output_calls ((buf, sz) # q) s =
    do {
      s \<leftarrow> (if sz \<ge> IRUDP_OVERHEAD + headerSize s then if sz \<le> length buf then sess_output (take sz buf) s else None
            else Some s);
      output_calls q s
    }"

text \<open>An operation of the session's engine, with the output calls it makes.\<close>

definition engine :: "(RUDP \<Rightarrow> world \<Rightarrow> ('a \<times> RUDP \<times> world) option) \<Rightarrow> UDPSession \<Rightarrow> host \<Rightarrow> ('a \<times> UDPSession \<times> host) option" where
  "engine f s h =
    do {
      (v, r, w) \<leftarrow> f (s_rudp s) (h_world h);
      s \<leftarrow> output_calls (drop (length (out_calls (h_world h))) (out_calls w)) (s\<lparr>s_rudp := r\<rparr>);
      Some (v, s, h\<lparr>h_world := w\<rparr>)
    }"

section \<open>Transmission\<close>

text \<open>
  \<^verbatim>\<open>defaultTx\<close>: the loop runs over the indices of its parameter but reads \<^verbatim>\<open>s.txqueue\<close>; the
  first argument is the number of indices left. The two sums go to the wrong counters.
\<close>

fun default_loop :: "nat \<Rightarrow> nat \<Rightarrow> nat \<Rightarrow> nat \<Rightarrow> UDPSession \<Rightarrow> host \<Rightarrow> (nat \<times> nat \<times> UDPSession \<times> host) option" where
  "default_loop 0 i byteCount pkgCount s h = Some (byteCount, pkgCount, s, h)"
| "default_loop (Suc k) i byteCount pkgCount s h =
    (if i \<ge> length (txqueue s) then None
     else case WriteTo (txqueue s ! i) h of
       (Inr n, h) \<Rightarrow> default_loop k (i + 1) (byteCount + n) (pkgCount + 1) s h
     | (Inl err, h) \<Rightarrow> Some (byteCount, pkgCount, notifyWriteError err s, h))"

definition defaultTx :: "datagram list \<Rightarrow> UDPSession \<Rightarrow> host \<Rightarrow> (UDPSession \<times> host) option" where
  "defaultTx q s h =
    do {
      (byteCount, pkgCount, s, h) \<leftarrow> default_loop (length q) 0 0 0 s h;
      let h = add_stat OutPkts_update (of_nat byteCount) h;
      Some (s, add_stat OutBytes_update (of_nat pkgCount) h)
    }"

text \<open>
  The batch loop of \<^verbatim>\<open>tx\<close>. It does not return (\<^term>\<open>None\<close>) when \<^verbatim>\<open>WriteBatch\<close> keeps reporting
  0 messages without an error, and panics when it reports too many.
\<close>

partial_function (option) tx_loop ::
    "datagram list \<Rightarrow> nat \<Rightarrow> nat \<Rightarrow> UDPSession \<Rightarrow> host \<Rightarrow> (UDPSession \<times> host) option" where
  "tx_loop q nbytes npkts s h =
    (if q = [] then Some (s, add_stat OutBytes_update (of_nat nbytes) (add_stat OutPkts_update (of_nat npkts) h))
     else case WriteBatch q h of
       (Inr n, h) \<Rightarrow>
         if n > length q then None
         else tx_loop (drop n q) (nbytes + sum_list (map (length \<circ> fst) (take n q))) (npkts + n) s h
     | (Inl err, h) \<Rightarrow>
         if err = OpSyscall ''sendmmsg''
         then defaultTx q (s\<lparr>xconnWriteError := Some err\<rparr>) h
         else Some (notifyWriteError err s,
                add_stat OutBytes_update (of_nat nbytes) (add_stat OutPkts_update (of_nat npkts) h)))"

definition tx :: "datagram list \<Rightarrow> UDPSession \<Rightarrow> host \<Rightarrow> (UDPSession \<times> host) option" where
  "tx q s h =
    (if \<not> s_xconn s \<or> xconnWriteError s \<noteq> None then defaultTx q s h else tx_loop q 0 0 s h)"

definition uncork :: "UDPSession \<Rightarrow> host \<Rightarrow> (UDPSession \<times> host) option" where
  "uncork s h =
    (if txqueue s \<noteq> []
     then do { (s, h) \<leftarrow> tx (txqueue s) s h; Some (s\<lparr>txqueue := []\<rparr>, h) }
     else Some (s, h))"

end
