(* ===== verification/Session.thy ===== *)
theory Session
  imports Session_Tx
begin

text \<open>
  The operations of \<^verbatim>\<open>UDPSession\<close> in \<^verbatim>\<open>sess.go\<close> and the read loops of \<^verbatim>\<open>readloop.go\<close> and
  \<^verbatim>\<open>readloop_linux.go\<close>. Each locked region is one step. \<^verbatim>\<open>Read\<close> and \<^verbatim>\<open>WriteBuffers\<close> loop
  over a poll under the lock and a \<^verbatim>\<open>select\<close> outside it; the two halves are definitions of
  their own, and readings of the clock are arguments (\<open>now\<close>, \<open>now'\<close>).
\<close>

section \<open>Creation\<close>

definition newUDPSession ::
    "u32 \<Rightarrow> bool \<Rightarrow> bool \<Rightarrow> bool \<Rightarrow> addr \<Rightarrow> bool \<Rightarrow> int \<Rightarrow> host \<Rightarrow> UDPSession \<times> host" where
  "newUDPSession conv block listener ownConn raddr xconn now h =
    (let s = \<lparr>s_ownConn = ownConn, s_rudp = zero_RUDP, s_listener = listener, s_block = block,
           s_rcvBuf = replicate mtuLimit 0, s_bufPtr = [], s_remote = raddr, readDdl = None, writeDdl = None,
           headerSize = 0, s_ackNoDelay = False, writeDelay = False, s_dup = 0, s_die = False,
           chReadEvent = False, chWriteEvent = False, socketReadError = None, socketWriteError = None,
           txqueue = [], s_xconn = xconn, xconnWriteError = None\<rparr>;
         s = (if s_block s then s\<lparr>headerSize := headerSize s + cryptHeaderSize\<rparr> else s);
         s = s\<lparr>s_rudp := NewRudp conv\<rparr>;
         s = s\<lparr>s_rudp := snd (ReserveBytes (int (headerSize s)) (s_rudp s))\<rparr>;
         h = (if \<not> s_listener s then add_stat ActiveOpens_update 1 h else add_stat PassiveOpens_update 1 h);
         h = h\<lparr>h_puts := h_puts h @ [now]\<rparr>;
         h = add_stat CurrEstab_update 1 h;
         currestab = CurrEstab (DefaultSnmp (h_world h));
         maxconn = MaxConn (DefaultSnmp (h_world h));
         h = (if currestab > maxconn
              then h\<lparr>h_world := (h_world h)\<lparr>DefaultSnmp := (DefaultSnmp (h_world h))\<lparr>MaxConn := currestab\<rparr>\<rparr>\<rparr>
              else h)
     in (s, h))"

section \<open>Reading\<close>

text \<open>A poll is done with a number of bytes, fails, or goes on to wait, with the timer's delay.\<close>

datatype io_result = Done nat | Failed rudp_error | Wait "int option"

definition deadline_wait :: "int option \<Rightarrow> int \<Rightarrow> int \<Rightarrow> io_result" where
  "deadline_wait ddl now now' = (case ddl of
     None \<Rightarrow> Wait None
   | Some d \<Rightarrow> if now > d then Failed errTimeout else Wait (Some (d - now')))"

text \<open>The part of \<^verbatim>\<open>Read\<close> up to the \<^verbatim>\<open>select\<close>; the result includes the caller's buffer.\<close>

definition Read_poll ::
    "u8 list \<Rightarrow> int \<Rightarrow> int \<Rightarrow> UDPSession \<Rightarrow> host \<Rightarrow> (io_result \<times> u8 list \<times> UDPSession \<times> host) option" where
  "Read_poll b now now' s h =
    (if s_bufPtr s \<noteq> []
     then
       let n = min (length b) (length (s_bufPtr s));
           b = copy_into b (s_bufPtr s);
           s = s\<lparr>s_bufPtr := drop n (s_bufPtr s)\<rparr>
       in Some (Done n, b, s, add_stat BytesReceived_update (of_nat n) h)
     else if peekSize (s_rudp s) > 0
     then
       let sz = nat (peekSize (s_rudp s))
       in if length b \<ge> sz
          then do {
            (_, b, r) \<leftarrow> Receive b (s_rudp s);
            Some (Done sz, b, s\<lparr>s_rudp := r\<rparr>, add_stat BytesReceived_update (of_nat sz) h)
          }
          else do {
            let buf = (if length (s_rcvBuf s) < sz then replicate sz 0 else s_rcvBuf s);
            (_, front, r) \<leftarrow> Receive (take sz buf) (s_rudp s);
            let n = min (length b) (length front);
            let b = copy_into b front;
            let s = s\<lparr>s_rudp := r, s_rcvBuf := front @ drop sz buf, s_bufPtr := drop n front\<rparr>;
            Some (Done n, b, s, add_stat BytesReceived_update (of_nat n) h)
          }
     else Some (deadline_wait (readDdl s) now now', b, s, h))"

text \<open>
  The cases of the \<^verbatim>\<open>select\<close> statements: which are ready (\<open>fired\<close> is the timer), and what
  a case does; \<^term>\<open>None\<close> goes round the loop again.
\<close>

datatype select_case = EventCase | TimerCase | ErrorCase | DieCase

definition read_ready :: "bool \<Rightarrow> UDPSession \<Rightarrow> select_case \<Rightarrow> bool" where
  "read_ready fired s c = (case c of
     EventCase \<Rightarrow> chReadEvent s | TimerCase \<Rightarrow> fired | ErrorCase \<Rightarrow> socketReadError s \<noteq> None | DieCase \<Rightarrow> s_die s)"

definition read_select :: "select_case \<Rightarrow> UDPSession \<Rightarrow> rudp_error option \<times> UDPSession" where
  "read_select c s = (case c of
     EventCase \<Rightarrow> (None, s\<lparr>chReadEvent := False\<rparr>)
   | TimerCase \<Rightarrow> (Some errTimeout, s)
   | ErrorCase \<Rightarrow> (Some (SocketError (the (socketReadError s))), s)
   | DieCase \<Rightarrow> (Some ErrClosedPipe, s))"

section \<open>Writing\<close>

text \<open>
  Cutting one buffer at \<^verbatim>\<open>mss\<close>; the results of \<^verbatim>\<open>Send\<close> are ignored. With \<^verbatim>\<open>mss = 0\<close> and a
  non-empty buffer the loop never ends (\<^term>\<open>None\<close>).
\<close>

partial_function (option) write_buf :: "u8 list \<Rightarrow> RUDP \<Rightarrow> RUDP option" where
  "write_buf buf r =
    (if length buf \<le> unat (mss r)
     then do { (_, r) \<leftarrow> Send buf r; Some r }
     else do {
       (_, r) \<leftarrow> Send (take (unat (mss r)) buf) r;
       write_buf (drop (unat (mss r)) buf) r
     })"

fun write_bufs :: "u8 list list \<Rightarrow> nat \<Rightarrow> RUDP \<Rightarrow> (nat \<times> RUDP) option" where
  "write_bufs [] n r = Some (n, r)"
| "write_bufs (buf # buffers) n r =
    do { r \<leftarrow> write_buf buf r; write_bufs buffers (n + length buf) r }"

text \<open>
  The two \<^verbatim>\<open>select\<close> statements of \<^verbatim>\<open>WriteBuffers\<close>; the one at the head of the loop has the
  cases \<^const>\<open>ErrorCase\<close> and \<^const>\<open>DieCase\<close> and goes on when neither is ready.
\<close>

definition write_ready :: "bool \<Rightarrow> UDPSession \<Rightarrow> select_case \<Rightarrow> bool" where
  "write_ready fired s c = (case c of
     EventCase \<Rightarrow> chWriteEvent s | TimerCase \<Rightarrow> fired | ErrorCase \<Rightarrow> socketWriteError s \<noteq> None | DieCase \<Rightarrow> s_die s)"

definition write_select :: "select_case \<Rightarrow> UDPSession \<Rightarrow> rudp_error option \<times> UDPSession" where
  "write_select c s = (case c of
     EventCase \<Rightarrow> (None, s\<lparr>chWriteEvent := False\<rparr>)
   | TimerCase \<Rightarrow> (Some errTimeout, s)
   | ErrorCase \<Rightarrow> (Some (SocketError (the (socketWriteError s))), s)
   | DieCase \<Rightarrow> (Some ErrClosedPipe, s))"

text \<open>The locked region of \<^verbatim>\<open>WriteBuffers\<close>.\<close>

definition Write_poll :: "u8 list list \<Rightarrow> int \<Rightarrow> int \<Rightarrow> UDPSession \<Rightarrow> host \<Rightarrow> (io_result \<times> UDPSession \<times> host) option" where
  "Write_poll buffers now now' s h =
    (if can_send (s_rudp s)
     then do {
       (n, r) \<leftarrow> write_bufs buffers 0 (s_rudp s);
       let s = s\<lparr>s_rudp := r\<rparr>;
       (s, h) \<leftarrow> (if \<not> can_send (s_rudp s) \<or> \<not> writeDelay s
                 then do { (_, s, h) \<leftarrow> engine (flush False) s h; uncork s h }
                 else Some (s, h));
       Some (Done n, s, add_stat BytesSent_update (of_nat n) h)
     }
     else Some (deadline_wait (writeDdl s) now now', s, h))"

text \<open>One round of \<^verbatim>\<open>WriteBuffers\<close>; \<open>pick\<close> is the choice of the first \<^verbatim>\<open>select\<close> among ready cases.\<close>

definition WriteBuffers :: "select_case \<Rightarrow> u8 list list \<Rightarrow> int \<Rightarrow> int \<Rightarrow> UDPSession \<Rightarrow> host \<Rightarrow> (io_result \<times> UDPSession \<times> host) option" where
  "WriteBuffers pick buffers now now' s h =
    (if socketWriteError s \<noteq> None \<or> s_die s
     then case write_select pick s of
            (Some err, s) \<Rightarrow> Some (Failed err, s, h)
          | (None, s) \<Rightarrow> None
     else Write_poll buffers now now' s h)"

definition sess_Write :: "select_case \<Rightarrow> u8 list \<Rightarrow> int \<Rightarrow> int \<Rightarrow> UDPSession \<Rightarrow> host \<Rightarrow> (io_result \<times> UDPSession \<times> host) option" where
  "sess_Write pick b = WriteBuffers pick [b]"

section \<open>Packets and timer\<close>

definition rudpInput :: "u8 list \<Rightarrow> UDPSession \<Rightarrow> host \<Rightarrow> (UDPSession \<times> host) option" where
  "rudpInput data s h =
    do {
      (ret, s, h) \<leftarrow> engine (Input data True (s_ackNoDelay s)) s h;
      let s = (if peekSize (s_rudp s) > 0 then notifyReadEvent s else s);
      let s = (if can_send (s_rudp s) then notifyWriteEvent s else s);
      (s, h) \<leftarrow> uncork s h;
      let h = add_stat InPkts_update 1 h;
      let h = add_stat InBytes_update (of_nat (length data)) h;
      Some (s, if ret \<noteq> 0 then add_stat rudpInErrors_update 1 h else h)
    }"

text \<open>Decryption is a TODO of the code, so a packet of a session with a cipher stays undecrypted.\<close>

definition packetInput :: "u8 list \<Rightarrow> UDPSession \<Rightarrow> host \<Rightarrow> (UDPSession \<times> host) option" where
  "packetInput data s h =
    (let decrypted = \<not> (s_block s \<and> length data > cryptHeaderSize)
     in if decrypted \<and> length data \<ge> IRUDP_OVERHEAD then rudpInput data s h else Some (s, h))"

text \<open>\<^verbatim>\<open>update\<close> puts itself back into the scheduler, \<^verbatim>\<open>interval\<close> milliseconds later.\<close>

definition update_sess :: "int \<Rightarrow> UDPSession \<Rightarrow> host \<Rightarrow> (UDPSession \<times> host) option" where
  "update_sess now s h =
    (if s_die s then Some (s, h)
     else do {
       (intv, s, h) \<leftarrow> engine (flush False) s h;
       let s = (if can_send (s_rudp s) then notifyWriteEvent s else s);
       (s, h) \<leftarrow> uncork s h;
       Some (s, h\<lparr>h_puts := h_puts h @ [now + int (unat intv) * 1000000]\<rparr>)
     })"

section \<open>Closing\<close>

text \<open>What \<^verbatim>\<open>Close\<close> does last: inform the listener, close the socket, nothing, or fail.\<close>

datatype close_result = CloseSession addr | CloseConn | CloseNil | ClosedTwice

definition sess_Close :: "UDPSession \<Rightarrow> host \<Rightarrow> (close_result \<times> UDPSession \<times> host) option" where
  "sess_Close s h =
    (if s_die s then Some (ClosedTwice, s, h)
     else do {
       let s = s\<lparr>s_die := True\<rparr>;
       let h = add_stat CurrEstab_update (NOT 0) h;
       (_, s, h) \<leftarrow> engine (flush False) s h;
       (s, h) \<leftarrow> uncork s h;
       let s = s\<lparr>s_rudp := ReleaseTX (s_rudp s)\<rparr>;
       Some (if s_listener s then CloseSession (s_remote s) else if s_ownConn s then CloseConn else CloseNil, s, h)
     })"

section \<open>Settings\<close>

definition SetDeadline :: "int option \<Rightarrow> UDPSession \<Rightarrow> UDPSession" where
  "SetDeadline t s = notifyWriteEvent (notifyReadEvent (s\<lparr>readDdl := t, writeDdl := t\<rparr>))"

definition SetReadDeadline :: "int option \<Rightarrow> UDPSession \<Rightarrow> UDPSession" where
  "SetReadDeadline t s = notifyReadEvent (s\<lparr>readDdl := t\<rparr>)"

definition SetWriteDeadline :: "int option \<Rightarrow> UDPSession \<Rightarrow> UDPSession" where
  "SetWriteDeadline t s = notifyWriteEvent (s\<lparr>writeDdl := t\<rparr>)"

definition SetNoDelay :: "int \<Rightarrow> int \<Rightarrow> int \<Rightarrow> int \<Rightarrow> UDPSession \<Rightarrow> UDPSession" where
  "SetNoDelay nodelay intv resend nc s = s\<lparr>s_rudp := NoDelay nodelay intv resend nc (s_rudp s)\<rparr>"

definition SetWriteDelay :: "bool \<Rightarrow> UDPSession \<Rightarrow> UDPSession" where
  "SetWriteDelay delay s = s\<lparr>writeDelay := delay\<rparr>"

definition SetWindowSize :: "int \<Rightarrow> int \<Rightarrow> UDPSession \<Rightarrow> UDPSession" where
  "SetWindowSize sndwnd rcvwnd s = s\<lparr>s_rudp := snd (WndSize sndwnd rcvwnd (s_rudp s))\<rparr>"

definition sess_SetMtu :: "int \<Rightarrow> UDPSession \<Rightarrow> bool \<times> UDPSession" where
  "sess_SetMtu m s =
    (if m > int mtuLimit then (False, s) else (True, s\<lparr>s_rudp := snd (SetMtu m (s_rudp s))\<rparr>))"

definition SetStreamMode :: "bool \<Rightarrow> UDPSession \<Rightarrow> UDPSession" where
  "SetStreamMode enable s = s\<lparr>s_rudp := (s_rudp s)\<lparr>stream := (if enable then 1 else 0)\<rparr>\<rparr>"

definition SetACKNoDelay :: "bool \<Rightarrow> UDPSession \<Rightarrow> UDPSession" where
  "SetACKNoDelay nodelay s = s\<lparr>s_ackNoDelay := nodelay\<rparr>"

definition GetConv :: "UDPSession \<Rightarrow> u32" where "GetConv s = rudp_conv (s_rudp s)"
definition GetRTO :: "UDPSession \<Rightarrow> u32" where "GetRTO s = rxRTO (s_rudp s)"
definition GetSRTT :: "UDPSession \<Rightarrow> i32" where "GetSRTT s = rxSRTT (s_rudp s)"
definition GetSRTTVar :: "UDPSession \<Rightarrow> i32" where "GetSRTTVar s = rxRTTVal (s_rudp s)"

section \<open>Read loops\<close>

text \<open>
  The loops run on the results the socket gives, and return with the list when it ends: the
  goroutine then waits in its next read. \<open>src\<close> is the address of the first packet, or empty.
\<close>

definition filter_source :: "addr \<Rightarrow> addr \<Rightarrow> addr option" where
  "filter_source src from = (if src = '''' then Some from else if from \<noteq> src then None else Some src)"

fun defaultReadLoop :: "(sock_error + datagram) list \<Rightarrow> addr \<Rightarrow> UDPSession \<Rightarrow> host \<Rightarrow> (UDPSession \<times> host) option" where
  "defaultReadLoop [] src s h = Some (s, h)"
| "defaultReadLoop (Inl err # q) src s h = Some (notifyReadError err s, h)"
| "defaultReadLoop (Inr (data, from) # q) src s h =
    (case filter_source src from of
       None \<Rightarrow> defaultReadLoop q src s (add_stat InErrs_update 1 h)
     | Some src \<Rightarrow> do { (s, h) \<leftarrow> packetInput data s h; defaultReadLoop q src s h })"

text \<open>The loop over one batch; it returns the source address too.\<close>

fun read_batch :: "datagram list \<Rightarrow> addr \<Rightarrow> UDPSession \<Rightarrow> host \<Rightarrow> (addr \<times> UDPSession \<times> host) option" where
  "read_batch [] src s h = Some (src, s, h)"
| "read_batch ((data, from) # q) src s h =
    (case filter_source src from of
       None \<Rightarrow> read_batch q src s (add_stat InErrs_update 1 h)
     | Some src \<Rightarrow> do { (s, h) \<leftarrow> packetInput data s h; read_batch q src s h })"

text \<open>
  The Linux loop on the results of \<^verbatim>\<open>ReadBatch\<close>; \<open>singles\<close> are the results of \<^verbatim>\<open>ReadFrom\<close> in
  case it falls back.
\<close>

fun read_batches :: "(sock_error + datagram list) list \<Rightarrow> (sock_error + datagram) list \<Rightarrow> addr \<Rightarrow> UDPSession \<Rightarrow> host \<Rightarrow>
    (UDPSession \<times> host) option" where
  "read_batches [] singles src s h = Some (s, h)"
| "read_batches (Inl err # q) singles src s h =
    (if err = OpSyscall ''recvmmsg'' then defaultReadLoop singles '''' s h
     else Some (notifyReadError err s, h))"
| "read_batches (Inr msgs # q) singles src s h =
    do { (src, s, h) \<leftarrow> read_batch msgs src s h; read_batches q singles src s h }"

definition readLoop :: "(sock_error + datagram list) list \<Rightarrow> (sock_error + datagram) list \<Rightarrow> UDPSession \<Rightarrow> host \<Rightarrow>
    (UDPSession \<times> host) option" where
  "readLoop batches singles s h =
    (if \<not> s_xconn s then defaultReadLoop singles '''' s h else read_batches batches singles '''' s h)"

end
