(* ===== verification/Session_Tx_Spec.thy ===== *)
theory Session_Tx_Spec
  imports Session_Tx
begin

text \<open>
  What the transmission of a session's queue does: with a socket that behaves as documented
  it ends, sends a prefix of the queue in order and records an error when it stopped early;
  and what goes wrong when a partly successful batch falls back to single writes.
\<close>

text \<open>
  The documented behaviour of \<^verbatim>\<open>WriteBatch\<close>: without an error it has sent at least one and
  at most all of the messages.
\<close>

definition batches_ok :: "host \<Rightarrow> bool" where
  "batches_ok h \<longleftrightarrow> (\<forall>i l n. h_batches h i l = Inr n \<longrightarrow> n \<le> l \<and> (0 < l \<longrightarrow> 0 < n))"

text \<open>What transmission may change in a session.\<close>

definition tx_frame :: "UDPSession \<Rightarrow> UDPSession \<Rightarrow> bool" where
  "tx_frame s s' \<longleftrightarrow> (\<exists>e x. s' = s\<lparr>socketWriteError := e, xconnWriteError := x\<rparr>)"

lemma tx_frameE:
  assumes "tx_frame s s'"
  obtains e x where "s' = s\<lparr>socketWriteError := e, xconnWriteError := x\<rparr>"
  using assms by (auto simp: tx_frame_def)

lemma tx_frame_refl [intro]: "tx_frame s s"
proof -
  have "s = s\<lparr>socketWriteError := socketWriteError s, xconnWriteError := xconnWriteError s\<rparr>" by simp
  then show ?thesis unfolding tx_frame_def by blast
qed

lemma tx_frame_error [intro]: "tx_frame s (notifyWriteError e s)"
proof (cases "socketWriteError s")
  case None
  then have "notifyWriteError e s = s\<lparr>socketWriteError := Some e, xconnWriteError := xconnWriteError s\<rparr>"
    by (simp add: notifyWriteError_def)
  then show ?thesis unfolding tx_frame_def by blast
qed (simp add: notifyWriteError_def tx_frame_refl)

lemma tx_frame_trans: "tx_frame s1 s2 \<Longrightarrow> tx_frame s2 s3 \<Longrightarrow> tx_frame s1 s3"
proof (elim tx_frameE)
  fix e x e' x' assume "s2 = s1\<lparr>socketWriteError := e, xconnWriteError := x\<rparr>" "s3 = s2\<lparr>socketWriteError := e', xconnWriteError := x'\<rparr>"
  then have "s3 = s1\<lparr>socketWriteError := e', xconnWriteError := x'\<rparr>" by simp
  then show ?thesis unfolding tx_frame_def by blast
qed

lemma tx_frame_simps:
  assumes "tx_frame s s'"
  shows "s_rudp s' = s_rudp s" "txqueue s' = txqueue s" "s_remote s' = s_remote s" "headerSize s' = headerSize s"
    "s_bufPtr s' = s_bufPtr s" "s_rcvBuf s' = s_rcvBuf s" "s_die s' = s_die s" "chReadEvent s' = chReadEvent s"
    "chWriteEvent s' = chWriteEvent s" "s_block s' = s_block s" "socketReadError s' = socketReadError s"
    "s_listener s' = s_listener s" "s_ackNoDelay s' = s_ackNoDelay s" "s_xconn s' = s_xconn s"
    "writeDelay s' = writeDelay s" "readDdl s' = readDdl s" "writeDdl s' = writeDdl s"
  using assms by (auto simp: tx_frame_def)

lemma notifyWriteError_set: "socketWriteError (notifyWriteError e s) \<noteq> None"
  by (simp add: notifyWriteError_def)

text \<open>What transmission may change in its surroundings: counters, sent datagrams, oracle results.\<close>

definition same_calls :: "host \<Rightarrow> host \<Rightarrow> bool" where
  "same_calls h h' \<longleftrightarrow> out_calls (h_world h') = out_calls (h_world h) \<and> clock (h_world h') = clock (h_world h) \<and> h_puts h' = h_puts h"

lemma same_calls_refl [intro]: "same_calls h h"
  by (simp add: same_calls_def)

lemma same_calls_trans: "same_calls a b \<Longrightarrow> same_calls b c \<Longrightarrow> same_calls a c"
  by (simp add: same_calls_def)

lemma add_stat_simps [simp]:
  "h_sent (add_stat upd n h) = h_sent h" "h_writes (add_stat upd n h) = h_writes h"
  "h_batches (add_stat upd n h) = h_batches h" "h_puts (add_stat upd n h) = h_puts h"
  "h_world (add_stat upd n h) = AddUint64 upd n (h_world h)" "same_calls h (add_stat upd n h)"
  "same_calls h0 (add_stat upd n h) = same_calls h0 h"
  by (simp_all add: add_stat_def same_calls_def)

lemma WriteTo_cases:
  obtains (failed) e h' where "WriteTo d h = (Inl e, h')" "same_calls h h'" "h_batches h' = h_batches h" "h_sent h' = h_sent h"
      "h_writes h 0 = Inl e"
  | (written) n h' where "WriteTo d h = (Inr n, h')" "same_calls h h'" "h_batches h' = h_batches h" "h_sent h' = h_sent h @ [d]"
      "h_writes h 0 = Inr n" "h_writes h' = (\<lambda>i. h_writes h (Suc i))" "h_world h' = h_world h"
proof (cases "h_writes h 0")
  case (Inl e)
  show ?thesis by (rule failed [of e "snd (WriteTo d h)"]) (simp_all add: WriteTo_def Let_def same_calls_def Inl)
next
  case (Inr n)
  show ?thesis by (rule written [of n "snd (WriteTo d h)"]) (simp_all add: WriteTo_def Let_def same_calls_def Inr)
qed

lemma WriteBatch_cases:
  obtains (failed) e h' where "WriteBatch q h = (Inl e, h')" "same_calls h h'" "h_batches h' = (\<lambda>i. h_batches h (Suc i))"
      "h_sent h' = h_sent h" "h_batches h 0 (length q) = Inl e" "h_writes h' = h_writes h"
  | (sent) n h' where "WriteBatch q h = (Inr n, h')" "same_calls h h'" "h_batches h' = (\<lambda>i. h_batches h (Suc i))"
      "h_sent h' = h_sent h @ take n q" "h_batches h 0 (length q) = Inr n" "h_writes h' = h_writes h"
proof (cases "h_batches h 0 (length q)")
  case (Inl e)
  show ?thesis by (rule failed [of e "snd (WriteBatch q h)"]) (simp_all add: WriteBatch_def Let_def same_calls_def Inl)
next
  case (Inr n)
  show ?thesis by (rule sent [of n "snd (WriteBatch q h)"]) (simp_all add: WriteBatch_def Let_def same_calls_def Inr)
qed

lemma batches_ok_Suc: "batches_ok h \<Longrightarrow> h_batches h' = (\<lambda>i. h_batches h (Suc i)) \<Longrightarrow> batches_ok h'"
  by (simp add: batches_ok_def)

text \<open>The outcome of sending a queue: all of it, or a prefix and an error.\<close>

definition sent_prefix :: "datagram list \<Rightarrow> UDPSession \<Rightarrow> host \<Rightarrow> UDPSession \<Rightarrow> host \<Rightarrow> bool" where
  "sent_prefix q s h s' h' \<longleftrightarrow> tx_frame s s' \<and> same_calls h h' \<and>
     (\<exists>k \<le> length q. h_sent h' = h_sent h @ take k q \<and> (k < length q \<longrightarrow> socketWriteError s' \<noteq> None))"

lemma sent_prefix_stop:
  "tx_frame s s' \<Longrightarrow> same_calls h h' \<Longrightarrow> h_sent h' = h_sent h \<Longrightarrow> q = [] \<or> socketWriteError s' \<noteq> None \<Longrightarrow> sent_prefix q s h s' h'"
  unfolding sent_prefix_def by (intro conjI exI [of _ 0]) auto

lemma sent_prefix_append:
  assumes "same_calls h h1" "h_sent h1 = h_sent h @ p" "sent_prefix q s h1 s' h'"
  shows "sent_prefix (p @ q) s h s' h'"
proof -
  obtain k where k: "k \<le> length q" "h_sent h' = h_sent h1 @ take k q" "k < length q \<longrightarrow> socketWriteError s' \<noteq> None"
    and fr: "tx_frame s s'" "same_calls h1 h'" using assms(3) by (auto simp: sent_prefix_def)
  show ?thesis
    unfolding sent_prefix_def
    by (intro conjI exI [of _ "length p + k"] fr same_calls_trans [OF assms(1) fr(2)]) (use k assms(2) in auto)
qed

lemma default_loop_prefix:
  assumes "i + k \<le> length (txqueue s)"
  shows "\<exists>bc pc s' h'. default_loop k i b p s h = Some (bc, pc, s', h') \<and>
    sent_prefix (take k (drop i (txqueue s))) s h s' h'"
  using assms
proof (induction k arbitrary: i b p h)
  case 0
  then show ?case by (auto intro: sent_prefix_stop)
next
  case (Suc k)
  have i: "i < length (txqueue s)" using Suc(2) by simp
  have cons: "take (Suc k) (drop i (txqueue s)) = [txqueue s ! i] @ take k (drop (Suc i) (txqueue s))"
    using i by (simp add: Cons_nth_drop_Suc [symmetric])
  show ?case
  proof (cases rule: WriteTo_cases [of "txqueue s ! i" h])
    case (failed e h1)
    have "sent_prefix (take (Suc k) (drop i (txqueue s))) s h (notifyWriteError e s) h1"
      by (rule sent_prefix_stop) (use failed notifyWriteError_set in auto)
    then show ?thesis using failed(1) i by auto
  next
    case (written n h1)
    obtain bc pc s' h' where r: "default_loop k (Suc i) (b + n) (p + 1) s h1 = Some (bc, pc, s', h')"
      "sent_prefix (take k (drop (Suc i) (txqueue s))) s h1 s' h'"
      using Suc.IH [of "Suc i" "b + n" "p + 1" h1] Suc.prems by auto
    have "sent_prefix (take (Suc k) (drop i (txqueue s))) s h s' h'"
      unfolding cons by (rule sent_prefix_append [OF written(2,4) r(2)])
    then show ?thesis using written(1) i r(1) by auto
  qed
qed

lemma defaultTx_prefix:
  assumes "length q \<le> length (txqueue s)"
  shows "\<exists>s' h'. defaultTx q s h = Some (s', h') \<and> sent_prefix (take (length q) (txqueue s)) s h s' h'"
proof -
  obtain bc pc s' h' where "default_loop (length q) 0 0 0 s h = Some (bc, pc, s', h')"
    "sent_prefix (take (length q) (txqueue s)) s h s' h'"
    using default_loop_prefix [of 0 "length q" s 0 0 h] assms by auto
  then show ?thesis by (auto simp: defaultTx_def sent_prefix_def)
qed

text \<open>The single writes leave the error of the batch calls alone.\<close>

lemma default_loop_xconn: "default_loop k i b p s h = Some (bc, pc, s', h') \<Longrightarrow> xconnWriteError s' = xconnWriteError s"
  by (induction k i b p s h rule: default_loop.induct)
    (auto simp: notifyWriteError_def split: if_splits prod.splits sum.splits)

lemma defaultTx_xconn: "defaultTx q s h = Some (s', h') \<Longrightarrow> xconnWriteError s' = xconnWriteError s"
  by (auto simp: defaultTx_def bind_eq_Some_conv dest: default_loop_xconn)

text \<open>
  The outcome of the batch loop on the rest \<open>q\<close> of the queue \<open>q0\<close>: a prefix of the rest, and when
  the loop then fell back to single writes a prefix of the whole queue.
\<close>

definition sent_split :: "datagram list \<Rightarrow> datagram list \<Rightarrow> UDPSession \<Rightarrow> host \<Rightarrow> UDPSession \<Rightarrow> host \<Rightarrow> bool" where
  "sent_split q0 q s h s' h' \<longleftrightarrow> tx_frame s s' \<and> same_calls h h' \<and>
     (\<exists>k m. h_sent h' = h_sent h @ take k q @ take m q0 \<and> k + m \<le> length q \<and>
        (k + m < length q \<longrightarrow> socketWriteError s' \<noteq> None) \<and> (m \<noteq> 0 \<longrightarrow> xconnWriteError s' = Some (OpSyscall ''sendmmsg'')))"

lemma sent_split_stop:
  "tx_frame s s' \<Longrightarrow> same_calls h h' \<Longrightarrow> h_sent h' = h_sent h \<Longrightarrow> q = [] \<or> socketWriteError s' \<noteq> None \<Longrightarrow> sent_split q0 q s h s' h'"
  unfolding sent_split_def by (intro conjI exI [of _ 0]) auto

lemma sent_split_append:
  assumes "same_calls h h1" "h_sent h1 = h_sent h @ p" "sent_split q0 q s h1 s' h'"
  shows "sent_split q0 (p @ q) s h s' h'"
proof -
  obtain k m where k: "h_sent h' = h_sent h1 @ take k q @ take m q0" "k + m \<le> length q"
      "k + m < length q \<longrightarrow> socketWriteError s' \<noteq> None" "m \<noteq> 0 \<longrightarrow> xconnWriteError s' = Some (OpSyscall ''sendmmsg'')"
    and fr: "tx_frame s s'" "same_calls h1 h'" using assms(3) by (auto simp: sent_split_def)
  have "h_sent h' = h_sent h @ take (length p + k) (p @ q) @ take m q0" using k(1) assms(2) by simp
  moreover have "length p + k + m \<le> length (p @ q)" "length p + k + m < length (p @ q) \<longrightarrow> socketWriteError s' \<noteq> None"
    using k(2,3) by auto
  ultimately show ?thesis
    unfolding sent_split_def using k(4) fr(1) same_calls_trans [OF assms(1) fr(2)] by blast
qed

text \<open>\<^verbatim>\<open>sendmmsg\<close> failed: the rest is sent by single writes, which read the queue from its start.\<close>

lemma fallback_split:
  assumes "length q \<le> length (txqueue s)" "same_calls h h1" "h_sent h1 = h_sent h"
  shows "\<exists>s' h'. defaultTx q (s\<lparr>xconnWriteError := Some (OpSyscall ''sendmmsg'')\<rparr>) h1 = Some (s', h') \<and>
    sent_split (txqueue s) q s h s' h'"
proof -
  let ?s = "s\<lparr>xconnWriteError := Some (OpSyscall ''sendmmsg'')\<rparr>"
  obtain s' h' where r: "defaultTx q ?s h1 = Some (s', h')" "sent_prefix (take (length q) (txqueue s)) ?s h1 s' h'"
    using defaultTx_prefix [of q ?s h1] assms(1) by auto
  have len: "length (take (length q) (txqueue s)) = length q" using assms(1) by simp
  obtain k where k: "k \<le> length q" "h_sent h' = h_sent h1 @ take k (take (length q) (txqueue s))"
      "k < length q \<longrightarrow> socketWriteError s' \<noteq> None" and fr: "tx_frame ?s s'" "same_calls h1 h'"
    using r(2) unfolding sent_prefix_def len by blast
  have "?s = s\<lparr>socketWriteError := socketWriteError s, xconnWriteError := Some (OpSyscall ''sendmmsg'')\<rparr>" by simp
  then have "tx_frame s ?s" unfolding tx_frame_def by blast
  then have frame: "tx_frame s s'" "same_calls h h'" using tx_frame_trans fr(1) same_calls_trans [OF assms(2) fr(2)] by auto
  have "h_sent h' = h_sent h @ take 0 q @ take k (txqueue s)" using k(1,2) assms(3) by (simp add: min_absorb1)
  moreover have "xconnWriteError s' = Some (OpSyscall ''sendmmsg'')" using defaultTx_xconn [OF r(1)] by simp
  ultimately have "sent_split (txqueue s) q s h s' h'"
    unfolding sent_split_def using frame k(1,3) by (intro conjI exI [of _ 0] exI [of _ k]) simp_all
  then show ?thesis using r(1) by blast
qed

lemma tx_loop_split:
  assumes "batches_ok h" "length q \<le> length (txqueue s)"
  shows "\<exists>s' h'. tx_loop q nbytes npkts s h = Some (s', h') \<and> sent_split (txqueue s) q s h s' h'"
  using assms
proof (induction "length q" arbitrary: q nbytes npkts h rule: less_induct)
  case less
  show ?case
  proof (cases "q = []")
    case True
    then show ?thesis by (auto simp: tx_loop.simps intro!: sent_split_stop)
  next
    case False
    show ?thesis
    proof (cases rule: WriteBatch_cases [of q h])
      case (failed e h1)
      show ?thesis
      proof (cases "e = OpSyscall ''sendmmsg''")
        case True
        then show ?thesis using fallback_split [OF less.prems(2) failed(2,4)] failed(1) False by (simp add: tx_loop.simps)
      next
        case other: False
        have "sent_split (txqueue s) q s h (notifyWriteError e s)
            (add_stat OutBytes_update (of_nat nbytes) (add_stat OutPkts_update (of_nat npkts) h1))"
          by (rule sent_split_stop) (use failed notifyWriteError_set in auto)
        then show ?thesis using failed(1) False other by (simp add: tx_loop.simps)
      qed
    next
      case (sent n h1)
      then have n: "n \<le> length q" "0 < n" using less.prems(1) False by (auto simp: batches_ok_def)
      then have "length (drop n q) < length q" "length (drop n q) \<le> length (txqueue s)" using False less.prems(2) by simp_all
      moreover have "batches_ok h1" using less.prems(1) sent(3) by (rule batches_ok_Suc)
      ultimately obtain s' h' where r: "tx_loop (drop n q) (nbytes + sum_list (map (length \<circ> fst) (take n q))) (npkts + n) s h1 = Some (s', h')"
        "sent_split (txqueue s) (drop n q) s h1 s' h'" using less.hyps by blast
      have "sent_split (txqueue s) (take n q @ drop n q) s h s' h'" by (rule sent_split_append [OF sent(2,4) r(2)])
      then show ?thesis using sent(1) False n r(1) by (simp add: tx_loop.simps [of q])
    qed
  qed
qed

section \<open>Only packets of the queue are sent\<close>

text \<open>Whatever the socket reports, transmission ends and sends nothing but packets of the queue.\<close>

definition sent_from :: "datagram list \<Rightarrow> UDPSession \<Rightarrow> host \<Rightarrow> UDPSession \<Rightarrow> host \<Rightarrow> bool" where
  "sent_from q s h s' h' \<longleftrightarrow> tx_frame s s' \<and> same_calls h h' \<and> (batches_ok h \<longrightarrow> batches_ok h') \<and>
     (\<exists>ds. h_sent h' = h_sent h @ ds \<and> set ds \<subseteq> set q)"

lemma sent_from_stop:
  "tx_frame s s' \<Longrightarrow> same_calls h h' \<Longrightarrow> h_sent h' = h_sent h \<Longrightarrow> (batches_ok h \<Longrightarrow> batches_ok h') \<Longrightarrow> sent_from q s h s' h'"
  by (auto simp: sent_from_def)

lemma sent_from_append:
  assumes "same_calls h h1" "h_sent h1 = h_sent h @ p" "set p \<subseteq> set q" "batches_ok h \<Longrightarrow> batches_ok h1" "sent_from q s h1 s' h'"
  shows "sent_from q s h s' h'"
proof -
  obtain ds where "h_sent h' = h_sent h1 @ ds" "set ds \<subseteq> set q" and fr: "tx_frame s s'" "same_calls h1 h'" "batches_ok h1 \<longrightarrow> batches_ok h'"
    using assms(5) by (auto simp: sent_from_def)
  then show ?thesis
    unfolding sent_from_def using assms(2-4)
    by (intro conjI exI [of _ "p @ ds"] fr same_calls_trans [OF assms(1) fr(2)]) auto
qed

lemma batches_ok_same: "h_batches h' = h_batches h \<Longrightarrow> batches_ok h \<Longrightarrow> batches_ok h'"
  by (simp add: batches_ok_def)

lemma batches_ok_add_stat [simp]: "batches_ok (add_stat upd n h) \<longleftrightarrow> batches_ok h"
  by (simp add: batches_ok_def)

lemma default_loop_from:
  assumes "i + k \<le> length (txqueue s)"
  shows "\<exists>bc pc s' h'. default_loop k i b p s h = Some (bc, pc, s', h') \<and> sent_from (txqueue s) s h s' h'"
  using assms
proof (induction k arbitrary: i b p h)
  case 0
  then show ?case by (auto intro: sent_from_stop)
next
  case (Suc k)
  have i: "i < length (txqueue s)" using Suc(2) by simp
  show ?case
  proof (cases rule: WriteTo_cases [of "txqueue s ! i" h])
    case (failed e h1)
    have "sent_from (txqueue s) s h (notifyWriteError e s) h1"
      by (rule sent_from_stop) (use failed batches_ok_same in auto)
    then show ?thesis using failed(1) i by auto
  next
    case (written n h1)
    obtain bc pc s' h' where r: "default_loop k (Suc i) (b + n) (p + 1) s h1 = Some (bc, pc, s', h')"
      "sent_from (txqueue s) s h1 s' h'"
      using Suc.IH [of "Suc i" "b + n" "p + 1" h1] Suc.prems by auto
    have "sent_from (txqueue s) s h s' h'"
      by (rule sent_from_append [OF written(2,4) _ _ r(2)]) (use i batches_ok_same written(3) in auto)
    then show ?thesis using written(1) i r(1) by auto
  qed
qed

lemma defaultTx_from:
  assumes "length q \<le> length (txqueue s)"
  shows "\<exists>s' h'. defaultTx q s h = Some (s', h') \<and> sent_from (txqueue s) s h s' h'"
proof -
  obtain bc pc s' h' where "default_loop (length q) 0 0 0 s h = Some (bc, pc, s', h')" "sent_from (txqueue s) s h s' h'"
    using default_loop_from [of 0 "length q" s 0 0 h] assms by auto
  then show ?thesis by (auto simp: defaultTx_def sent_from_def)
qed

lemma tx_loop_from:
  assumes "batches_ok h" "set q \<subseteq> set (txqueue s)" "length q \<le> length (txqueue s)"
  shows "\<exists>s' h'. tx_loop q nbytes npkts s h = Some (s', h') \<and> sent_from (txqueue s) s h s' h'"
  using assms
proof (induction "length q" arbitrary: q nbytes npkts h rule: less_induct)
  case less
  show ?case
  proof (cases "q = []")
    case True
    then show ?thesis by (auto simp: tx_loop.simps intro!: sent_from_stop)
  next
    case False
    show ?thesis
    proof (cases rule: WriteBatch_cases [of q h])
      case (failed e h1)
      show ?thesis
      proof (cases "e = OpSyscall ''sendmmsg''")
        case True
        let ?s = "s\<lparr>xconnWriteError := Some e\<rparr>"
        obtain s' h' where r: "defaultTx q ?s h1 = Some (s', h')" "sent_from (txqueue s) ?s h1 s' h'"
          using defaultTx_from [of q ?s h1] less.prems(3) by auto
        have "?s = s\<lparr>socketWriteError := socketWriteError s, xconnWriteError := Some e\<rparr>" by simp
        then have "tx_frame s ?s" unfolding tx_frame_def by blast
        then have 1: "sent_from (txqueue s) s h1 s' h'" using r(2) tx_frame_trans unfolding sent_from_def by blast
        have "sent_from (txqueue s) s h s' h'"
          by (rule sent_from_append [OF failed(2) _ _ _ 1, of "[]"]) (use failed batches_ok_Suc in auto)
        then show ?thesis using r(1) failed(1) True False by (simp add: tx_loop.simps)
      next
        case other: False
        have "sent_from (txqueue s) s h (notifyWriteError e s)
            (add_stat OutBytes_update (of_nat nbytes) (add_stat OutPkts_update (of_nat npkts) h1))"
          by (rule sent_from_stop) (use failed batches_ok_Suc in auto)
        then show ?thesis using failed(1) False other by (simp add: tx_loop.simps)
      qed
    next
      case (sent n h1)
      then have n: "n \<le> length q" "0 < n" using less.prems(1) False by (auto simp: batches_ok_def)
      then have "length (drop n q) < length q" using False by simp
      moreover have b: "batches_ok h1" using less.prems(1) sent(3) by (rule batches_ok_Suc)
      moreover have "set (drop n q) \<subseteq> set (txqueue s)" using less.prems(2) set_drop_subset by fastforce
      moreover have "length (drop n q) \<le> length (txqueue s)" using less.prems(3) by simp
      ultimately obtain s' h' where r: "tx_loop (drop n q) (nbytes + sum_list (map (length \<circ> fst) (take n q))) (npkts + n) s h1 = Some (s', h')"
        "sent_from (txqueue s) s h1 s' h'" using less.hyps by blast
      have "set (take n q) \<subseteq> set (txqueue s)" using less.prems(2) set_take_subset by fastforce
      then have "sent_from (txqueue s) s h s' h'" using b by (intro sent_from_append [OF sent(2,4) _ _ r(2)])
      then show ?thesis using sent(1) False n r(1) by (simp add: tx_loop.simps [of q])
    qed
  qed
qed

lemma uncork_from:
  assumes "batches_ok h"
  shows "\<exists>s' h'. uncork s h = Some (s'\<lparr>txqueue := []\<rparr>, h') \<and> sent_from (txqueue s) s h s' h'"
proof (cases "txqueue s = []")
  case True
  then have "s = s\<lparr>txqueue := []\<rparr>" by simp
  then have "uncork s h = Some (s\<lparr>txqueue := []\<rparr>, h)" using True by (simp add: uncork_def)
  moreover have "sent_from (txqueue s) s h s h" by (auto intro: sent_from_stop)
  ultimately show ?thesis by blast
next
  case False
  then show ?thesis
    using tx_loop_from [OF assms, of "txqueue s" s 0 0] defaultTx_from [of "txqueue s" s h] by (auto simp: uncork_def tx_def)
qed

section \<open>Properties\<close>

text \<open>A session and a socket for evaluating the model on concrete inputs.\<close>

definition demo_session :: UDPSession where
  "demo_session = \<lparr>s_ownConn = True, s_rudp = NewRudp 7, s_listener = False, s_block = False,
     s_rcvBuf = replicate 1500 0, s_bufPtr = [], s_remote = ''peer'', readDdl = None, writeDdl = None,
     headerSize = 0, s_ackNoDelay = False, writeDelay = False, s_dup = 0, s_die = False,
     chReadEvent = False, chWriteEvent = False, socketReadError = None, socketWriteError = None,
     txqueue = [], s_xconn = True, xconnWriteError = None\<rparr>"

definition demo_host :: "(nat \<Rightarrow> nat \<Rightarrow> sock_error + nat) \<Rightarrow> host" where
  "demo_host batches = \<lparr>h_world = new_world [], h_writes = \<lambda>_. Inr 1, h_batches = batches, h_sent = [], h_puts = []\<rparr>"

text \<open>
  Claim C20. With a socket whose batch writes behave as documented (without an error at least one
  and at most all messages are sent) \<^verbatim>\<open>uncork\<close> returns, leaves the queue empty and touches nothing
  else of the session but its two write errors. It has given the socket a prefix of the queue in
  order, each packet once, unless \<^verbatim>\<open>sendmmsg\<close> failed after some packets were sent: then a prefix
  of the queue again (\<open>fallback_sends_wrong_packets\<close>), and the failure is on record. If fewer
  packets than the queue has were written, the session's write error is set.
\<close>

theorem uncork_sends_in_order:
  assumes "batches_ok h"
  shows "\<exists>s' h' k m. uncork s h = Some (s', h') \<and> txqueue s' = [] \<and>
    s' = s\<lparr>txqueue := [], socketWriteError := socketWriteError s', xconnWriteError := xconnWriteError s'\<rparr> \<and>
    h_sent h' = h_sent h @ take k (txqueue s) @ take m (txqueue s) \<and> k + m \<le> length (txqueue s) \<and>
    (k + m < length (txqueue s) \<longrightarrow> socketWriteError s' \<noteq> None) \<and>
    (k \<noteq> 0 \<and> m \<noteq> 0 \<longrightarrow> s_xconn s \<and> xconnWriteError s = None \<and> xconnWriteError s' = Some (OpSyscall ''sendmmsg''))"
proof -
  let ?q = "txqueue s"
  have "\<exists>s1 h' k m. uncork s h = Some (s1\<lparr>txqueue := []\<rparr>, h') \<and> tx_frame s s1 \<and>
      h_sent h' = h_sent h @ take k ?q @ take m ?q \<and> k + m \<le> length ?q \<and> (k + m < length ?q \<longrightarrow> socketWriteError s1 \<noteq> None) \<and>
      (k \<noteq> 0 \<and> m \<noteq> 0 \<longrightarrow> s_xconn s \<and> xconnWriteError s = None \<and> xconnWriteError s1 = Some (OpSyscall ''sendmmsg''))"
  proof (cases "?q = []")
    case True
    then have "uncork s h = Some (s\<lparr>txqueue := []\<rparr>, h)" by (simp add: uncork_def)
    then show ?thesis using True by auto
  next
    case ne: False
    show ?thesis
    proof (cases "\<not> s_xconn s \<or> xconnWriteError s \<noteq> None")
      case True
      obtain s1 h' where "defaultTx ?q s h = Some (s1, h')" "sent_prefix ?q s h s1 h'"
        using defaultTx_prefix [of ?q s h] by auto
      then obtain k where "uncork s h = Some (s1\<lparr>txqueue := []\<rparr>, h')" "tx_frame s s1" "h_sent h' = h_sent h @ take k ?q @ take 0 ?q"
          "k + 0 \<le> length ?q" "k + 0 < length ?q \<longrightarrow> socketWriteError s1 \<noteq> None"
        using ne True by (auto simp: uncork_def tx_def sent_prefix_def)
      then show ?thesis by blast
    next
      case False
      then show ?thesis using tx_loop_split [OF assms, of ?q s 0 0] ne by (fastforce simp: uncork_def tx_def sent_split_def)
    qed
  qed
  then obtain s1 h' k m where 1: "uncork s h = Some (s1\<lparr>txqueue := []\<rparr>, h')" "tx_frame s s1"
      "h_sent h' = h_sent h @ take k ?q @ take m ?q" "k + m \<le> length ?q" "k + m < length ?q \<longrightarrow> socketWriteError s1 \<noteq> None"
      "k \<noteq> 0 \<and> m \<noteq> 0 \<longrightarrow> s_xconn s \<and> xconnWriteError s = None \<and> xconnWriteError s1 = Some (OpSyscall ''sendmmsg'')"
    by blast
  obtain e x where "s1 = s\<lparr>socketWriteError := e, xconnWriteError := x\<rparr>" by (rule tx_frameE [OF 1(2)])
  then have "s1\<lparr>txqueue := []\<rparr> = s\<lparr>txqueue := [], socketWriteError := socketWriteError (s1\<lparr>txqueue := []\<rparr>),
      xconnWriteError := xconnWriteError (s1\<lparr>txqueue := []\<rparr>)\<rparr>" by simp
  then show ?thesis using 1(1,3-6) by (intro exI [of _ "s1\<lparr>txqueue := []\<rparr>"] exI [of _ h'] exI [of _ k] exI [of _ m]) simp
qed

text \<open>Three packets; the socket takes two, then one, then reports an error.\<close>

theorem uncork_sends_in_order_witness:
  "\<exists>s' h' k m. uncork (demo_session\<lparr>txqueue := [([1], ''a''), ([2], ''a''), ([3], ''a'')]\<rparr>)
      (demo_host (\<lambda>i l. if i < 1 then Inr (min 2 l) else Inl (OtherError ''down''))) = Some (s', h') \<and> txqueue s' = [] \<and>
      h_sent h' = take k [([1], ''a''), ([2], ''a''), ([3], ''a'')] @ take m [([1], ''a''), ([2], ''a''), ([3], ''a'')]"
proof -
  let ?b = "(\<lambda>i l. if i < 1 then Inr (min 2 l) else Inl (OtherError ''down'')) :: nat \<Rightarrow> nat \<Rightarrow> sock_error + nat"
  let ?s = "demo_session\<lparr>txqueue := [([1], ''a''), ([2], ''a''), ([3], ''a'')]\<rparr>"
  have "batches_ok (demo_host ?b)" by (auto simp: batches_ok_def demo_host_def split: if_splits)
  from uncork_sends_in_order [OF this, of ?s] obtain s' h' k m where "uncork ?s (demo_host ?b) = Some (s', h')" "txqueue s' = []"
      "h_sent h' = h_sent (demo_host ?b) @ take k (txqueue ?s) @ take m (txqueue ?s)" "k + m \<le> length (txqueue ?s)"
      "k + m < length (txqueue ?s) \<longrightarrow> socketWriteError s' \<noteq> None" by blast
  moreover have "h_sent (demo_host ?b) = []" "txqueue ?s = [([1], ''a''), ([2], ''a''), ([3], ''a'')]" by (simp_all add: demo_host_def)
  ultimately show ?thesis by (metis append_Nil)
qed

lemma default_loop_all:
  assumes "i + k \<le> length (txqueue s)" "\<forall>j. \<exists>n. h_writes h j = Inr n"
  shows "\<exists>bc h'. default_loop k i b p s h = Some (bc, p + k, s, h') \<and>
    h_sent h' = h_sent h @ take k (drop i (txqueue s)) \<and> h_world h' = h_world h \<and>
    ((\<forall>j. h_writes h j = Inr m) \<longrightarrow> bc = b + k * m)"
  using assms
proof (induction k arbitrary: i b p h)
  case (Suc k)
  have i: "i < length (txqueue s)" using Suc(2) by simp
  have cons: "take (Suc k) (drop i (txqueue s)) = [txqueue s ! i] @ take k (drop (Suc i) (txqueue s))"
    using i by (simp add: Cons_nth_drop_Suc [symmetric])
  show ?case
  proof (cases rule: WriteTo_cases [of "txqueue s ! i" h])
    case (failed e h1)
    then show ?thesis using Suc.prems(2) by (metis sum.distinct(1))
  next
    case (written n h1)
    obtain bc h' where r: "default_loop k (Suc i) (b + n) (p + 1) s h1 = Some (bc, p + 1 + k, s, h')"
      "h_sent h' = h_sent h1 @ take k (drop (Suc i) (txqueue s))" "h_world h' = h_world h1"
      "(\<forall>j. h_writes h1 j = Inr m) \<longrightarrow> bc = b + n + k * m"
      using Suc.IH [of "Suc i" h1 "b + n" "p + 1"] Suc.prems written(6) by auto
    have "bc = b + Suc k * m" if "\<forall>j. h_writes h j = Inr m"
      using r(4) that written(5,6) by simp
    then show ?thesis unfolding cons using written(1,4,7) i r(1-3) by auto
  qed
qed simp

text \<open>
  Claim C40. When a batch write has sent the first \<open>k\<close> packets and the next one reports that
  \<^verbatim>\<open>sendmmsg\<close> is missing, the fallback reads \<^verbatim>\<open>s.txqueue\<close> by the indices of the remaining
  packets: it sends the first packets of the queue again and never the last \<open>k\<close>, and no
  error is recorded.
\<close>

theorem fallback_sends_wrong_packets:
  assumes "s_xconn s" and "xconnWriteError s = None" and "socketWriteError s = None"
    and "h_batches h 0 (length (txqueue s)) = Inr k" and "0 < k" and "k < length (txqueue s)"
    and "h_batches h 1 (length (txqueue s) - k) = Inl (OpSyscall ''sendmmsg'')" and "\<forall>j. \<exists>n. h_writes h j = Inr n"
  shows "\<exists>s' h'. uncork s h = Some (s', h') \<and> txqueue s' = [] \<and> socketWriteError s' = None \<and>
    h_sent h' = h_sent h @ take k (txqueue s) @ take (length (txqueue s) - k) (txqueue s)"
proof -
  let ?q = "txqueue s" and ?e = "OpSyscall ''sendmmsg''"
  have ne: "?q \<noteq> []" using assms(6) by auto
  obtain h1 where 1: "WriteBatch ?q h = (Inr k, h1)" "h_sent h1 = h_sent h @ take k ?q"
      "h_batches h1 = (\<lambda>i. h_batches h (Suc i))" "h_writes h1 = h_writes h"
    using assms(4) by (cases rule: WriteBatch_cases [of ?q h]) auto
  obtain h2 where 2: "WriteBatch (drop k ?q) h1 = (Inl ?e, h2)" "h_sent h2 = h_sent h1" "h_writes h2 = h_writes h1"
    using assms(7) 1(3) by (cases rule: WriteBatch_cases [of "drop k ?q" h1]) auto
  let ?s = "s\<lparr>xconnWriteError := Some ?e\<rparr>"
  obtain bc h' where 3: "default_loop (length ?q - k) 0 0 0 ?s h2 = Some (bc, length ?q - k, ?s, h')"
      "h_sent h' = h_sent h2 @ take (length ?q - k) ?q"
    using default_loop_all [of 0 "length ?q - k" ?s h2 0 0 0] assms(8) 1(4) 2(3) by auto
  have "tx_loop (drop k ?q) b p s h1 = defaultTx (drop k ?q) ?s h2" for b p
    using 2(1) assms(6) by (simp add: tx_loop.simps [of "drop k ?q"])
  then have "tx ?q s h = defaultTx (drop k ?q) ?s h2"
    using assms(1,2,6) 1(1) ne by (simp add: tx_def tx_loop.simps [of ?q])
  then show ?thesis
    using 3 1(2) 2(2) ne assms(3) by (auto simp: uncork_def defaultTx_def)
qed

theorem fallback_sends_wrong_packets_witness:
  "\<exists>s' h'. uncork (demo_session\<lparr>txqueue := [([1], ''a''), ([2], ''a''), ([3], ''a'')]\<rparr>)
      (demo_host (\<lambda>i _. if i = 0 then Inr 2 else Inl (OpSyscall ''sendmmsg''))) = Some (s', h') \<and>
     h_sent h' = [([1], ''a''), ([2], ''a''), ([1], ''a'')]"
  using fallback_sends_wrong_packets [of "demo_session\<lparr>txqueue := [([1], ''a''), ([2], ''a''), ([3], ''a'')]\<rparr>"
      "demo_host (\<lambda>i _. if i = 0 then Inr 2 else Inl (OpSyscall ''sendmmsg''))" 2]
  by (auto simp: demo_session_def demo_host_def)

text \<open>
  \<^verbatim>\<open>defaultTx\<close> adds the number of bytes to the packet counter and the number of
  packets to the byte counter, while the batch version has them the right way round.
\<close>

lemma default_tx_swaps_counters:
  assumes "\<forall>j. h_writes h j = Inr m" and "q = txqueue s"
  shows "\<exists>h'. defaultTx q s h = Some (s, h') \<and>
    OutPkts (DefaultSnmp (h_world h')) = OutPkts (DefaultSnmp (h_world h)) + of_nat (length q * m) \<and>
    OutBytes (DefaultSnmp (h_world h')) = OutBytes (DefaultSnmp (h_world h)) + of_nat (length q)"
proof -
  obtain bc h' where "default_loop (length q) 0 0 0 s h = Some (bc, length q, s, h')" "h_world h' = h_world h"
      "bc = length q * m"
    using default_loop_all [of 0 "length q" s h 0 0 m] assms by auto
  then show ?thesis by (simp add: defaultTx_def)
qed

lemma default_tx_swaps_counters_witness:
  "\<exists>h'. defaultTx [([1, 2], ''a'')] (demo_session\<lparr>txqueue := [([1, 2], ''a'')]\<rparr>)
      ((demo_host (\<lambda>_ _. Inr 0))\<lparr>h_writes := \<lambda>_. Inr 2\<rparr>) = Some (demo_session\<lparr>txqueue := [([1, 2], ''a'')]\<rparr>, h') \<and>
     OutPkts (DefaultSnmp (h_world h')) = 2 \<and> OutBytes (DefaultSnmp (h_world h')) = 1"
  using default_tx_swaps_counters [of "(demo_host (\<lambda>_ _. Inr 0))\<lparr>h_writes := \<lambda>_. Inr 2\<rparr>" 2 "[([1, 2], ''a'')]"
      "demo_session\<lparr>txqueue := [([1, 2], ''a'')]\<rparr>"]
  by (auto simp: demo_host_def new_world_def newSnmp_def)

end
