(* ===== verification/Rudp_Config.thy ===== *)
theory Rudp_Config
  imports Rudp_Flush_Spec
begin

text \<open>
  The configuration calls: what keeps the sizes consistent, and the calls that are accepted
  although they leave a state in which \<^verbatim>\<open>flush\<close> panics.
\<close>

lemma uint_mtu_minus:
  assumes "24 \<le> unat (m :: u32)"
  shows "uint (m - 24) = int (unat m) - 24" "unat (m - 24) = unat m - 24"
proof -
  show "unat (m - 24) = unat m - 24" using assms by (simp add: unat_sub word_le_nat_alt)
  then have "int (unat (m - 24)) = int (unat m) - 24" using assms by linarith
  then show "uint (m - 24) = int (unat m) - 24" by simp
qed

lemma unat_of_int_small: "0 \<le> n \<Longrightarrow> n < 2 ^ 32 \<Longrightarrow> unat (word_of_int n :: u32) = nat n"
  by (simp add: unat_eq_nat_uint uint_word_of_int)

lemma unat_mss:
  assumes "24 \<le> unat (m :: u32)" "0 \<le> n" "n \<le> int (unat m) - 24"
  shows "int (unat (m - 24 - word_of_int n)) = int (unat m) - 24 - n"
proof -
  have n: "unat (word_of_int n :: u32) = nat n"
  proof (rule unat_of_int_small)
    have "int (unat m) < 2 ^ 32" using unat_u32_less [of m] by (simp del: of_nat_unat)
    then show "n < 2 ^ 32" using assms(3) by linarith
  qed (rule assms(2))
  have "nat n \<le> unat (m - 24)"
    using assms uint_mtu_minus(2) [of m] by linarith
  then have "(word_of_int n :: u32) \<le> m - 24"
    by (simp only: word_le_nat_alt n)
  then have "unat (m - 24 - word_of_int n) = unat (m - 24) - nat n"
    using n by (simp add: unat_sub)
  then show ?thesis using uint_mtu_minus(2) [OF assms(1)] assms by linarith
qed

lemma ReserveBytes_keeps_sizes:
  assumes "sizes_ok r" and "unat (mtu r) \<le> mtuLimit"
  shows "sizes_ok (snd (ReserveBytes n r))"
proof -
  have r: "0 \<le> reserved r" "int (unat (mtu r)) = 24 + reserved r + int (unat (mss r))" "0 < mss r"
      "length (rudp_buffer r) = unat (mtu r)"
    using assms(1) by (simp_all add: sizes_ok_def)
  have pos: "0 < unat (mss r)" using r(3) by (simp add: unat_gt_0)
  have mtu: "24 \<le> unat (mtu r)" using r(1,2) by linarith
  show ?thesis
  proof (cases "n \<ge> uint (mtu r - 24) \<or> n < 0")
    case True
    then show ?thesis using assms(1) by (simp add: ReserveBytes_def)
  next
    case False
    then have n: "0 \<le> n" "n < int (unat (mtu r)) - 24" using uint_mtu_minus(1) [OF mtu] by auto
    have mss: "int (unat (mtu r - 24 - word_of_int n)) = int (unat (mtu r)) - 24 - n"
      by (rule unat_mss [OF mtu]) (use n in auto)
    then have "0 < mtu r - 24 - word_of_int n" using n(2) by (simp add: word_less_nat_alt del: of_nat_unat)
    then show ?thesis
      using False n mss r(4) assms(2) by (simp add: ReserveBytes_def sizes_ok_def del: of_nat_unat)
  qed
qed

lemma SetMtu_keeps_sizes:
  assumes "sizes_ok r" and "m \<le> int mtuLimit" and room: "int IRUDP_OVERHEAD + reserved r < m"
  shows "sizes_ok (snd (SetMtu m r)) \<and> fst (SetMtu m r) = (if m < 50 then -1 else 0)"
proof -
  have r: "0 \<le> reserved r" "int (unat (mtu r)) = 24 + reserved r + int (unat (mss r))" "0 < mss r"
      "length (rudp_buffer r) = unat (mtu r)"
    using assms(1) by (simp_all add: sizes_ok_def)
  have pos: "0 < unat (mss r)" using r(3) by (simp add: unat_gt_0)
  have mtu: "24 \<le> unat (mtu r)" using r(1,2) by linarith
  show ?thesis
  proof (cases "m < 50")
    case True
    then show ?thesis using assms(1) by (simp add: SetMtu_def)
  next
    case False
    have ok: "\<not> (reserved r \<ge> uint (mtu r - 24) \<or> reserved r < 0)"
      using r(1,2) pos uint_mtu_minus(1) [OF mtu] by linarith
    have m: "unat (word_of_int m :: u32) = nat m"
      by (rule unat_of_int_small) (use room r(1) assms(2) in auto)
    have mss: "int (unat (word_of_int m - 24 - word_of_int (reserved r) :: u32)) = m - 24 - reserved r"
      using unat_mss [of "word_of_int m" "reserved r"] m room r(1) by (simp del: of_nat_unat)
    then have "0 < (word_of_int m - 24 - word_of_int (reserved r) :: u32)"
      using room by (simp add: word_less_nat_alt del: of_nat_unat)
    then show ?thesis
      using False ok m mss room r(1) assms(2) by (simp add: SetMtu_def sizes_ok_def Let_def del: of_nat_unat)
  qed
qed

section \<open>Sequences of configuration calls\<close>

datatype config_call = Cfg_ReserveBytes int | Cfg_SetMtu int | Cfg_NoDelay int int int int | Cfg_WndSize int int

fun run_config :: "config_call \<Rightarrow> RUDP \<Rightarrow> RUDP" where
  "run_config (Cfg_ReserveBytes n) r = snd (ReserveBytes n r)"
| "run_config (Cfg_SetMtu m) r = snd (SetMtu m r)"
| "run_config (Cfg_NoDelay nd iv rs nc) r = NoDelay nd iv rs nc r"
| "run_config (Cfg_WndSize a b) r = snd (WndSize a b r)"

text \<open>What the code does not check: a new MTU, if not refused, has room for a payload and at most 1500 bytes.\<close>

fun leaves_room :: "config_call \<Rightarrow> RUDP \<Rightarrow> bool" where
  "leaves_room (Cfg_SetMtu m) r \<longleftrightarrow> m < 50 \<or> int IRUDP_OVERHEAD + reserved r < m \<and> m \<le> int mtuLimit"
| "leaves_room c r \<longleftrightarrow> True"

text \<open>Nor does it check that the segments already cut fit the new payload size.\<close>

fun config_fits :: "config_call list \<Rightarrow> RUDP \<Rightarrow> bool" where
  "config_fits [] r \<longleftrightarrow> True"
| "config_fits (c # cs) r \<longleftrightarrow> leaves_room c r \<and> fits_mss (run_config c r) \<and> config_fits cs (run_config c r)"

lemma run_config_keeps:
  assumes "sizes_ok r" "unat (mtu r) \<le> mtuLimit" "leaves_room c r"
  shows "sizes_ok (run_config c r) \<and> unat (mtu (run_config c r)) \<le> mtuLimit"
proof (cases c)
  case (Cfg_ReserveBytes n)
  then show ?thesis using ReserveBytes_keeps_sizes [OF assms(1,2)] assms(2) by (simp add: ReserveBytes_def)
next
  case (Cfg_SetMtu m)
  show ?thesis
  proof (cases "m < 50")
    case True
    then show ?thesis using assms(1,2) Cfg_SetMtu by (simp add: SetMtu_def)
  next
    case False
    then have m: "int IRUDP_OVERHEAD + reserved r < m" "m \<le> int mtuLimit" using assms(3) Cfg_SetMtu by simp_all
    have "unat (word_of_int m :: u32) \<le> mtuLimit" using m(2) False by (subst unat_of_int_small) auto
    then have "unat (mtu (snd (SetMtu m r))) \<le> mtuLimit" using assms(2) by (simp add: SetMtu_def Let_def)
    then show ?thesis using SetMtu_keeps_sizes [OF assms(1) m(2,1)] Cfg_SetMtu by simp
  qed
next
  case (Cfg_NoDelay nd iv rs nc)
  then show ?thesis using assms(1,2) by (simp add: NoDelay_def sizes_ok_def Let_def)
next
  case (Cfg_WndSize x y)
  then show ?thesis using assms(1,2) by (simp add: WndSize_def sizes_ok_def Let_def)
qed

lemma fold_config_keeps:
  "sizes_ok r \<Longrightarrow> fits_mss r \<Longrightarrow> unat (mtu r) \<le> mtuLimit \<Longrightarrow> config_fits cs r \<Longrightarrow>
   sizes_ok (fold run_config cs r) \<and> fits_mss (fold run_config cs r) \<and> unat (mtu (fold run_config cs r)) \<le> mtuLimit"
  by (induction cs arbitrary: r) (use run_config_keeps in auto)

section \<open>Properties\<close>

text \<open>
  Claim C35. Calls of \<^verbatim>\<open>ReserveBytes\<close>, \<^verbatim>\<open>SetMtu\<close>, \<^verbatim>\<open>NoDelay\<close> and \<^verbatim>\<open>WndSize\<close> in any order and with
  any other arguments keep buffer, MTU, reserved bytes and MSS consistent, and \<^verbatim>\<open>flush\<close> safe in
  both modes, under two conditions the code does not check: a new MTU leaves room for a header,
  the reserved bytes and a byte of payload and is at most 1500, and no call makes the payload
  size smaller than a segment that waits. Without the first the sizes break
  (\<open>SetMtu_accepts_no_room\<close>), without the second \<^verbatim>\<open>flush\<close> panics (\<open>resend_panics_after_shrink\<close>).
\<close>

theorem configuration_keeps_sizes:
  assumes "sizes_ok r" and "fits_mss r" and "unat (mtu r) \<le> mtuLimit" and "config_fits cs r"
  shows "let r' = fold run_config cs r in sizes_ok r' \<and> unat (mtu r') \<le> mtuLimit \<and>
    (\<exists>v r2 w2. flush ackOnly r' w = Some (v, r2, w2) \<and> sizes_ok r2)"
  using fold_config_keeps [OF assms] flush_total_keeps [of "fold run_config cs r" ackOnly w] unfolding Let_def by blast

text \<open>One call of each kind on a new engine.\<close>

theorem configuration_keeps_sizes_witness:
  "\<exists>r' v r2 w2. r' = fold run_config [Cfg_ReserveBytes 20, Cfg_SetMtu 1200, Cfg_NoDelay 1 10 2 1, Cfg_WndSize 128 256] (NewRudp 7) \<and>
     mtu r' = 1200 \<and> mss r' = 1156 \<and> rcvWnd r' = 256 \<and> flush False r' (new_world []) = Some (v, r2, w2)"
proof -
  let ?cs = "[Cfg_ReserveBytes 20, Cfg_SetMtu 1200, Cfg_NoDelay 1 10 2 1, Cfg_WndSize 128 256]"
  have r: "mtu (fold run_config ?cs (NewRudp 7)) = 1200" "mss (fold run_config ?cs (NewRudp 7)) = 1156"
      "rcvWnd (fold run_config ?cs (NewRudp 7)) = 256"
    by (simp_all add: ReserveBytes_def SetMtu_def NoDelay_def WndSize_def NewRudp_def zero_RUDP_def Let_def)
  have "fits_mss (NewRudp 7)" "unat (mtu (NewRudp 7)) \<le> mtuLimit" by (simp_all add: fits_mss_def NewRudp_def zero_RUDP_def)
  moreover have "config_fits ?cs (NewRudp 7)"
    by (simp add: fits_mss_def ReserveBytes_def SetMtu_def NoDelay_def WndSize_def NewRudp_def zero_RUDP_def Let_def)
  ultimately show ?thesis
    using configuration_keeps_sizes [OF sizes_ok_NewRudp, of 7 ?cs False "new_world []"] r unfolding Let_def by blast
qed

text \<open>
  \<^verbatim>\<open>SetMtu\<close> tests the reserved bytes against the old MTU, not the new one: a new
  MTU with no room left for a payload is accepted, and the payload size becomes 0 or wraps
  to more than \<open>2^31\<close>.
\<close>

lemma SetMtu_accepts_no_room:
  assumes "sizes_ok r" and "unat (mtu r) \<le> mtuLimit" and "50 \<le> m" and "m \<le> int IRUDP_OVERHEAD + reserved r"
  shows "fst (SetMtu m r) = 0 \<and> (mss (snd (SetMtu m r)) = 0 \<or> 2 ^ 31 < unat (mss (snd (SetMtu m r))))"
proof -
  have r: "0 \<le> reserved r" "int (unat (mtu r)) = 24 + reserved r + int (unat (mss r))" "0 < mss r"
    using assms(1) by (simp_all add: sizes_ok_def)
  have pos: "0 < unat (mss r)" using r(3) by (simp add: unat_gt_0)
  have mtu: "24 \<le> unat (mtu r)" using r(1,2) by linarith
  have ok: "\<not> (reserved r \<ge> uint (mtu r - 24) \<or> reserved r < 0)"
    using r(1,2) pos uint_mtu_minus(1) [OF mtu] by linarith
  define d where "d = m - 24 - reserved r"
  have run: "fst (SetMtu m r) = 0" "mss (snd (SetMtu m r)) = word_of_int d"
    using assms(3) ok by (simp_all add: SetMtu_def Let_def d_def)
  have "int (unat (mtu r)) \<le> 1500" using assms(2) by linarith
  then have d: "- 1500 \<le> d" "d \<le> 0" using assms(3,4) r(1,2) unfolding d_def by linarith+
  have "2 ^ 31 < unat (word_of_int d :: u32)" if "d \<noteq> 0"
  proof -
    have "(d + 2 ^ 32) mod 2 ^ 32 = d + 2 ^ 32"
      using d that by (intro mod_pos_pos_trivial) auto
    then have "d mod 2 ^ 32 = d + 2 ^ 32" by (simp only: mod_add_self2)
    then have "unat (word_of_int d :: u32) = nat (d + 2 ^ 32)"
      by (simp add: unat_eq_nat_uint uint_word_of_int)
    then show ?thesis using d by simp
  qed
  then show ?thesis using run by (cases "d = 0") simp_all
qed

lemma SetMtu_accepts_no_room_witness:
  "fst (SetMtu 60 (snd (ReserveBytes 100 (NewRudp 7)))) = 0 \<and>
   2 ^ 31 < unat (mss (snd (SetMtu 60 (snd (ReserveBytes 100 (NewRudp 7))))))"
proof -
  let ?r = "snd (ReserveBytes 100 (NewRudp 7))"
  have r: "mtu ?r = 1400" "reserved ?r = 100" by (simp_all add: ReserveBytes_def NewRudp_def zero_RUDP_def)
  have "sizes_ok ?r" by (simp add: sizes_ok_def ReserveBytes_def NewRudp_def zero_RUDP_def)
  moreover have "mss (snd (SetMtu 60 ?r)) \<noteq> 0"
    by (simp add: SetMtu_def ReserveBytes_def NewRudp_def zero_RUDP_def Let_def)
  ultimately show ?thesis using SetMtu_accepts_no_room [of ?r 60] by (simp add: r)
qed

text \<open>
  Shrinking the MTU while longer segments wait is accepted too, and then sending
  such a segment panics whatever the state of the packet under construction: \<^verbatim>\<open>makeSpace\<close> can
  only empty the buffer, and the payload does not fit behind the header.
\<close>

lemma resend_panics_after_shrink:
  assumes "length (fst (rs_ptr st)) = unat (mtu r)" and "0 \<le> reserved r"
    and "int (unat (mtu r)) < reserved r + int IRUDP_OVERHEAD + int (length (seg_data s))"
    and "reserved r \<le> int (snd (rs_ptr st))"
  shows "resend_put r seg s st = None"
proof -
  obtain buf p where ptr: "rs_ptr st = (buf, p)" by (cases "rs_ptr st")
  obtain c w where w: "currentMs (rs_world st) = (c, w)" by (cases "currentMs (rs_world st)")
  let ?s = "s\<lparr>seg_xmit := seg_xmit s + 1, seg_ts := c, seg_wnd := seg_wnd seg, seg_una := seg_una seg\<rparr>"
  have full: "unat (mtu r) < p + (24 + length (seg_data s))"
    using assms(3,4) unfolding ptr snd_conv by linarith
  have too_long: "Option.bind (encodeOverHead ?s (buf, q) w1) (\<lambda>(ptr, w). encodeData ?s ptr) = None"
    if "unat (mtu r) < q + (24 + length (seg_data s))" for q w1
    using that assms(1) ptr
    by (auto simp: encodeOverHead_put encodeData_def put_bytes_def)
  show ?thesis
  proof (cases "start_ptr r buf")
    case None
    then show ?thesis using full by (simp add: resend_put_def w Let_def makeSpace_def ptr)
  next
    case (Some c1)
    then have c1: "c1 = (buf, nat (reserved r))" by (simp add: start_ptr_def split: if_splits)
    have "unat (mtu r) < nat (reserved r) + (24 + length (seg_data s))" using assms(2,3) by linarith
    from too_long [OF this, of "call_output buf p w"] Some c1 full show ?thesis
      by (auto simp: resend_put_def w Let_def makeSpace_def ptr split: bind_splits prod.splits)
  qed
qed

text \<open>A segment of 40 bytes waits; the MTU is set to 50.\<close>

definition demo_shrunk :: RUDP where
  "demo_shrunk = snd (SetMtu 50 ((NewRudp 7)\<lparr>sndQueue := [zero_segment\<lparr>seg_data := replicate 40 1\<rparr>]\<rparr>))"

lemma resend_panics_after_shrink_witness:
  "resend_put demo_shrunk (ack_template demo_shrunk) (sndQueue demo_shrunk ! 0)
     \<lparr>rs_current = 9, rs_change = 0, rs_fast = 0, rs_early = 0, rs_lost = 0, rs_minRto = 100, rs_state = 0,
      rs_ptr = (rudp_buffer demo_shrunk, 0), rs_world = new_world [9]\<rparr> = None"
proof -
  have "mtu demo_shrunk = 50" "reserved demo_shrunk = 0" "length (rudp_buffer demo_shrunk) = 50"
    "length (seg_data (sndQueue demo_shrunk ! 0)) = 40"
    by (simp_all add: demo_shrunk_def SetMtu_def NewRudp_def zero_RUDP_def Let_def)
  then show ?thesis by (intro resend_panics_after_shrink) simp_all
qed

text \<open>
  \<^verbatim>\<open>NoDelay\<close> clips the flush interval to 10 ms up to 5 s and sets the minimum timeout
  to 30 or 100 ms; a negative argument leaves its setting as it is.
\<close>

lemma NoDelay_settings:
  "let r' = NoDelay nd iv rs nc r in
    (iv < 0 \<longrightarrow> interval r' = interval r) \<and> (0 \<le> iv \<longrightarrow> unat (interval r') = nat (max 10 (min 5000 iv))) \<and>
    (nd < 0 \<longrightarrow> rxMinRTO r' = rxMinRTO r \<and> noDelay r' = noDelay r) \<and>
    (nd = 0 \<longrightarrow> rxMinRTO r' = IRUDP_RTO_MIN \<and> noDelay r' = 0) \<and> (0 < nd \<longrightarrow> rxMinRTO r' = IRUDP_RTO_NDL) \<and>
    (rs < 0 \<longrightarrow> fastResend r' = fastResend r) \<and> (nc < 0 \<longrightarrow> noCwnd r' = noCwnd r) \<and>
    (0 \<le> nc \<longrightarrow> noCwnd r' = word_of_int nc)"
proof -
  have "unat (word_of_int (max 10 (min 5000 iv)) :: u32) = nat (max 10 (min 5000 iv))"
    by (rule unat_of_int_small) auto
  moreover have "(if iv > 5000 then 5000 else if iv < 10 then 10 else iv) = max 10 (min 5000 iv)" by auto
  ultimately show ?thesis by (simp add: NoDelay_def Let_def)
qed

lemma NoDelay_settings_witness:
  "unat (interval (NoDelay 1 3 2 1 (NewRudp 7))) = 10 \<and> rxMinRTO (NoDelay 1 3 2 1 (NewRudp 7)) = 30"
  using NoDelay_settings [of 1 3 2 1 "NewRudp 7"] by (simp add: Let_def)

end
