(* ===== verification/Rudp_Calls.thy ===== *)
theory Rudp_Calls
  imports Rudp_Connection
begin

text \<open>
  The output calls of the engine: every call hands over a write position within its buffer,
  so \<^verbatim>\<open>buf[:size]\<close> in the callback never panics, and calls are only ever added.
\<close>

definition cursor_ok :: "cursor \<Rightarrow> bool" where
  "cursor_ok c \<longleftrightarrow> snd c \<le> length (fst c)"

definition calls_ok :: "world \<Rightarrow> world \<Rightarrow> bool" where
  "calls_ok w w' \<longleftrightarrow> (\<exists>os. out_calls w' = out_calls w @ os \<and> (\<forall>(buf, sz) \<in> set os. sz \<le> length buf))"

lemma calls_ok_refl [intro]: "out_calls w' = out_calls w \<Longrightarrow> calls_ok w w'"
  by (simp add: calls_ok_def)

lemma calls_ok_trans [trans]: "calls_ok a b \<Longrightarrow> calls_ok b c \<Longrightarrow> calls_ok a c"
  unfolding calls_ok_def by (metis (no_types, lifting) Un_iff append.assoc set_append)

lemma calls_ok_out: "sz \<le> length buf \<Longrightarrow> calls_ok w (call_output buf sz w)"
  by (simp add: calls_ok_def)

lemma put_bytes_ok: "put_bytes c bs = Some c' \<Longrightarrow> cursor_ok c'"
  by (auto simp: put_bytes_def cursor_ok_def split: prod.splits if_splits)

lemma start_ptr_ok: "start_ptr r buf = Some c \<Longrightarrow> cursor_ok c"
  by (auto simp: start_ptr_def cursor_ok_def split: if_splits)

lemma makeSpace_calls:
  assumes "cursor_ok ptr" "makeSpace r n ptr w = Some (ptr', w')"
  shows "cursor_ok ptr' \<and> calls_ok w w'"
proof -
  obtain buf sz where ptr: "ptr = (buf, sz)" by (cases ptr)
  show ?thesis
  proof (cases "sz + n \<ge> unat (mtu r)")
    case True
    then have "start_ptr r buf = Some ptr'" "w' = call_output buf sz w"
      using assms(2) by (auto simp: makeSpace_def ptr bind_eq_Some_conv)
    then show ?thesis using assms(1) start_ptr_ok calls_ok_out by (simp add: ptr cursor_ok_def [of "(buf, sz)"])
  next
    case False
    then show ?thesis using assms by (auto simp: makeSpace_def ptr)
  qed
qed

lemma encodeOverHead_calls: "encodeOverHead s ptr w = Some (ptr', w') \<Longrightarrow> cursor_ok ptr' \<and> calls_ok w w'"
  by (auto simp: encodeOverHead_put bind_eq_Some_conv put_bytes_ok)

lemma flush_acks_calls:
  "flush_acks r seg q ptr w = Some (seg', ptr', w') \<Longrightarrow> cursor_ok ptr \<Longrightarrow> cursor_ok ptr' \<and> calls_ok w w'"
proof (induction r seg q ptr w rule: flush_acks.induct)
  case (2 r seg ack q ptr w)
  obtain ptr1 w1 where 1: "makeSpace r 24 ptr w = Some (ptr1, w1)" using 2(3) by (auto simp: bind_eq_Some_conv)
  note sp = makeSpace_calls [OF 2(4) 1]
  show ?case
  proof (cases "ack_sn ack \<ge> rcvNxt r \<or> q = []")
    case True
    let ?s = "seg\<lparr>seg_sn := ack_sn ack, seg_ts := ack_ts ack\<rparr>"
    obtain ptr2 w2 where e: "encodeOverHead ?s ptr1 w1 = Some (ptr2, w2)"
      and r: "flush_acks r ?s q ptr2 w2 = Some (seg', ptr', w')"
      using 2(3) 1 True by (auto simp: bind_eq_Some_conv Let_def)
    from encodeOverHead_calls [OF e] 2(1) [OF 1 refl True refl e refl r] sp show ?thesis
      by (blast intro: calls_ok_trans)
  next
    case False
    then have "flush_acks r seg q ptr1 w1 = Some (seg', ptr', w')" using 2(3) 1 by auto
    then show ?thesis using 2(2) [OF 1 refl False] sp by (blast intro: calls_ok_trans)
  qed
qed auto

lemma flush_ask_calls:
  assumes "flush_ask bits cmd r seg ptr w = Some (seg', ptr', w')" "cursor_ok ptr"
  shows "cursor_ok ptr' \<and> calls_ok w w'"
proof (cases "probe r AND bits = 0")
  case True
  then show ?thesis using assms by (auto simp: flush_ask_def)
next
  case False
  then obtain p1 w1 where 1: "makeSpace r 24 ptr w = Some (p1, w1)" "encodeOverHead (seg\<lparr>seg_cmd := cmd\<rparr>) p1 w1 = Some (ptr', w')"
    using assms(1) by (auto simp: flush_ask_def bind_eq_Some_conv Let_def)
  then show ?thesis
    using makeSpace_calls [OF assms(2) 1(1)] encodeOverHead_calls [OF 1(2)] by (blast intro: calls_ok_trans)
qed

lemma resend_put_calls:
  assumes "resend_put r seg s st = Some (s', st')" "cursor_ok (rs_ptr st)"
  shows "cursor_ok (rs_ptr st') \<and> calls_ok (rs_world st) (rs_world st')"
proof -
  obtain t w0 where c: "currentMs (rs_world st) = (t, w0)" by (cases "currentMs (rs_world st)")
  then have w0: "out_calls w0 = out_calls (rs_world st)" by (metis currentMs_frame(1) snd_conv)
  let ?s = "s\<lparr>seg_xmit := seg_xmit s + 1, seg_ts := t, seg_wnd := seg_wnd seg, seg_una := seg_una seg\<rparr>"
  obtain p1 w1 p2 w2 p3 where 1: "makeSpace r (24 + length (seg_data s)) (rs_ptr st) w0 = Some (p1, w1)"
    "encodeOverHead ?s p1 w1 = Some (p2, w2)" "encodeData ?s p2 = Some p3" "rs_ptr st' = p3" "rs_world st' = w2"
    using assms(1) by (auto simp: resend_put_def c Let_def bind_eq_Some_conv split: if_splits)
  have "cursor_ok p3" using 1(3) by (simp add: encodeData_def put_bytes_ok)
  then show ?thesis
    using makeSpace_calls [OF assms(2) 1(1)] encodeOverHead_calls [OF 1(2)] calls_ok_refl [OF w0] 1(4,5)
    by (blast intro: calls_ok_trans)
qed

lemma resend_one_calls:
  assumes "resend_one r seg resent k s st = Some (s', st')" "cursor_ok (rs_ptr st)"
  shows "cursor_ok (rs_ptr st') \<and> calls_ok (rs_world st) (rs_world st')"
proof (cases "seg_acked s = 1")
  case True
  then show ?thesis using assms by (auto simp: resend_one_def)
next
  case False
  obtain b s1 st1 where d: "resend_decide r resent k s st = (b, s1, st1)" by (cases "resend_decide r resent k s st")
  note fr = resend_decide_frame [OF d]
  obtain s2 st2 where 2: "(if b then resend_put r seg s1 st1 else Some (s1, st1)) = Some (s2, st2)"
    "rs_ptr st' = rs_ptr st2" "rs_world st' = rs_world st2"
    using assms(1) False by (auto simp: resend_one_def d bind_eq_Some_conv Let_def split: if_splits)
  show ?thesis
  proof (cases b)
    case True
    then show ?thesis using 2 resend_put_calls [of r seg s1 st1 s2 st2] fr assms(2) by simp
  next
    case False
    then show ?thesis using 2 fr assms(2) by auto
  qed
qed

lemma resend_loop_calls:
  "resend_loop r seg resent k q st = Some (q', st') \<Longrightarrow> cursor_ok (rs_ptr st) \<Longrightarrow>
   cursor_ok (rs_ptr st') \<and> calls_ok (rs_world st) (rs_world st')"
proof (induction q arbitrary: q' st)
  case (Cons s q)
  obtain s1 st1 q1 where 1: "resend_one r seg resent k s st = Some (s1, st1)" "resend_loop r seg resent k q st1 = Some (q1, st')"
    using Cons.prems(1) by (auto simp: bind_eq_Some_conv)
  from resend_one_calls [OF 1(1) Cons.prems(2)] Cons.IH [OF 1(2)] show ?case by (blast intro: calls_ok_trans)
qed auto

lemma probe_timer_calls: "calls_ok w (snd (probe_timer r w))"
  by (rule calls_ok_refl) (simp add: probe_timer_def Let_def currentMs_def)

lemma flushBuffer_calls: "cursor_ok ptr \<Longrightarrow> calls_ok w (flushBuffer r ptr w)"
  by (auto simp: flushBuffer_def cursor_ok_def calls_ok_out split: prod.splits)

lemma flush_stats_calls: "calls_ok w (flush_stats st w)"
  by (rule calls_ok_refl) (simp add: flush_stats_def Let_def)

lemma flush_data_calls:
  assumes "flush_data r seg ptr w = Some (v, r', w')" "cursor_ok ptr"
  shows "calls_ok w w'"
proof -
  obtain r1 w1 where 1: "probe_timer r w = (r1, w1)" by (cases "probe_timer r w")
  obtain s2 p2 w2 s3 p3 w3 where 2: "flush_ask 1 83 r1 seg ptr w1 = Some (s2, p2, w2)" "flush_ask 2 84 r1 s2 p2 w2 = Some (s3, p3, w3)"
    using assms(1) by (auto simp: flush_data_def 1 bind_eq_Some_conv)
  let ?r = "r1\<lparr>probe := 0\<rparr>"
  obtain n r4 where 4: "admit (send_window r1) ?r = (n, r4)" by (cases "admit (send_window r1) ?r")
  obtain t w4 where t: "currentMs w3 = (t, w4)" by (cases "currentMs w3")
  then have w4: "out_calls w4 = out_calls w3" by (metis currentMs_frame(1) snd_conv)
  let ?st = "\<lparr>rs_current = t, rs_change = 0, rs_fast = 0, rs_early = 0, rs_lost = 0,
              rs_minRto = ucast (interval r4), rs_state = rudp_state r4, rs_ptr = p3, rs_world = w4\<rparr>"
  obtain b st where 5: "resend_loop r4 s3 (resent_limit r4) n (sndBuf r4) ?st = Some (b, st)"
    and w': "w' = flush_stats st (flushBuffer (r4\<lparr>sndBuf := b, rudp_state := rs_state st, rudp_buffer := fst (rs_ptr st)\<rparr>) (rs_ptr st) (rs_world st))"
    using assms(1) by (auto simp: flush_data_def 1 2 4 t bind_eq_Some_conv Let_def)
  have p: "cursor_ok p2" "cursor_ok p3" using flush_ask_calls 2 assms(2) by blast+
  have "calls_ok w w1" using probe_timer_calls [of w r] 1 by simp
  also have "calls_ok w1 w2" using flush_ask_calls [OF 2(1) assms(2)] by blast
  also have "calls_ok w2 w3" using flush_ask_calls [OF 2(2) p(1)] by blast
  also have "calls_ok w3 w4" using w4 by blast
  also have "calls_ok w4 (rs_world st)" using resend_loop_calls [OF 5] p(2) by simp
  also have "calls_ok (rs_world st) w'"
    unfolding w' using resend_loop_calls [OF 5] p(2) by (intro calls_ok_trans [OF flushBuffer_calls flush_stats_calls]) simp
  finally show ?thesis .
qed

lemma flush_calls:
  assumes "flush ackOnly r w = Some (v, r', w')"
  shows "calls_ok w w'"
proof -
  obtain p0 s1 p1 w1 where 1: "start_ptr r (rudp_buffer r) = Some p0"
    "flush_acks r (ack_template r) (ackList r) p0 w = Some (s1, p1, w1)"
    using assms by (auto simp: flush_def bind_eq_Some_conv)
  note a = flush_acks_calls [OF 1(2) start_ptr_ok [OF 1(1)]]
  show ?thesis
  proof (cases ackOnly)
    case True
    then have "w' = flushBuffer (r\<lparr>ackList := []\<rparr>) p1 w1" using assms 1 by (auto simp: flush_def Let_def)
    then show ?thesis using a flushBuffer_calls by (blast intro: calls_ok_trans)
  next
    case False
    then have "flush_data (r\<lparr>ackList := []\<rparr>) s1 p1 w1 = Some (v, r', w')" using assms 1 by (auto simp: flush_def Let_def)
    then show ?thesis using a flush_data_calls by (blast intro: calls_ok_trans)
  qed
qed

interpretation calling: input_contract "\<lambda>_ w. calls_ok w0 w" "\<lambda>_ _. True" for w0
proof
  fix w upd n
  show "calls_ok w0 w \<Longrightarrow> calls_ok w0 (AddUint64 upd n w)" by (erule calls_ok_trans) auto
  show "calls_ok w0 w \<Longrightarrow> calls_ok w0 (snd (currentMs w))" by (erule calls_ok_trans) auto
  show "calls_ok w0 w \<Longrightarrow> flush ackOnly r w = Some (v, r', w') \<Longrightarrow> calls_ok w0 w'" for ackOnly r v r' w'
    by (erule calls_ok_trans [OF _ flush_calls])
qed

lemma Input_calls: "Input data regular ackNoDelay r w = Some (c, r', w') \<Longrightarrow> calls_ok w w'"
  using calling.keep_Input [of w w] by fastforce

end
