(* ===== verification/Session_Spec.thy ===== *)
theory Session_Spec
  imports Session Session_Tx_Spec Rudp_Config Rudp_Calls
begin

text \<open>
  The invariant of a session and the totality of its operations: whatever arrives from the
  network, from the user or from the timer, no operation panics or runs for ever.
\<close>

section \<open>Engines that cannot panic\<close>

text \<open>
  The sizes are consistent and every payload fits a packet. Unlike \<^const>\<open>sender_ok\<close> this
  survives \<^verbatim>\<open>ReleaseTX\<close>, so it also covers sessions after \<^verbatim>\<open>Close\<close>.
\<close>

definition safe :: "RUDP \<Rightarrow> bool" where
  "safe r \<longleftrightarrow> sizes_ok r \<and> fits_mss r"

lemma safe_cong:
  "safe r \<Longrightarrow> mss r' = mss r \<Longrightarrow> mtu r' = mtu r \<Longrightarrow> reserved r' = reserved r \<Longrightarrow> rudp_buffer r' = rudp_buffer r \<Longrightarrow>
   sndQueue r' = sndQueue r \<Longrightarrow> sndBuf r' = sndBuf r \<Longrightarrow> safe r'"
  by (simp add: safe_def sizes_ok_def fits_mss_def)

lemma safe_mss: "safe r \<Longrightarrow> mss r \<noteq> 0"
  by (auto simp: safe_def sizes_ok_def)

interpretation safety: total_contract "\<lambda>r _. safe r" "\<lambda>_ body. length body \<le> mtuLimit"
proof
  fix r u sn ts h body conv b r' old ackOnly w v w' rtt x y
  show "safe r \<Longrightarrow> safe (r\<lparr>rmtWnd := x\<rparr>)" by (erule safe_cong) simp_all
  show "safe r \<Longrightarrow> safe (r\<lparr>probe := y\<rparr>)" by (erule safe_cong) simp_all
  show "safe r \<Longrightarrow> safe (pushAck sn ts r)" by (erule safe_cong) (simp_all add: pushAck_def)
  show "safe r \<Longrightarrow> safe (ack_una u r)"
    using ack_una_frame [of u r] by (auto simp: safe_def sizes_ok_def fits_mss_def dest!: in_set_dropD)
  show "safe r \<Longrightarrow> safe (parseFastAck sn ts (parseAck sn r))"
    using parse_acks_frame [of sn ts r] by (auto simp: safe_def sizes_ok_def elim!: fits_mss_sub)
  show "safe r \<Longrightarrow> parseData (push_segment conv h body) r = Some (b, r') \<Longrightarrow> safe r'"
    by (drule parseData_frame) (auto elim!: safe_cong)
  show "safe r \<Longrightarrow> safe (updateRTO rtt r)" using updateRTO_frame [of rtt r] by (auto elim!: safe_cong)
  show "safe r \<Longrightarrow> grow_cwnd old r = Some r' \<Longrightarrow> safe r'"
    by (frule safe_mss, drule (1) grow_cwnd_frame) (auto elim!: safe_cong)
  show "safe r \<Longrightarrow> flush ackOnly r w = Some (v, r', w') \<Longrightarrow> safe r'"
    using flush_keeps [of r ackOnly w v r' w'] by (auto simp: safe_def)
  show "safe r \<Longrightarrow> length body \<le> mtuLimit \<Longrightarrow> parseData (push_segment conv h body) r \<noteq> None"
    using parseData_total [of "push_segment conv h body" r] by (auto simp: push_segment_def)
  show "safe r \<Longrightarrow> grow_cwnd old r \<noteq> None" using grow_cwnd_total [OF safe_mss, of r old] by auto
  show "safe r \<Longrightarrow> flush ackOnly r w \<noteq> None" using flush_total_keeps [of r ackOnly w] by (auto simp: safe_def)
qed

section \<open>What the engine hands to the callback\<close>

text \<open>
  \<open>emits m k c ps0\<close>: through a call the MTU \<open>m\<close>, the reserved bytes \<open>k\<close> and the conversation
  \<open>c\<close> stay, the engine stays safe, and the packets output after \<open>ps0\<close> have at most
  \<open>m\<close> bytes.
\<close>

definition emits :: "u32 \<Rightarrow> int \<Rightarrow> u32 \<Rightarrow> u8 list list \<Rightarrow> RUDP \<Rightarrow> world \<Rightarrow> bool" where
  "emits m k c ps0 r w \<longleftrightarrow> safe r \<and> mtu r = m \<and> reserved r = k \<and> rudp_conv r = c \<and>
     (\<exists>ps. packets w = ps0 @ ps \<and> (\<forall>p \<in> set ps. length p \<le> unat m))"

lemma emits_cong:
  "emits m k c ps0 r w \<Longrightarrow> safe r' \<Longrightarrow> mtu r' = mtu r \<Longrightarrow> reserved r' = reserved r \<Longrightarrow> rudp_conv r' = rudp_conv r \<Longrightarrow>
   packets w' = packets w \<Longrightarrow> emits m k c ps0 r' w'"
  by (simp add: emits_def)

lemma emits_flush:
  assumes "emits m k c ps0 r w" "flush ackOnly r w = Some (v, r', w')"
  shows "emits m k c ps0 r' w'"
proof -
  have ok: "sizes_ok r" "fits_mss r" "safe r" using assms(1) by (simp_all add: emits_def safe_def)
  have fr: "flush_frame r r'" using flush_keeps [OF ok(1,2) assms(2)] by blast
  have ok': "safe r'" using safety.keep_flush [OF ok(3) assms(2)] .
  obtain ps where ps: "packets w = ps0 @ ps" "\<forall>p \<in> set ps. length p \<le> unat m" "mtu r = m"
    using assms(1) by (auto simp: emits_def)
  obtain gs where gs: "packets w' = packets w @ map (frame_packet (reserved_bytes r)) gs"
      "\<forall>g \<in> set gs. length (frame_packet (reserved_bytes r) g) \<le> unat (mtu r)"
  proof (cases ackOnly)
    case True
    obtain r1 w1 gs where "flush True r w = Some (interval r, r1, w1)"
        "packets w1 = packets w @ map (frame_packet (reserved_bytes r)) gs"
        "\<forall>g \<in> set gs. length (frame_packet (reserved_bytes r) g) \<le> unat (mtu r)"
      using flush_ack_only [OF ok(1), of w] by blast
    then show ?thesis using that [of gs] assms(2) True by simp
  next
    case False
    obtain v1 r1 w1 gs where "flush False r w = Some (v1, r1, w1)"
        "packets w1 = packets w @ map (frame_packet (reserved_bytes r)) gs"
        "\<forall>g \<in> set gs. length (frame_packet (reserved_bytes r) g) \<le> unat (mtu r)"
      using flush_full [OF ok(1,2), of w] by blast
    then show ?thesis using that [of gs] assms(2) False by simp
  qed
  then have "packets w' = ps0 @ (ps @ map (frame_packet (reserved_bytes r)) gs)" using ps(1) by simp
  moreover have "\<forall>p \<in> set (ps @ map (frame_packet (reserved_bytes r)) gs). length p \<le> unat m"
    using ps(2,3) gs(2) by auto
  ultimately show ?thesis
    using assms(1) fr ok' unfolding emits_def by (auto simp: flush_frame_def)
qed

interpretation emitting: total_contract "emits m k c ps0" "\<lambda>_ body. length body \<le> mtuLimit" for m k c ps0
proof
  fix r u sn ts h body conv b r' old ackOnly w v w' rtt x y upd n
  have ok: "emits m k c ps0 r w \<Longrightarrow> safe r" by (simp add: emits_def)
  show "emits m k c ps0 r w \<Longrightarrow> emits m k c ps0 (r\<lparr>rmtWnd := x\<rparr>) w"
    by (frule ok, erule emits_cong) (auto intro: safety.keep_wnd)
  show "emits m k c ps0 r w \<Longrightarrow> emits m k c ps0 (r\<lparr>probe := y\<rparr>) w"
    by (frule ok, erule emits_cong) (auto intro: safety.keep_ask)
  show "emits m k c ps0 r w \<Longrightarrow> emits m k c ps0 r (AddUint64 upd n w)"
    by (frule ok, erule emits_cong) auto
  show "emits m k c ps0 r w \<Longrightarrow> emits m k c ps0 r (snd (currentMs w))"
    by (frule ok, erule emits_cong) auto
  show "emits m k c ps0 (pushAck sn ts r) w" if inv: "emits m k c ps0 r w"
    by (rule emits_cong [OF inv safety.keep_pushAck [OF ok [OF inv]]]) (simp_all add: pushAck_def)
  show "emits m k c ps0 (ack_una u r) w" if inv: "emits m k c ps0 r w"
  proof -
    obtain n x where "ack_una u r = r\<lparr>sndBuf := drop n (sndBuf r), sndUna := x\<rparr>" using ack_una_frame by blast
    then show ?thesis by (intro emits_cong [OF inv safety.keep_una [OF ok [OF inv]]]) simp_all
  qed
  show "emits m k c ps0 (parseFastAck sn ts (parseAck sn r)) w" if inv: "emits m k c ps0 r w"
  proof -
    obtain b where "parseFastAck sn ts (parseAck sn r) = r\<lparr>sndBuf := b\<rparr>" using parse_acks_frame [of sn ts r] by blast
    then show ?thesis by (intro emits_cong [OF inv safety.keep_ack [OF ok [OF inv]]]) simp_all
  qed
  show "emits m k c ps0 r' w" if inv: "emits m k c ps0 r w" and len: "length body \<le> 1500" "hd_cmd h = 81"
    and run: "parseData (push_segment conv h body) r = Some (b, r')"
  proof -
    have "mtu r' = mtu r" "reserved r' = reserved r" "rudp_conv r' = rudp_conv r" using parseData_frame [OF run] by auto
    then show ?thesis by (intro emits_cong [OF inv safety.keep_store [OF ok [OF inv] len run]]) simp_all
  qed
  show "emits m k c ps0 (updateRTO rtt r) w" if inv: "emits m k c ps0 r w"
  proof -
    obtain x y z where "updateRTO rtt r = r\<lparr>rxSRTT := x, rxRTTVal := y, rxRTO := z\<rparr>" using updateRTO_frame by blast
    then show ?thesis by (intro emits_cong [OF inv safety.keep_rtt [OF ok [OF inv]]]) simp_all
  qed
  show "emits m k c ps0 r' w" if inv: "emits m k c ps0 r w" and run: "grow_cwnd old r = Some r'"
  proof -
    obtain x y where "r' = r\<lparr>cwnd := x, incr := y\<rparr>"
      using grow_cwnd_frame [OF safe_mss [OF ok [OF inv]] run] by blast
    then show ?thesis by (intro emits_cong [OF inv safety.keep_grow [OF ok [OF inv] run]]) simp_all
  qed
  show "emits m k c ps0 r w \<Longrightarrow> flush ackOnly r w = Some (v, r', w') \<Longrightarrow> emits m k c ps0 r' w'"
    by (rule emits_flush)
  show "emits m k c ps0 r w \<Longrightarrow> length body \<le> 1500 \<Longrightarrow> parseData (push_segment conv h body) r \<noteq> None"
    by (rule safety.store_total [OF ok])
  show "emits m k c ps0 r w \<Longrightarrow> grow_cwnd old r \<noteq> None"
    by (rule safety.grow_total [OF ok])
  show "emits m k c ps0 r w \<Longrightarrow> flush ackOnly r w \<noteq> None"
    by (rule safety.flush_total [OF ok])
qed

section \<open>The invariant\<close>

text \<open>
  Between two operations the engine is safe and reserves exactly the
  session's header, packets fit the pooled buffers, and nothing waits in the transmission
  queue.
\<close>

definition session_ok :: "UDPSession \<Rightarrow> bool" where
  "session_ok s \<longleftrightarrow> safe (s_rudp s) \<and> reserved (s_rudp s) = int (headerSize s) \<and>
     unat (mtu (s_rudp s)) \<le> mtuLimit \<and> txqueue s = []"

text \<open>The datagrams the callback makes of the packets.\<close>

definition transmits :: "nat \<Rightarrow> addr \<Rightarrow> u8 list list \<Rightarrow> datagram list" where
  "transmits hs remote ps = map (\<lambda>p. (p, remote)) (filter (\<lambda>p. 24 + hs \<le> length p) ps)"

lemma output_calls_eq:
  assumes "\<forall>(buf, sz) \<in> set cs. sz \<le> length buf \<and> sz \<le> mtuLimit"
  shows "output_calls cs s = Some (s\<lparr>txqueue := txqueue s @ transmits (headerSize s) (s_remote s) (map (\<lambda>(buf, sz). take sz buf) cs)\<rparr>)"
  using assms
proof (induction cs arbitrary: s)
  case (Cons c cs)
  obtain buf sz where c: "c = (buf, sz)" by (cases c)
  let ?d = "(take sz buf, s_remote s)"
  define s1 where "s1 = (if sz \<ge> 24 + headerSize s then s\<lparr>txqueue := txqueue s @ [?d]\<rparr> else s)"
  have step: "output_calls (c # cs) s = output_calls cs s1"
    using Cons.prems by (simp add: c s1_def sess_output_def)
  have "output_calls cs s1 = Some (s1\<lparr>txqueue := txqueue s1 @ transmits (headerSize s1) (s_remote s1) (map (\<lambda>(buf, sz). take sz buf) cs)\<rparr>)"
    using Cons by simp
  then show ?case unfolding step using Cons.prems by (simp add: c s1_def transmits_def)
qed (simp add: transmits_def)

lemma engine_total:
  assumes "session_ok s" and "f (s_rudp s) (h_world h) = Some (v, r, w)"
    and "emits (mtu (s_rudp s)) (reserved (s_rudp s)) c (packets (h_world h)) r w" and "calls_ok (h_world h) w"
  shows "\<exists>ps. packets w = packets (h_world h) @ ps \<and> engine f s h =
    Some (v, s\<lparr>s_rudp := r, txqueue := transmits (headerSize s) (s_remote s) ps\<rparr>, h\<lparr>h_world := w\<rparr>)"
proof -
  obtain os where os: "out_calls w = out_calls (h_world h) @ os" "\<forall>(buf, sz) \<in> set os. sz \<le> length buf"
    using assms(4) by (auto simp: calls_ok_def)
  let ?ps = "map (\<lambda>(buf, sz). take sz buf) os"
  have new: "packets w = packets (h_world h) @ ?ps" using os(1) by (simp add: packets_def)
  obtain ps where "packets w = packets (h_world h) @ ps" "\<forall>p \<in> set ps. length p \<le> unat (mtu (s_rudp s))"
    using assms(3) by (auto simp: emits_def)
  then have "\<forall>p \<in> set ?ps. length p \<le> mtuLimit" using new assms(1) by (fastforce simp: session_ok_def)
  then have "\<forall>(buf, sz) \<in> set os. sz \<le> length buf \<and> sz \<le> mtuLimit" using os(2) by fastforce
  from output_calls_eq [OF this] have "engine f s h =
      Some (v, s\<lparr>s_rudp := r, txqueue := transmits (headerSize s) (s_remote s) ?ps\<rparr>, h\<lparr>h_world := w\<rparr>)"
    using assms(1,2) os(1) by (simp add: engine_def session_ok_def)
  with new show ?thesis by blast
qed

section \<open>An engine call and the transmission after it\<close>

text \<open>
  \<open>transmitted s h r w s' h'\<close>: the session \<open>s\<close> made an engine call that gave \<open>r\<close> and \<open>w\<close>,
  and after \<^verbatim>\<open>uncork\<close> it is \<open>s'\<close>; only packets of the engine went to the peer.
\<close>

definition same_settings :: "UDPSession \<Rightarrow> UDPSession \<Rightarrow> bool" where
  "same_settings s s' \<longleftrightarrow> headerSize s' = headerSize s \<and> s_remote s' = s_remote s \<and> s_bufPtr s' = s_bufPtr s \<and>
     s_block s' = s_block s \<and> s_die s' = s_die s \<and> s_listener s' = s_listener s \<and> s_ownConn s' = s_ownConn s \<and>
     s_ackNoDelay s' = s_ackNoDelay s \<and> writeDelay s' = writeDelay s \<and> s_xconn s' = s_xconn s \<and>
     readDdl s' = readDdl s \<and> writeDdl s' = writeDdl s \<and> socketReadError s' = socketReadError s \<and> s_rcvBuf s' = s_rcvBuf s"

definition transmitted :: "UDPSession \<Rightarrow> host \<Rightarrow> RUDP \<Rightarrow> world \<Rightarrow> UDPSession \<Rightarrow> host \<Rightarrow> bool" where
  "transmitted s h r w s' h' \<longleftrightarrow> session_ok s' \<and> batches_ok h' \<and> same_settings s s' \<and> s_rudp s' = r \<and>
     out_calls (h_world h') = out_calls w \<and> clock (h_world h') = clock w \<and> h_puts h' = h_puts h \<and>
     (\<exists>ds. h_sent h' = h_sent h @ ds \<and> set ds \<subseteq> (\<lambda>p. (p, s_remote s)) ` set (packets w))"

lemma notify_cond:
  "(if P then notifyReadEvent s else s) = s\<lparr>chReadEvent := P \<or> chReadEvent s\<rparr>"
  "(if P then notifyWriteEvent s else s) = s\<lparr>chWriteEvent := P \<or> chWriteEvent s\<rparr>"
  by (simp_all add: notifyReadEvent_def notifyWriteEvent_def)

lemma transmitted_stat: "transmitted s h r w s' (add_stat upd n h') \<longleftrightarrow> transmitted s h r w s' h'"
  by (simp add: transmitted_def)

lemma transmit_total:
  assumes "session_ok s" "batches_ok h" and "f (s_rudp s) (h_world h) = Some (v, r, w)"
    and "emits (mtu (s_rudp s)) (reserved (s_rudp s)) c (packets (h_world h)) r w" and "calls_ok (h_world h) w"
  shows "\<exists>s1 h1. engine f s h = Some (v, s1, h1) \<and> s_rudp s1 = r \<and> chWriteEvent s1 = chWriteEvent s \<and> writeDelay s1 = writeDelay s \<and>
    chReadEvent s1 = chReadEvent s \<and>
    (\<forall>a b. \<exists>s' h'. uncork (s1\<lparr>chReadEvent := a, chWriteEvent := b\<rparr>) h1 = Some (s', h') \<and>
       transmitted s h r w s' h' \<and> chReadEvent s' = a \<and> chWriteEvent s' = b)"
proof -
  obtain ps where ps: "packets w = packets (h_world h) @ ps"
    and eng: "engine f s h = Some (v, s\<lparr>s_rudp := r, txqueue := transmits (headerSize s) (s_remote s) ps\<rparr>, h\<lparr>h_world := w\<rparr>)"
      (is "_ = Some (v, ?s, ?h)")
    using engine_total [where f = f, OF assms(1,3-5)] by blast
  have b: "batches_ok ?h" using assms(2) by (simp add: batches_ok_def)
  have "\<exists>s' h'. uncork (?s\<lparr>chReadEvent := x, chWriteEvent := y\<rparr>) ?h = Some (s', h') \<and>
       transmitted s h r w s' h' \<and> chReadEvent s' = x \<and> chWriteEvent s' = y" for x y
  proof -
    let ?t = "?s\<lparr>chReadEvent := x, chWriteEvent := y\<rparr>"
    obtain s' h' where u: "uncork ?t ?h = Some (s'\<lparr>txqueue := []\<rparr>, h')" "sent_from (txqueue ?t) ?t ?h s' h'"
      using uncork_from [OF b] by blast
    have "tx_frame ?t s'" using u(2) by (simp add: sent_from_def)
    then obtain e z where s': "s' = ?t\<lparr>socketWriteError := e, xconnWriteError := z\<rparr>" by (rule tx_frameE)
    have "set (txqueue ?t) \<subseteq> (\<lambda>p. (p, s_remote s)) ` set (packets w)" using ps by (auto simp: transmits_def)
    then have "transmitted s h r w (s'\<lparr>txqueue := []\<rparr>) h'"
      using u(2) b assms(1,4)
      by (auto simp: transmitted_def sent_from_def same_calls_def s' session_ok_def emits_def same_settings_def)
    then show ?thesis using u(1) s' by auto
  qed
  then show ?thesis using eng by auto
qed

lemma emits_start: "session_ok s \<Longrightarrow> emits (mtu (s_rudp s)) (reserved (s_rudp s)) (rudp_conv (s_rudp s)) (packets w) (s_rudp s) w"
  by (simp add: emits_def session_ok_def)

lemma flush_transmit:
  assumes "session_ok s" "batches_ok h"
  shows "\<exists>v r w. flush False (s_rudp s) (h_world h) = Some (v, r, w) \<and>
    emits (mtu (s_rudp s)) (reserved (s_rudp s)) (rudp_conv (s_rudp s)) (packets (h_world h)) r w \<and> calls_ok (h_world h) w"
proof -
  note start = emits_start [OF assms(1), of "h_world h"]
  obtain v r w where run: "flush False (s_rudp s) (h_world h) = Some (v, r, w)"
    using emitting.flush_total [OF start, of False] by auto
  then show ?thesis using emitting.keep_flush [OF start run] flush_calls [OF run] by blast
qed

lemma rudpInput_total:
  assumes "session_ok s" "batches_ok h" "length data \<le> mtuLimit"
  shows "\<exists>ret r w s' h'. Input data True (s_ackNoDelay s) (s_rudp s) (h_world h) = Some (ret, r, w) \<and>
    rudpInput data s h = Some (s', h') \<and> transmitted s h r w s' h' \<and>
    chReadEvent s' = (peekSize r > 0 \<or> chReadEvent s) \<and> chWriteEvent s' = (can_send r \<or> chWriteEvent s)"
proof -
  note start = emits_start [OF assms(1), of "h_world h"]
  have "\<forall>(hd, body) \<in> set (snd (parse_packet (rudp_conv (s_rudp s)) data)). length body \<le> mtuLimit"
    using assms(3) parse_lengths [of _ _ "rudp_conv (s_rudp s)" data] by fastforce
  from emitting.Input_total [OF start this, of True "s_ackNoDelay s"] obtain ret r w where
    run: "Input data True (s_ackNoDelay s) (s_rudp s) (h_world h) = Some (ret, r, w)"
    and em: "emits (mtu (s_rudp s)) (reserved (s_rudp s)) (rudp_conv (s_rudp s)) (packets (h_world h)) r w" by blast
  obtain s1 h1 where e: "engine (Input data True (s_ackNoDelay s)) s h = Some (ret, s1, h1)" "s_rudp s1 = r"
      "chWriteEvent s1 = chWriteEvent s" "chReadEvent s1 = chReadEvent s"
    and t: "\<And>a b. \<exists>s' h'. uncork (s1\<lparr>chReadEvent := a, chWriteEvent := b\<rparr>) h1 = Some (s', h') \<and>
       transmitted s h r w s' h' \<and> chReadEvent s' = a \<and> chWriteEvent s' = b"
    using transmit_total [where f = "Input data True (s_ackNoDelay s)", OF assms(1,2) run em Input_calls [OF run]] by blast
  obtain s' h' where u: "uncork (s1\<lparr>chReadEvent := peekSize r > 0 \<or> chReadEvent s, chWriteEvent := can_send r \<or> chWriteEvent s\<rparr>) h1 = Some (s', h')"
    "transmitted s h r w s' h'" "chReadEvent s' = (peekSize r > 0 \<or> chReadEvent s)" "chWriteEvent s' = (can_send r \<or> chWriteEvent s)"
    using t by blast
  show ?thesis
    using run u unfolding rudpInput_def e(1) by (auto simp: e notify_cond transmitted_stat Let_def)
qed

lemma update_total:
  assumes "session_ok s" "batches_ok h"
  shows "\<exists>v r w s' h'. flush False (s_rudp s) (h_world h) = Some (v, r, w) \<and>
    (\<not> s_die s \<longrightarrow> update_sess now s h = Some (s', h'\<lparr>h_puts := h_puts h @ [now + int (unat v) * 1000000]\<rparr>) \<and>
      transmitted s h r w s' h' \<and> chWriteEvent s' = (can_send r \<or> chWriteEvent s) \<and> chReadEvent s' = chReadEvent s)"
proof -
  obtain v r w where f: "flush False (s_rudp s) (h_world h) = Some (v, r, w)"
    "emits (mtu (s_rudp s)) (reserved (s_rudp s)) (rudp_conv (s_rudp s)) (packets (h_world h)) r w" "calls_ok (h_world h) w"
    using flush_transmit [OF assms] by blast
  obtain s1 h1 where e: "engine (flush False) s h = Some (v, s1, h1)" "s_rudp s1 = r"
      "chWriteEvent s1 = chWriteEvent s" "chReadEvent s1 = chReadEvent s"
    and t: "\<And>a b. \<exists>s' h'. uncork (s1\<lparr>chReadEvent := a, chWriteEvent := b\<rparr>) h1 = Some (s', h') \<and>
       transmitted s h r w s' h' \<and> chReadEvent s' = a \<and> chWriteEvent s' = b"
    using transmit_total [where f = "flush False", OF assms f] by blast
  obtain s' h' where u: "uncork (s1\<lparr>chReadEvent := chReadEvent s1, chWriteEvent := can_send r \<or> chWriteEvent s\<rparr>) h1 = Some (s', h')"
    "transmitted s h r w s' h'" "chWriteEvent s' = (can_send r \<or> chWriteEvent s)" "chReadEvent s' = chReadEvent s"
    using t e(4) by metis
  have same: "s1\<lparr>chReadEvent := chReadEvent s1, chWriteEvent := b\<rparr> = s1\<lparr>chWriteEvent := b\<rparr>" for b by simp
  have "update_sess now s h = Some (s', h'\<lparr>h_puts := h_puts h @ [now + int (unat v) * 1000000]\<rparr>)" if "\<not> s_die s"
    using that u(1,2) same by (simp add: update_sess_def e(1-3) notify_cond transmitted_def)
  then show ?thesis using f(1) u(2,3,4) by blast
qed

text \<open>The flush and transmission of \<^verbatim>\<open>WriteBuffers\<close> and \<^verbatim>\<open>Close\<close>.\<close>

lemma flush_uncork_total:
  assumes "session_ok s" "batches_ok h"
  shows "\<exists>v r w s' h'. flush False (s_rudp s) (h_world h) = Some (v, r, w) \<and>
    do { (_, s, h) \<leftarrow> engine (flush False) s h; uncork s h } = Some (s', h') \<and> transmitted s h r w s' h' \<and>
    chReadEvent s' = chReadEvent s \<and> chWriteEvent s' = chWriteEvent s"
proof -
  obtain v r w where f: "flush False (s_rudp s) (h_world h) = Some (v, r, w)"
    "emits (mtu (s_rudp s)) (reserved (s_rudp s)) (rudp_conv (s_rudp s)) (packets (h_world h)) r w" "calls_ok (h_world h) w"
    using flush_transmit [OF assms] by blast
  obtain s1 h1 where e: "engine (flush False) s h = Some (v, s1, h1)" "chWriteEvent s1 = chWriteEvent s" "chReadEvent s1 = chReadEvent s"
    and t: "\<And>a b. \<exists>s' h'. uncork (s1\<lparr>chReadEvent := a, chWriteEvent := b\<rparr>) h1 = Some (s', h') \<and> transmitted s h r w s' h' \<and>
      chReadEvent s' = a \<and> chWriteEvent s' = b"
    using transmit_total [where f = "flush False", OF assms f] by blast
  have same: "s1\<lparr>chReadEvent := chReadEvent s1, chWriteEvent := chWriteEvent s1\<rparr> = s1" by simp
  obtain s' h' where u: "uncork s1 h1 = Some (s', h')"
      "transmitted s h r w s' h'" "chReadEvent s' = chReadEvent s1" "chWriteEvent s' = chWriteEvent s1"
    using t [where a = "chReadEvent s1" and b = "chWriteEvent s1"] unfolding same by blast
  have "do { (_, s, h) \<leftarrow> engine (flush False) s h; uncork s h } = Some (s', h')" using e(1) u(1) by simp
  moreover have "chReadEvent s' = chReadEvent s \<and> chWriteEvent s' = chWriteEvent s" using e(2,3) u(3,4) by simp
  ultimately show ?thesis using f(1) u(2) by blast
qed

end
