(* ===== verification/Link.thy ===== *)
theory Link
  imports Rudp_Connection
begin

text \<open>
  One direction of a connection: what the packets of one end carry, and what the other end
  makes of them. The payloads one end has given numbers to, in order, are its history
  \<open>sent\<close>; the segment with number \<open>n\<close> carries \<open>sent ! n\<close> in every packet, however often it
  is sent. The bound \<open>length sent < 2^32\<close> says that the numbers have not run out.
\<close>

section \<open>What the sending end emits\<close>

definition good_seg :: "u32 \<Rightarrow> payload list \<Rightarrow> segment \<Rightarrow> bool" where
  "good_seg c sent s \<longleftrightarrow> sendable c s \<and>
     (seg_cmd s = IRUDP_CMD_PUSH \<longrightarrow> unat (seg_sn s) < length sent \<and> pay s = sent ! unat (seg_sn s))"

definition good_buf :: "u32 \<Rightarrow> payload list \<Rightarrow> segment \<Rightarrow> bool" where
  "good_buf c sent s \<longleftrightarrow> seg_conv s = c \<and> seg_cmd s = IRUDP_CMD_PUSH \<and> unat (seg_sn s) < length sent \<and>
     (seg_acked s \<noteq> 1 \<longrightarrow> pay s = sent ! unat (seg_sn s))"

definition good_packet :: "u32 \<Rightarrow> payload list \<Rightarrow> u8 list \<Rightarrow> bool" where
  "good_packet c sent p \<longleftrightarrow> (\<exists>es. p = wires es \<and> (\<forall>s \<in> set es. good_seg c sent s))"

definition out_ok :: "u32 \<Rightarrow> payload list \<Rightarrow> RUDP \<Rightarrow> world \<Rightarrow> bool" where
  "out_ok c sent r w \<longleftrightarrow> (\<forall>s \<in> set (sndBuf r). good_buf c sent s) \<and> (\<forall>p \<in> set (packets w). good_packet c sent p)"

text \<open>
  The invariant of the sending end through one call: it started with the history \<open>sent0\<close> and
  the queue \<open>q0\<close>, of which it has numbered the first \<open>k\<close>.
\<close>

definition link_out :: "u32 \<Rightarrow> payload list \<Rightarrow> segment list \<Rightarrow> RUDP \<Rightarrow> world \<Rightarrow> bool" where
  "link_out c sent0 q0 r w \<longleftrightarrow> sender_ok r \<and> reserved r = 0 \<and> rudp_conv r = c \<and>
     (\<exists>k \<le> length q0. sndQueue r = drop k q0 \<and> sndNxt r = word_of_nat (length sent0 + k) \<and>
        (length sent0 + k < 2 ^ 32 \<longrightarrow> out_ok c (sent0 @ map pay (take k q0)) r w))"

lemma good_seg_mono: "good_seg c sent s \<Longrightarrow> good_seg c (sent @ xs) s"
  by (auto simp: good_seg_def nth_append)

lemma good_buf_mono: "good_buf c sent s \<Longrightarrow> good_buf c (sent @ xs) s"
  by (auto simp: good_buf_def nth_append)

lemma good_packet_mono: "good_packet c sent p \<Longrightarrow> good_packet c (sent @ xs) p"
  by (auto simp: good_packet_def intro: good_seg_mono)

lemma good_buf_key: "good_buf c sent s \<Longrightarrow> seg_key s = seg_key t \<Longrightarrow> good_buf c sent t"
  by (simp add: good_buf_def seg_key_def pay_def)

lemma link_out_cong:
  assumes "link_out c sent0 q0 r w" and "sender_ok r'" and "reserved r' = reserved r" and "rudp_conv r' = rudp_conv r"
    and "sndQueue r' = sndQueue r" and "sndNxt r' = sndNxt r" and "packets w' = packets w"
    and "\<And>sent s. s \<in> set (sndBuf r') \<Longrightarrow> \<forall>t \<in> set (sndBuf r). good_buf c sent t \<Longrightarrow> good_buf c sent s"
  shows "link_out c sent0 q0 r' w'"
proof -
  obtain k where k: "k \<le> length q0" "sndQueue r = drop k q0" "sndNxt r = word_of_nat (length sent0 + k)"
    "length sent0 + k < 2 ^ 32 \<longrightarrow> out_ok c (sent0 @ map pay (take k q0)) r w"
    using assms(1) unfolding link_out_def by blast
  have "out_ok c sent r' w'" if "out_ok c sent r w" for sent
    using that assms(7,8) by (simp add: out_ok_def)
  then show ?thesis
    using assms(1-6) k unfolding link_out_def by auto
qed

lemma set_ack_loop_cases:
  "s \<in> set (ack_loop sn q) \<Longrightarrow> \<exists>t \<in> set q. s = t \<or> s = delSegment (t\<lparr>seg_acked := 1\<rparr>)"
  by (induction q) (auto split: if_splits)

lemma set_fastack_loop_cases:
  "s \<in> set (fastack_loop sn ts q) \<Longrightarrow> \<exists>t \<in> set q. s = t \<or> s = t\<lparr>seg_fastack := seg_fastack t + 1\<rparr>"
  by (induction q) (auto split: if_splits)

lemma good_buf_parse_acks:
  assumes "\<forall>t \<in> set (sndBuf r). good_buf c sent t" and "s \<in> set (sndBuf (parseFastAck sn ts (parseAck sn r)))"
  shows "good_buf c sent s"
proof -
  have ack: "good_buf c sent t" if mem: "t \<in> set (sndBuf (parseAck sn r))" for t
  proof (cases "sn < sndUna r \<or> sn \<ge> sndNxt r")
    case True
    then show ?thesis using mem assms(1) by (simp add: parseAck_def)
  next
    case False
    then have "t \<in> set (ack_loop sn (sndBuf r))" using mem by (simp add: parseAck_def)
    then show ?thesis using set_ack_loop_cases [of t sn "sndBuf r"] assms(1)
      by (auto simp: good_buf_def delSegment_def)
  qed
  show ?thesis
  proof (cases "sn < sndUna (parseAck sn r) \<or> sn \<ge> sndNxt (parseAck sn r)")
    case True
    then show ?thesis using assms(2) ack by (simp add: parseFastAck_def)
  next
    case False
    then have "s \<in> set (fastack_loop sn ts (sndBuf (parseAck sn r)))" using assms(2) by (simp add: parseFastAck_def)
    then show ?thesis using set_fastack_loop_cases [of s sn ts] ack
      by (fastforce simp: good_buf_def pay_def)
  qed
qed

lemma good_ack_segs:
  assumes "rudp_conv r = c" "s \<in> set (ack_segs r (ack_template r) q)"
  shows "good_seg c sent s"
proof -
  obtain x y where "s = (ack_template r)\<lparr>seg_sn := x, seg_ts := y\<rparr>"
    using ack_segs_template [OF assms(2)] by blast
  then show ?thesis
    using assms(1) by (simp add: good_seg_def sendable_def legal_cmd_def ack_template_def zero_segment_def)
qed

lemma good_packets_append:
  assumes "\<forall>p \<in> set ps. good_packet c sent p" and "\<forall>s \<in> set (concat gs). good_seg c sent s"
    and "ps' = ps @ map (frame_packet []) gs"
  shows "\<forall>p \<in> set ps'. good_packet c sent p"
proof -
  have "good_packet c sent (frame_packet [] g)" if "g \<in> set gs" for g
    using that assms(2) by (auto simp: good_packet_def frame_packet_def intro!: exI [of _ g])
  then show ?thesis using assms(1,3) by auto
qed

text \<open>Segments admitted with the next numbers carry the payloads the history gets.\<close>

lemma good_admit_segs:
  assumes "i < length q" and "length sent + length q < 2 ^ 32"
  shows "good_buf c (sent @ map pay q) (admit_segs c (word_of_nat (length sent)) q ! i)"
proof -
  have sn: "(word_of_nat (length sent) :: u32) + word_of_nat i = word_of_nat (length sent + i)" by simp
  have "unat (word_of_nat (length sent + i) :: u32) = length sent + i"
    using assms by (simp add: unat_word_ariths unat_of_nat)
  then show ?thesis
    using assms(1) by (simp add: good_buf_def nth_admit_segs sn nth_append pay_def del: of_nat_add)
qed

lemma good_seg_of_buf:
  assumes "good_buf c sent s" "seg_acked s \<noteq> 1" "length (seg_data s) \<le> mtuLimit"
  shows "good_seg c sent s"
  using assms by (simp add: good_buf_def good_seg_def sendable_def legal_cmd_def)

lemma fits_mss_mtuLimit: "sizes_ok r \<Longrightarrow> fits_mss r \<Longrightarrow> s \<in> set (sndBuf r) \<Longrightarrow> length (seg_data s) \<le> mtuLimit"
  by (force simp: sizes_ok_def fits_mss_def)

lemma good_buf_keys:
  assumes "\<forall>t \<in> set q0. good_buf c sent t" and "map seg_key q = map seg_key q0"
  shows "\<forall>s \<in> set q. good_buf c sent s"
proof
  fix s assume "s \<in> set q"
  then have "seg_key s \<in> set (map seg_key q0)" unfolding assms(2) [symmetric] by simp
  then obtain t where "t \<in> set q0" "seg_key s = seg_key t" by auto
  then show "good_buf c sent s" using assms(1) good_buf_key by metis
qed

lemma good_buf_admitted:
  assumes "\<forall>s \<in> set (sndBuf r). good_buf c sent s" and "sndNxt r = word_of_nat (length sent)"
    and "length sent + m < 2 ^ 32" and "m \<le> length (sndQueue r)"
  shows "\<forall>t \<in> set (sndBuf r @ admit_segs c (sndNxt r) (take m (sndQueue r))).
    good_buf c (sent @ map pay (take m (sndQueue r))) t"
proof
  fix t assume "t \<in> set (sndBuf r @ admit_segs c (sndNxt r) (take m (sndQueue r)))"
  then consider "t \<in> set (sndBuf r)" | "t \<in> set (admit_segs c (sndNxt r) (take m (sndQueue r)))" by auto
  then show "good_buf c (sent @ map pay (take m (sndQueue r))) t"
  proof cases
    case 1
    then show ?thesis using assms(1) by (blast intro: good_buf_mono)
  next
    case 2
    then obtain i where "i < length (take m (sndQueue r))" "t = admit_segs c (sndNxt r) (take m (sndQueue r)) ! i"
      by (auto simp: in_set_conv_nth)
    then show ?thesis using good_admit_segs [of i "take m (sndQueue r)" sent c] assms(2-4) by simp
  qed
qed

text \<open>Everything a flush puts into packets is good when the segments it may send are.\<close>

lemma good_flush_segs:
  assumes "concat gs = ack_segs r (ack_template r) q @ probes @ pushes" and "rudp_conv r = c"
    and "\<forall>s \<in> set probes. seg_cmd s \<in> {IRUDP_CMD_WASK, IRUDP_CMD_WINS} \<and> seg_conv s = rudp_conv r \<and>
      seg_una s = rcvNxt r \<and> seg_wnd s = unusedWnd r \<and> seg_data s = []"
    and "set pushes \<subseteq> {s \<in> set buf. seg_acked s \<noteq> 1}" and "\<forall>s \<in> set buf. good_buf c sent s \<and> length (seg_data s) \<le> mtuLimit"
  shows "\<forall>s \<in> set (concat gs). good_seg c sent s"
proof
  fix s assume "s \<in> set (concat gs)"
  then consider "s \<in> set (ack_segs r (ack_template r) q)" | "s \<in> set probes" | "s \<in> set pushes"
    unfolding assms(1) by auto
  then show "good_seg c sent s"
  proof cases
    case 1
    then show ?thesis by (rule good_ack_segs [OF assms(2)])
  next
    case 2
    then show ?thesis using assms(2,3) by (auto simp: good_seg_def sendable_def legal_cmd_def)
  next
    case 3
    then show ?thesis using assms(4,5) by (intro good_seg_of_buf) auto
  qed
qed

text \<open>A flush, in the mode for acknowledgements only and in full.\<close>

lemma out_ok_flush_acks:
  assumes "out_ok c sent r w" and "flush True r w = Some (v, r', w')"
    and "sizes_ok r" "reserved_bytes r = []" "rudp_conv r = c"
  shows "out_ok c sent r' w'"
proof -
  obtain r1 w1 gs where 1: "flush True r w = Some (interval r, r1, w1)"
      "packets w1 = packets w @ map (frame_packet []) gs" "concat gs = ack_segs r (ack_template r) (ackList r)"
      "r1 = r\<lparr>ackList := [], rudp_buffer := rudp_buffer r1\<rparr>"
    using flush_ack_only [OF assms(3), of w] unfolding assms(4) by blast
  have eq: "r' = r1" "w' = w1" using assms(2) 1(1) by simp_all
  have "\<forall>s \<in> set (concat gs). good_seg c sent s" unfolding 1(3) using good_ack_segs [OF assms(5)] by blast
  from good_packets_append [OF _ this 1(2)] have "\<forall>p \<in> set (packets w1). good_packet c sent p"
    using assms(1) by (simp add: out_ok_def)
  moreover have "sndBuf r1 = sndBuf r" by (subst 1(4)) simp
  ultimately show ?thesis using assms(1) by (simp add: out_ok_def eq)
qed

lemma out_ok_flush_full:
  assumes "out_ok c sent r w" and run: "flush False r w = Some (v, r', w')"
    and ok: "sender_ok r" "sender_ok r'" "reserved_bytes r = []" "rudp_conv r = c"
    and nxt: "sndNxt r = word_of_nat (length sent)" and small: "length sent + admitted (send_window r) r < 2 ^ 32"
  shows "out_ok c (sent @ map pay (take (admitted (send_window r) r) (sndQueue r))) r' w'"
proof -
  let ?m = "admitted (send_window r) r"
  let ?sent = "sent @ map pay (take ?m (sndQueue r))"
  have so: "sizes_ok r" "fits_mss r" and so': "sizes_ok r'" "fits_mss r'" using ok by (simp_all add: sender_ok_def)
  obtain v1 r1 w1 gs probes pushes where 1: "flush False r w = Some (v1, r1, w1)"
      "packets w1 = packets w @ map (frame_packet []) gs"
      "concat gs = ack_segs r (ack_template r) (ackList r) @ probes @ pushes"
      "\<forall>s \<in> set probes. seg_cmd s \<in> {IRUDP_CMD_WASK, IRUDP_CMD_WINS} \<and> seg_conv s = rudp_conv r \<and>
        seg_una s = rcvNxt r \<and> seg_wnd s = unusedWnd r \<and> seg_data s = []"
      "flush_data_post r r1 pushes"
    using flush_full [OF so, of w] unfolding ok(3) by blast
  have eq: "r' = r1" "w' = w1" using run 1(1) by simp_all
  note post = 1(5) [folded eq]
  have keys: "map seg_key (sndBuf r') = map seg_key (sndBuf r @ admit_segs c (sndNxt r) (take ?m (sndQueue r)))"
    and m: "?m \<le> length (sndQueue r)"
    using post_keys [OF post] ok(4) by (simp_all add: Let_def)
  have old: "\<forall>s \<in> set (sndBuf r). good_buf c sent s" "\<forall>p \<in> set (packets w). good_packet c sent p"
    using assms(1) by (simp_all add: out_ok_def)
  have buf: "\<forall>s \<in> set (sndBuf r'). good_buf c ?sent s"
    by (rule good_buf_keys [OF good_buf_admitted [OF old(1) nxt small m] keys])
  have "set pushes \<subseteq> {s \<in> set (sndBuf r'). seg_acked s \<noteq> 1}"
    using post by (auto simp: flush_data_post_def Let_def)
  from good_flush_segs [OF 1(3) ok(4) 1(4) this] have "\<forall>s \<in> set (concat gs). good_seg c ?sent s"
    using buf fits_mss_mtuLimit [OF so'] by blast
  from good_packets_append [OF _ this 1(2)] have "\<forall>p \<in> set (packets w1). good_packet c ?sent p"
    using old(2) by (blast intro: good_packet_mono)
  then show ?thesis using buf by (simp add: out_ok_def eq)
qed

lemma link_out_flush:
  assumes inv: "link_out c sent0 q0 r w" and run: "flush ackOnly r w = Some (v, r', w')"
  shows "link_out c sent0 q0 r' w'"
proof -
  obtain k where k: "k \<le> length q0" "sndQueue r = drop k q0" "sndNxt r = word_of_nat (length sent0 + k)"
    "length sent0 + k < 2 ^ 32 \<longrightarrow> out_ok c (sent0 @ map pay (take k q0)) r w"
    and ok: "sender_ok r" "reserved r = 0" "rudp_conv r = c"
    using inv unfolding link_out_def by blast
  have res: "reserved_bytes r = []" using ok(2) by (simp add: reserved_bytes_def)
  have ok': "sender_ok r'" using sender.keep_flush [OF ok(1) run] .
  have so: "sizes_ok r" "fits_mss r" using ok(1) by (simp_all add: sender_ok_def)
  show ?thesis
  proof (cases ackOnly)
    case True
    then obtain b where "r' = r\<lparr>ackList := [], rudp_buffer := b\<rparr>"
      using flush_ack_only [OF so(1), of w] run by fastforce
    moreover have "out_ok c sent r' w'" if "out_ok c sent r w" for sent
      using out_ok_flush_acks [OF that _ so(1) res ok(3)] run True by simp
    ultimately show ?thesis using k ok ok' unfolding link_out_def by auto
  next
    case False
    define m where "m = admitted (send_window r) r"
    obtain pushes where post: "flush_data_post r r' pushes"
      using flush_full [OF so, of w] run False by fastforce
    have fr: "reserved r' = 0" "rudp_conv r' = c"
      using post ok(2,3) by (simp_all add: flush_data_post_def flush_frame_def Let_def)
    have m: "sndQueue r' = drop m (sndQueue r)" "sndNxt r' = sndNxt r + word_of_nat m" "m \<le> length (sndQueue r)"
      using post_keys [OF post] by (simp_all add: m_def Let_def)
    have sent: "sent0 @ map pay (take (k + m) q0) = (sent0 @ map pay (take k q0)) @ map pay (take m (sndQueue r))"
      by (simp add: k(2) take_add)
    have km: "k + m \<le> length q0" "sndQueue r' = drop (k + m) q0" using m(1,3) k(1,2) by (simp_all add: add.commute)
    have nxt: "sndNxt r' = word_of_nat (length sent0 + (k + m))" using m(2) k(3) by (simp add: add.assoc)
    have "out_ok c (sent0 @ map pay (take (k + m) q0)) r' w'" if small: "length sent0 + (k + m) < 2 ^ 32"
    proof -
      have "length (sent0 @ map pay (take k q0)) = length sent0 + k" using k(1) by simp
      then show ?thesis
        using out_ok_flush_full [OF _ _ ok(1) ok' res ok(3), of "sent0 @ map pay (take k q0)" w v w'] run False k(3,4) small
        unfolding sent m_def [symmetric] by simp
    qed
    then show ?thesis using km nxt ok' fr unfolding link_out_def by blast
  qed
qed

interpretation sending: input_contract "link_out c sent0 q0" "\<lambda>_ _. True" for c sent0 q0
proof
  fix r u sn ts h body conv b r' old ackOnly w v w' rtt x y upd n
  have ok: "link_out c sent0 q0 r w \<Longrightarrow> sender_ok r" by (simp add: link_out_def)
  show "link_out c sent0 q0 r w \<Longrightarrow> link_out c sent0 q0 (r\<lparr>rmtWnd := x\<rparr>) w"
    by (frule ok, erule link_out_cong) (auto intro: sender.keep_wnd)
  show "link_out c sent0 q0 r w \<Longrightarrow> link_out c sent0 q0 (r\<lparr>probe := y\<rparr>) w"
    by (frule ok, erule link_out_cong) (auto intro: sender.keep_ask)
  show "link_out c sent0 q0 (pushAck sn ts r) w" if inv: "link_out c sent0 q0 r w"
    by (rule link_out_cong [OF inv sender.keep_pushAck [OF ok [OF inv]]]) (simp_all add: pushAck_def)
  show "link_out c sent0 q0 r w \<Longrightarrow> link_out c sent0 q0 r (AddUint64 upd n w)"
    by (frule ok, erule link_out_cong) auto
  show "link_out c sent0 q0 r w \<Longrightarrow> link_out c sent0 q0 r (snd (currentMs w))"
    by (frule ok, erule link_out_cong) auto
  show "link_out c sent0 q0 (ack_una u r) w" if inv: "link_out c sent0 q0 r w"
  proof -
    obtain n x where eq: "ack_una u r = r\<lparr>sndBuf := drop n (sndBuf r), sndUna := x\<rparr>" using ack_una_frame by blast
    show ?thesis
      by (rule link_out_cong [OF inv sender.keep_una [OF ok [OF inv]]]) (auto simp: eq dest: in_set_dropD)
  qed
  show "link_out c sent0 q0 (parseFastAck sn ts (parseAck sn r)) w" if inv: "link_out c sent0 q0 r w"
  proof -
    obtain b where eq: "parseFastAck sn ts (parseAck sn r) = r\<lparr>sndBuf := b\<rparr>" using parse_acks_frame [of sn ts r] by blast
    have buf: "good_buf c sent s" if "s \<in> set b" "\<forall>t \<in> set (sndBuf r). good_buf c sent t" for s sent
      using good_buf_parse_acks [OF that(2), of s sn ts] that(1) by (simp add: eq)
    show ?thesis
      by (rule link_out_cong [OF inv sender.keep_ack [OF ok [OF inv]]]) (auto simp: eq intro: buf)
  qed
  show "link_out c sent0 q0 r' w" if inv: "link_out c sent0 q0 r w"
    and run: "parseData (push_segment conv h body) r = Some (b, r')"
  proof -
    obtain n q f where eq: "r' = r\<lparr>rcvNxt := n, rcvQueue := q, rcvBuf := f\<rparr>" using parseData_frame [OF run] by blast
    have "sender_ok r'" using ok [OF inv] by (rule sender_ok_cong) (simp_all add: eq)
    then show ?thesis by (rule link_out_cong [OF inv]) (simp_all add: eq)
  qed
  show "link_out c sent0 q0 (updateRTO rtt r) w" if inv: "link_out c sent0 q0 r w"
  proof -
    obtain x y z where eq: "updateRTO rtt r = r\<lparr>rxSRTT := x, rxRTTVal := y, rxRTO := z\<rparr>" using updateRTO_frame by blast
    show ?thesis
      by (rule link_out_cong [OF inv sender.keep_rtt [OF ok [OF inv]]]) (simp_all add: eq)
  qed
  show "link_out c sent0 q0 r' w" if inv: "link_out c sent0 q0 r w" and run: "grow_cwnd old r = Some r'"
  proof -
    obtain x y where eq: "r' = r\<lparr>cwnd := x, incr := y\<rparr>"
      using grow_cwnd_frame [OF sender_ok_mss [OF ok [OF inv]] run] by blast
    show ?thesis
      by (rule link_out_cong [OF inv sender.keep_grow [OF ok [OF inv] run]]) (simp_all add: eq)
  qed
  show "link_out c sent0 q0 r w \<Longrightarrow> flush ackOnly r w = Some (v, r', w') \<Longrightarrow> link_out c sent0 q0 r' w'"
    by (rule link_out_flush)
qed

section \<open>What the receiving end stores\<close>

text \<open>
  \<open>got\<close> are the bytes read so far: with the queued ones they are the peer's stream up to
  \<^verbatim>\<open>rcvNxt\<close>, and nothing stored has a number the peer has not used, \<open>N\<close> or more.
\<close>

definition link_in :: "(nat \<Rightarrow> payload) \<Rightarrow> nat \<Rightarrow> u8 list \<Rightarrow> RUDP \<Rightarrow> bool" where
  "link_in src N got r \<longleftrightarrow> sender_ok r \<and> rcv_inv src r \<and> unat (rcvNxt r) \<le> N \<and>
     (\<forall>s \<in> set (rcvBuf r). unat (seg_sn s) < N) \<and>
     got @ queue_bytes (rcvQueue r) = src_bytes (\<lambda>n. snd (src n)) 0 (unat (rcvNxt r))"

lemma link_in_cong:
  "link_in src N got r \<Longrightarrow> sender_ok r' \<Longrightarrow> rcvNxt r' = rcvNxt r \<Longrightarrow> rcvQueue r' = rcvQueue r \<Longrightarrow> rcvBuf r' = rcvBuf r \<Longrightarrow>
   link_in src N got r'"
  by (simp add: link_in_def rcv_inv_def)

lemma move_to_queue_nxt_le:
  assumes "rcv_inv src r" "unat (rcvNxt r) \<le> N" "\<forall>s \<in> set (rcvBuf r). unat (seg_sn s) < N"
  shows "unat (rcvNxt (move_to_queue r)) \<le> N \<and> (\<forall>s \<in> set (rcvBuf (move_to_queue r)). unat (seg_sn s) < N)"
proof -
  obtain k where k: "k \<le> length (rcvBuf r)"
      "move_to_queue r = r\<lparr>rcvNxt := rcvNxt r + word_of_nat k,
         rcvQueue := rcvQueue r @ take k (rcvBuf r), rcvBuf := drop k (rcvBuf r)\<rparr>"
      "unat (rcvNxt r + word_of_nat k) = unat (rcvNxt r) + k"
      "\<forall>i < k. unat (seg_sn (rcvBuf r ! i)) = unat (rcvNxt r) + i"
    using move_to_queue_inv [OF assms(1)] by metis
  have "unat (rcvNxt r) + k \<le> N"
  proof (cases k)
    case (Suc i)
    then have "unat (seg_sn (rcvBuf r ! i)) < N" using k(1) assms(3) by simp
    then show ?thesis using k(4) Suc by simp
  qed (use assms(2) in simp)
  then show ?thesis using k(2,3) assms(3) by (auto dest: in_set_dropD)
qed

lemma queue_bytes_concat: "queue_bytes q = concat (map seg_data q)"
  by (simp add: queue_bytes_def)

lemma link_in_move:
  assumes "rcv_inv src r" "sender_ok r" "unat (rcvNxt r) \<le> N" "\<forall>s \<in> set (rcvBuf r). unat (seg_sn s) < N"
    and "got @ queue_bytes (rcvQueue r) = src_bytes (\<lambda>n. snd (src n)) 0 (unat (rcvNxt r))"
  shows "link_in src N got (move_to_queue r)"
proof -
  obtain n q f where eq: "move_to_queue r = r\<lparr>rcvNxt := n, rcvQueue := q, rcvBuf := f\<rparr>"
    using move_to_queue_frame by blast
  have "sender_ok (move_to_queue r)" by (rule sender_ok_cong [OF assms(2)]) (simp_all add: eq)
  moreover have "got @ queue_bytes (rcvQueue (move_to_queue r)) =
      src_bytes (\<lambda>n. snd (src n)) 0 (unat (rcvNxt (move_to_queue r)))"
    using move_to_queue_bytes [OF assms(1)] assms(5) src_bytes_append [of 0 "unat (rcvNxt r)" "\<lambda>n. snd (src n)"
        "unat (rcvNxt (move_to_queue r)) - unat (rcvNxt r)"]
    by (simp add: queue_bytes_concat flip: append_assoc)
  ultimately show ?thesis
    using rcv_inv_move [OF assms(1)] move_to_queue_nxt_le [OF assms(1,3,4)] by (simp add: link_in_def)
qed

lemma link_in_parseData:
  assumes "link_in src N got r" and "pay seg = src (unat (seg_sn seg))" and "unat (seg_sn seg) < N"
    and "parseData seg r = Some (b, r')"
  shows "link_in src N got r'"
proof -
  have inv: "rcv_inv src r" and rest: "sender_ok r" "unat (rcvNxt r) \<le> N" "\<forall>s \<in> set (rcvBuf r). unat (seg_sn s) < N"
     "got @ queue_bytes (rcvQueue r) = src_bytes (\<lambda>n. snd (src n)) 0 (unat (rcvNxt r))"
    using assms(1) by (simp_all add: link_in_def)
  have "sorted_wrt (<) (map seg_sn (rcvBuf r))" using inv by (simp add: rcv_inv_def)
  from parseData_eq [OF this, of seg] assms(4) consider "r' = r"
    | "in_window (seg_sn seg) r" "r' = move_to_queue (r\<lparr>rcvBuf := rcv_insert seg (rcvBuf r)\<rparr>)"
    by (auto split: if_splits)
  then show ?thesis
  proof cases
    case 2
    have "sender_ok (r\<lparr>rcvBuf := rcv_insert seg (rcvBuf r)\<rparr>)" by (rule sender_ok_cong [OF rest(1)]) simp_all
    then show ?thesis
      unfolding 2(2) using rest assms(3)
      by (intro link_in_move rcv_inv_insert [OF inv 2(1) assms(2)]) (auto simp: set_rcv_insert split: if_splits)
  qed (use assms(1) in simp)
qed

lemma link_in_probe: "link_in src N got r \<Longrightarrow> link_in src N got (r\<lparr>probe := x\<rparr>)"
  by (rule link_in_cong [OF _ sender.keep_ask]) (simp_all add: link_in_def)

lemma link_in_fetch:
  assumes "link_in src N got r" and "fetch_bytes buffer r = Some (bs, r')"
  shows "link_in src N (got @ bs) r'"
proof (cases "peekSize r < 0 \<or> int (length buffer) < peekSize r")
  case True
  then show ?thesis using assms by (simp add: fetch_bytes_eq)
next
  case False
  let ?q = "rcvQueue r"
  let ?r = "r\<lparr>rcvQueue := drop (msg_len ?q) ?q\<rparr>"
  have eq: "bs = queue_bytes (take (msg_len ?q) ?q)" "r' = after_receive r"
    using False assms(2) by (simp_all add: fetch_bytes_eq queue_bytes_concat)
  have inv: "rcv_inv src r" and rest: "sender_ok r" "unat (rcvNxt r) \<le> N" "\<forall>s \<in> set (rcvBuf r). unat (seg_sn s) < N"
     "got @ queue_bytes ?q = src_bytes (\<lambda>n. snd (src n)) 0 (unat (rcvNxt r))"
    using assms(1) by (simp_all add: link_in_def)
  have "queue_bytes ?q = bs @ queue_bytes (drop (msg_len ?q) ?q)"
    unfolding eq(1) queue_bytes_simps(3) [symmetric] by simp
  then have bytes: "(got @ bs) @ queue_bytes (rcvQueue ?r) = src_bytes (\<lambda>n. snd (src n)) 0 (unat (rcvNxt ?r))"
    using rest(4) by simp
  have "sender_ok ?r" by (rule sender_ok_cong [OF rest(1)]) simp_all
  then have "link_in src N (got @ bs) (move_to_queue ?r)"
    by (intro link_in_move rcv_inv_dequeue [OF inv] bytes) (use rest in simp_all)
  then show ?thesis
    unfolding eq(2) after_receive_def Let_def by (simp add: link_in_probe)
qed

interpretation receiving: input_contract "\<lambda>r _. link_in src N got r"
  "\<lambda>h body. hd_cmd h = IRUDP_CMD_PUSH \<longrightarrow> (hd_frg h, body) = src (unat (hd_sn h)) \<and> unat (hd_sn h) < N" for src N got
proof
  fix r u sn ts h body conv b r' old ackOnly w v w' rtt x y upd n
  have ok: "link_in src N got r \<Longrightarrow> sender_ok r" by (simp add: link_in_def)
  show "link_in src N got r \<Longrightarrow> link_in src N got (r\<lparr>rmtWnd := x\<rparr>)"
    by (frule ok, erule link_in_cong) (auto intro: sender.keep_wnd)
  show "link_in src N got r \<Longrightarrow> link_in src N got (r\<lparr>probe := y\<rparr>)"
    by (frule ok, erule link_in_cong) (auto intro: sender.keep_ask)
  show "link_in src N got (pushAck sn ts r)" if inv: "link_in src N got r"
    by (rule link_in_cong [OF inv sender.keep_pushAck [OF ok [OF inv]]]) (simp_all add: pushAck_def)
  show "link_in src N got (ack_una u r)" if inv: "link_in src N got r"
  proof -
    obtain n x where eq: "ack_una u r = r\<lparr>sndBuf := drop n (sndBuf r), sndUna := x\<rparr>" using ack_una_frame by blast
    show ?thesis by (rule link_in_cong [OF inv sender.keep_una [OF ok [OF inv]]]) (simp_all add: eq)
  qed
  show "link_in src N got (parseFastAck sn ts (parseAck sn r))" if inv: "link_in src N got r"
  proof -
    obtain b where eq: "parseFastAck sn ts (parseAck sn r) = r\<lparr>sndBuf := b\<rparr>" using parse_acks_frame [of sn ts r] by blast
    show ?thesis by (rule link_in_cong [OF inv sender.keep_ack [OF ok [OF inv]]]) (simp_all add: eq)
  qed
  show "link_in src N got r \<Longrightarrow> hd_cmd h = IRUDP_CMD_PUSH \<longrightarrow> (hd_frg h, body) = src (unat (hd_sn h)) \<and> unat (hd_sn h) < N \<Longrightarrow>
      hd_cmd h = IRUDP_CMD_PUSH \<Longrightarrow> parseData (push_segment conv h body) r = Some (b, r') \<Longrightarrow> link_in src N got r'"
    using link_in_parseData [of src N got r "push_segment conv h body" b r'] by (simp add: push_segment_def pay_def)
  show "link_in src N got (updateRTO rtt r)" if inv: "link_in src N got r"
  proof -
    obtain x y z where eq: "updateRTO rtt r = r\<lparr>rxSRTT := x, rxRTTVal := y, rxRTO := z\<rparr>" using updateRTO_frame by blast
    show ?thesis by (rule link_in_cong [OF inv sender.keep_rtt [OF ok [OF inv]]]) (simp_all add: eq)
  qed
  show "link_in src N got r'" if inv: "link_in src N got r" and run: "grow_cwnd old r = Some r'"
  proof -
    obtain x y where eq: "r' = r\<lparr>cwnd := x, incr := y\<rparr>"
      using grow_cwnd_frame [OF sender_ok_mss [OF ok [OF inv]] run] by blast
    show ?thesis by (rule link_in_cong [OF inv sender.keep_grow [OF ok [OF inv] run]]) (simp_all add: eq)
  qed
  show "link_in src N got r'" if inv: "link_in src N got r" and run: "flush ackOnly r w = Some (v, r', w')"
  proof -
    have "flush_frame r r'" using flush_keeps [OF _ _ run] ok [OF inv] by (simp add: sender_ok_def)
    then show ?thesis
      by (intro link_in_cong [OF inv sender.keep_flush [OF ok [OF inv] run]]) (simp_all add: flush_frame_def)
  qed
qed

end
