(* ===== verification/Send_Pieces.thy ===== *)
theory Send_Pieces
  imports Rudp_Transmit Rudp_Send
begin

text \<open>
  \<^verbatim>\<open>Send\<close> seen from its callers, in either mode: an accepted call adds its bytes to the queue
  and nothing else, and pieces of at most \<^verbatim>\<open>mss\<close> bytes are always accepted.
\<close>

lemma send_fill_short:
  assumes "send_fill buffer r = (b, r')" "\<forall>s \<in> set (sndQueue r). length (seg_data s) \<le> unat (mss r)"
  shows "\<forall>s \<in> set (sndQueue r'). length (seg_data s) \<le> unat (mss r)"
  using assms by (auto simp: send_fill_def Let_def dest!: set_update_subset_insert [THEN subsetD] split: if_splits)

lemma send_fill_nonempty:
  assumes "send_fill buffer r = (b, r')" "\<forall>s \<in> set (sndQueue r). seg_data s \<noteq> []"
  shows "\<forall>s \<in> set (sndQueue r'). seg_data s \<noteq> []"
  using assms by (auto simp: send_fill_def Let_def dest!: set_update_subset_insert [THEN subsetD] split: if_splits)

lemma send_rest_accepted:
  assumes "send_rest b r = Some (0, r')" "b \<noteq> []" and m: "0 < unat (mss r)" "unat (mss r) \<le> mtuLimit"
  obtains cs where "r' = r\<lparr>sndQueue := sndQueue r @ numbered (stream r) cs\<rparr>" "concat cs = b"
    "\<forall>c \<in> set cs. c \<noteq> [] \<and> length c \<le> unat (mss r)"
proof (cases "length b \<le> 255 * unat (mss r)")
  case True
  from send_rest_ok [OF m assms(2) True] assms(1) that show ?thesis by auto
next
  case False
  then have "send_rest b r = Some (-2, r)" using m by (intro send_rest_too_long) simp_all
  then show ?thesis using assms(1) by simp
qed

text \<open>The two ways an accepted call can go.\<close>

lemma Send_accepted_cases:
  assumes m: "0 < unat (mss r)" "unat (mss r) \<le> mtuLimit" and "Send buffer r = Some (0, r')"
  obtains (message) "stream r = 0" "buffer \<noteq> []" "send_rest buffer r = Some (0, r')"
  | (filled) q where "send_fill buffer r = ([], r')" "r' = r\<lparr>sndQueue := q\<rparr>"
  | (streamed) b r1 q where "send_fill buffer r = (b, r1)" "r1 = r\<lparr>sndQueue := q\<rparr>" "b \<noteq> []" "send_rest b r1 = Some (0, r')"
proof (cases "stream r = 0")
  case True
  then show ?thesis using assms(3) message by (auto simp: Send_unfold split: if_splits)
next
  case False
  obtain b r1 where f: "send_fill buffer r = (b, r1)" by (cases "send_fill buffer r")
  obtain q where q: "r1 = r\<lparr>sndQueue := q\<rparr>" using send_fill_bytes(2) [OF f] by blast
  show ?thesis
  proof (cases "b = []")
    case True
    then have "r' = r1" using assms(3) False f q by (auto simp: Send_unfold split: if_splits)
    then show ?thesis using filled f q True by blast
  next
    case nonempty: False
    then have "send_rest b r1 = Some (0, r')" using assms(3) False f by (auto simp: Send_unfold split: if_splits)
    then show ?thesis using streamed f q nonempty by blast
  qed
qed

lemma Send_accepted_queue:
  assumes m: "0 < unat (mss r)" "unat (mss r) \<le> mtuLimit" and fits: "fits_mss r" and "Send buffer r = Some (0, r')"
  shows "\<exists>q. r' = r\<lparr>sndQueue := q\<rparr> \<and> queue_bytes q = queue_bytes (sndQueue r) @ buffer \<and>
      (\<forall>s \<in> set q. length (seg_data s) \<le> unat (mss r))"
  using m assms(4)
proof (cases rule: Send_accepted_cases)
  case message
  from message(3,2) m obtain cs where "r' = r\<lparr>sndQueue := sndQueue r @ numbered (stream r) cs\<rparr>" "concat cs = buffer"
    "\<forall>c \<in> set cs. c \<noteq> [] \<and> length c \<le> unat (mss r)" by (rule send_rest_accepted)
  then show ?thesis using fits
    by (intro exI [of _ "sndQueue r @ numbered (stream r) cs"]) (auto simp: fits_mss_def dest!: set_numbered_data)
next
  case (filled q)
  then show ?thesis
    using send_fill_bytes(1) [OF filled(1)] send_fill_short [OF filled(1)] fits by (auto simp: fits_mss_def)
next
  case (streamed b r1 q)
  have m1: "0 < unat (mss r1)" "unat (mss r1) \<le> mtuLimit" using m streamed(2) by simp_all
  from streamed(4,3) m1 obtain cs where "r' = r1\<lparr>sndQueue := sndQueue r1 @ numbered (stream r1) cs\<rparr>" "concat cs = b"
    "\<forall>c \<in> set cs. c \<noteq> [] \<and> length c \<le> unat (mss r1)" by (rule send_rest_accepted)
  then show ?thesis
    using send_fill_bytes(1) [OF streamed(1)] send_fill_short [OF streamed(1)] fits streamed(2)
    by (intro exI [of _ "sndQueue r1 @ numbered (stream r1) cs"]) (auto simp: fits_mss_def dest!: set_numbered_data)
qed

lemma Send_nonempty:
  assumes m: "0 < unat (mss r)" "unat (mss r) \<le> mtuLimit" and "Send buffer r = Some (0, r')"
    and ne: "\<forall>s \<in> set (sndQueue r). seg_data s \<noteq> []"
  shows "\<forall>s \<in> set (sndQueue r'). seg_data s \<noteq> []"
  using m assms(3)
proof (cases rule: Send_accepted_cases)
  case message
  from message(3,2) m obtain cs where "r' = r\<lparr>sndQueue := sndQueue r @ numbered (stream r) cs\<rparr>"
    "\<forall>c \<in> set cs. c \<noteq> [] \<and> length c \<le> unat (mss r)" by (rule send_rest_accepted)
  then show ?thesis using ne by (auto dest!: set_numbered_data)
next
  case (filled q)
  then show ?thesis using send_fill_nonempty [OF filled(1) ne] by simp
next
  case (streamed b r1 q)
  have m1: "0 < unat (mss r1)" "unat (mss r1) \<le> mtuLimit" using m streamed(2) by simp_all
  from streamed(4,3) m1 obtain cs where "r' = r1\<lparr>sndQueue := sndQueue r1 @ numbered (stream r1) cs\<rparr>"
    "\<forall>c \<in> set cs. c \<noteq> [] \<and> length c \<le> unat (mss r1)" by (rule send_rest_accepted)
  then show ?thesis using send_fill_nonempty [OF streamed(1) ne] by (auto dest!: set_numbered_data)
qed

text \<open>A piece of at most \<^verbatim>\<open>mss\<close> bytes is always accepted.\<close>

lemma Send_piece:
  assumes "0 < unat (mss r)" "unat (mss r) \<le> mtuLimit" "buf \<noteq> []" "length buf \<le> unat (mss r)"
  shows "\<exists>r'. Send buf r = Some (0, r')"
proof -
  have rest: "\<exists>r'. send_rest b s = Some (0, r')" if "b \<noteq> []" "length b \<le> length buf" "mss s = mss r" for b s
  proof -
    have "length b \<le> 255 * unat (mss s)" using that assms(4) by simp
    then show ?thesis using send_rest_ok [of s b] that assms(1,2) by auto
  qed
  show ?thesis
  proof (cases "stream r = 0")
    case True
    then show ?thesis using rest [of buf r] assms(3) by (simp add: Send_unfold)
  next
    case False
    obtain b r1 where f: "send_fill buf r = (b, r1)" by (cases "send_fill buf r")
    have "length b \<le> length buf" "mss r1 = mss r" "stream r1 = stream r"
      using f by (auto simp: send_fill_def Let_def split: if_splits)
    then show ?thesis using f False assms(3) rest [of b r1] by (cases "b = []") (auto simp: Send_unfold)
  qed
qed

end
