(* ===== verification/Network.thy ===== *)
theory Network
  imports Link Send_Pieces "HOL-Library.Sublist"
begin

text \<open>
  Two ends of a connection over a network that may lose, repeat and reorder packets: an end
  can be given any packet the other one has ever output, any number of times, in any order,
  at any time. The ends run \<^verbatim>\<open>Send\<close>, \<^verbatim>\<open>Receive\<close>, \<^verbatim>\<open>flush\<close>, \<^verbatim>\<open>Input\<close> and the tuning calls
  in any interleaving, with arbitrary clocks. \<open>ep_app\<close>, \<open>ep_got\<close> and \<open>ep_sent\<close> are history
  variables: the bytes accepted by \<^verbatim>\<open>Send\<close>, the bytes returned by \<^verbatim>\<open>Receive\<close>, and the payloads
  numbered so far.
\<close>

record endpoint =
  ep_rudp :: RUDP
  ep_world :: world
  ep_sent :: "payload list"
  ep_app :: "u8 list"
  ep_got :: "u8 list"

text \<open>The payloads that left the queue in a call, and so were given numbers.\<close>

definition newly_sent :: "RUDP \<Rightarrow> RUDP \<Rightarrow> payload list" where
  "newly_sent r r' = map pay (take (length (sndQueue r) - length (sndQueue r')) (sndQueue r))"

definition ran :: "endpoint \<Rightarrow> RUDP \<Rightarrow> world \<Rightarrow> endpoint" where
  "ran e r w = e\<lparr>ep_rudp := r, ep_world := w, ep_sent := ep_sent e @ newly_sent (ep_rudp e) r\<rparr>"

inductive ep_step :: "u8 list set \<Rightarrow> endpoint \<Rightarrow> endpoint \<Rightarrow> bool" for incoming :: "u8 list set" where
  user_send: "Send buffer (ep_rudp e) = Some (0, r) \<Longrightarrow>
    ep_step incoming e (e\<lparr>ep_rudp := r, ep_app := ep_app e @ buffer\<rparr>)"
| user_read: "fetch_bytes buffer (ep_rudp e) = Some (bs, r) \<Longrightarrow>
    ep_step incoming e (e\<lparr>ep_rudp := r, ep_got := ep_got e @ bs\<rparr>)"
| timer: "flush ackOnly (ep_rudp e) (ep_world e) = Some (v, r, w) \<Longrightarrow> ep_step incoming e (ran e r w)"
| packet: "p \<in> incoming \<Longrightarrow> Input p regular ackNoDelay (ep_rudp e) (ep_world e) = Some (code, r, w) \<Longrightarrow>
    ep_step incoming e (ran e r w)"
| tune: "ep_step incoming e (e\<lparr>ep_rudp := NoDelay nd iv rs nc (ep_rudp e)\<rparr>)"
| windows: "ep_step incoming e (e\<lparr>ep_rudp := snd (WndSize snd_wnd rcv_wnd (ep_rudp e))\<rparr>)"
| mode: "ep_step incoming e (e\<lparr>ep_rudp := (ep_rudp e)\<lparr>stream := x\<rparr>\<rparr>)"
| others: "out_calls w = out_calls (ep_world e) \<Longrightarrow> ep_step incoming e (e\<lparr>ep_world := w\<rparr>)"

inductive net_step :: "endpoint \<times> endpoint \<Rightarrow> endpoint \<times> endpoint \<Rightarrow> bool" where
  left: "ep_step (set (packets (ep_world b))) a a' \<Longrightarrow> net_step (a, b) (a', b)"
| right: "ep_step (set (packets (ep_world a))) b b' \<Longrightarrow> net_step (a, b) (a, b')"

inductive_cases net_stepE: "net_step (a, b) (a', b')"

text \<open>The packets an end has output after its first \<open>n\<close>.\<close>

definition new_packets :: "nat \<Rightarrow> endpoint \<Rightarrow> u8 list set" where
  "new_packets n e = set (drop n (packets (ep_world e)))"

lemma new_packets_all: "p \<in> new_packets n e \<Longrightarrow> p \<in> set (packets (ep_world e))"
  by (auto simp: new_packets_def dest: in_set_dropD)

definition new_endpoint :: "u32 \<Rightarrow> world \<Rightarrow> endpoint" where
  "new_endpoint conv w = \<lparr>ep_rudp = NewRudp conv, ep_world = w, ep_sent = [], ep_app = [], ep_got = []\<rparr>"

section \<open>The invariant of each end and of each direction\<close>

definition side_inv :: "u32 \<Rightarrow> endpoint \<Rightarrow> bool" where
  "side_inv c e \<longleftrightarrow> link_out c (ep_sent e) (sndQueue (ep_rudp e)) (ep_rudp e) (ep_world e) \<and>
     concat (map snd (ep_sent e)) @ queue_bytes (sndQueue (ep_rudp e)) = ep_app e"

definition nth_src :: "payload list \<Rightarrow> nat \<Rightarrow> payload" where
  "nth_src sent n = (if n < length sent then sent ! n else (0, []))"

definition flow_inv :: "endpoint \<Rightarrow> endpoint \<Rightarrow> bool" where
  "flow_inv a b \<longleftrightarrow> (length (ep_sent a) < 2 ^ 32 \<longrightarrow>
     link_in (nth_src (ep_sent a)) (length (ep_sent a)) (ep_got b) (ep_rudp b))"

lemma rcv_inv_agree:
  assumes "rcv_inv src r" "unat (rcvNxt r) \<le> N" "\<forall>s \<in> set (rcvBuf r). unat (seg_sn s) < N" "\<And>n. n < N \<Longrightarrow> src' n = src n"
  shows "rcv_inv src' r"
  using assms by (auto simp: rcv_inv_def intro!: map_cong)

lemma link_in_agree:
  assumes "link_in src N got r" "N \<le> N'" "\<And>n. n < N \<Longrightarrow> src' n = src n"
  shows "link_in src' N' got r"
proof -
  have in_: "rcv_inv src r" "unat (rcvNxt r) \<le> N" "\<forall>s \<in> set (rcvBuf r). unat (seg_sn s) < N"
    using assms(1) by (simp_all add: link_in_def)
  have "src_bytes (\<lambda>n. snd (src' n)) 0 (unat (rcvNxt r)) = src_bytes (\<lambda>n. snd (src n)) 0 (unat (rcvNxt r))"
    unfolding src_bytes_def by (intro arg_cong [where f = concat] map_cong) (use in_(2) assms(3) in auto)
  then show ?thesis
    using assms(1,2) rcv_inv_agree [OF in_ assms(3)] by (fastforce simp: link_in_def)
qed

lemma nth_src_append: "n < length sent \<Longrightarrow> nth_src (sent @ xs) n = nth_src sent n"
  by (simp add: nth_src_def nth_append)

lemma src_bytes_nth_src:
  "n \<le> length sent \<Longrightarrow> src_bytes (\<lambda>n. snd (nth_src sent n)) 0 n = concat (map snd (take n sent))"
  by (auto simp: src_bytes_def nth_src_def map_nth_upt intro!: arg_cong [where f = concat] map_cong)

text \<open>After a call the history takes in the payloads that were numbered.\<close>

lemma link_out_rebase:
  assumes "link_out c sent (sndQueue r) r' w'"
  shows "link_out c (sent @ newly_sent r r') (sndQueue r') r' w'"
    and "concat (map snd (sent @ newly_sent r r')) @ queue_bytes (sndQueue r') =
         concat (map snd sent) @ queue_bytes (sndQueue r)"
proof -
  obtain k where k: "k \<le> length (sndQueue r)" "sndQueue r' = drop k (sndQueue r)" "sndNxt r' = word_of_nat (length sent + k)"
    "length sent + k < 2 ^ 32 \<longrightarrow> out_ok c (sent @ map pay (take k (sndQueue r))) r' w'"
    and ok: "sender_ok r'" "reserved r' = 0" "rudp_conv r' = c"
    using assms unfolding link_out_def by blast
  have new: "newly_sent r r' = map pay (take k (sndQueue r))" using k(1,2) by (simp add: newly_sent_def)
  show "link_out c (sent @ newly_sent r r') (sndQueue r') r' w'"
    unfolding link_out_def using k ok by (auto simp: new intro!: exI [of _ 0])
  have "concat (map snd (map pay q)) = queue_bytes q" for q by (simp add: queue_bytes_def pay_def comp_def)
  then show "concat (map snd (sent @ newly_sent r r')) @ queue_bytes (sndQueue r') =
         concat (map snd sent) @ queue_bytes (sndQueue r)"
    unfolding new k(2) by (simp flip: queue_bytes_simps(3))
qed

text \<open>An accepted \<^verbatim>\<open>Send\<close>, in either mode.\<close>

lemma Send_accepted:
  assumes "sender_ok r" "Send buffer r = Some (0, r')"
  shows "\<exists>q. r' = r\<lparr>sndQueue := q\<rparr> \<and> queue_bytes q = queue_bytes (sndQueue r) @ buffer \<and> sender_ok r'"
proof -
  have "0 < unat (mss r)" "unat (mss r) \<le> mtuLimit" "fits_mss r"
    using assms(1) sender_ok_mss [OF assms(1)] by (simp_all add: sender_ok_def sizes_ok_def unat_gt_0)
  from Send_accepted_queue [OF this assms(2)] show ?thesis
    using assms(1) by (auto simp: sender_ok_def sizes_ok_def fits_mss_def snd_inv_def)
qed

section \<open>The invariants hold in every run\<close>

lemma NoDelay_frame:
  "mss (NoDelay nd iv rs nc r) = mss r" "mtu (NoDelay nd iv rs nc r) = mtu r" "reserved (NoDelay nd iv rs nc r) = reserved r"
  "rudp_buffer (NoDelay nd iv rs nc r) = rudp_buffer r" "sndQueue (NoDelay nd iv rs nc r) = sndQueue r"
  "sndBuf (NoDelay nd iv rs nc r) = sndBuf r" "sndUna (NoDelay nd iv rs nc r) = sndUna r"
  "sndNxt (NoDelay nd iv rs nc r) = sndNxt r" "rudp_conv (NoDelay nd iv rs nc r) = rudp_conv r"
  "rcvNxt (NoDelay nd iv rs nc r) = rcvNxt r" "rcvQueue (NoDelay nd iv rs nc r) = rcvQueue r"
  "rcvBuf (NoDelay nd iv rs nc r) = rcvBuf r"
  by (simp_all add: NoDelay_def Let_def)

lemma WndSize_frame:
  "mss (snd (WndSize a b r)) = mss r" "mtu (snd (WndSize a b r)) = mtu r" "reserved (snd (WndSize a b r)) = reserved r"
  "rudp_buffer (snd (WndSize a b r)) = rudp_buffer r" "sndQueue (snd (WndSize a b r)) = sndQueue r"
  "sndBuf (snd (WndSize a b r)) = sndBuf r" "sndUna (snd (WndSize a b r)) = sndUna r"
  "sndNxt (snd (WndSize a b r)) = sndNxt r" "rudp_conv (snd (WndSize a b r)) = rudp_conv r"
  "rcvNxt (snd (WndSize a b r)) = rcvNxt r" "rcvQueue (snd (WndSize a b r)) = rcvQueue r"
  "rcvBuf (snd (WndSize a b r)) = rcvBuf r"
  by (simp_all add: WndSize_def Let_def)

lemma Receive_frame:
  assumes "fetch_bytes buffer r = Some (bs, r')"
  shows "\<exists>n q f p. r' = r\<lparr>rcvNxt := n, rcvQueue := q, rcvBuf := f, probe := p\<rparr>"
proof (cases "peekSize r < 0 \<or> int (length buffer) < peekSize r")
  case True
  then have "r' = r\<lparr>rcvNxt := rcvNxt r, rcvQueue := rcvQueue r, rcvBuf := rcvBuf r, probe := probe r\<rparr>"
    using assms by (simp add: fetch_bytes_eq)
  then show ?thesis by blast
next
  case False
  obtain n q f where eq: "move_to_queue (r\<lparr>rcvQueue := drop (msg_len (rcvQueue r)) (rcvQueue r)\<rparr>) = r\<lparr>rcvNxt := n, rcvQueue := q, rcvBuf := f\<rparr>"
    using move_to_queue_frame [of "r\<lparr>rcvQueue := drop (msg_len (rcvQueue r)) (rcvQueue r)\<rparr>"] by auto
  have "r' = after_receive r" using assms False by (simp add: fetch_bytes_eq)
  then have "r' = r\<lparr>rcvNxt := n, rcvQueue := q, rcvBuf := f, probe := probe r'\<rparr>"
    by (simp add: after_receive_def eq Let_def)
  then show ?thesis by blast
qed

lemma side_inv_same:
  assumes "side_inv c e" and "sender_ok r" and "reserved r = reserved (ep_rudp e)" and "rudp_conv r = rudp_conv (ep_rudp e)"
    and "sndQueue r = sndQueue (ep_rudp e)" and "sndNxt r = sndNxt (ep_rudp e)" and "sndBuf r = sndBuf (ep_rudp e)"
  shows "side_inv c (e\<lparr>ep_rudp := r\<rparr>)" "side_inv c (e\<lparr>ep_rudp := r, ep_got := g\<rparr>)"
proof -
  have "link_out c (ep_sent e) (sndQueue (ep_rudp e)) r (ep_world e)"
    by (rule link_out_cong [of c "ep_sent e" _ "ep_rudp e" "ep_world e"]) (use assms in \<open>auto simp: side_inv_def\<close>)
  then show "side_inv c (e\<lparr>ep_rudp := r\<rparr>)" "side_inv c (e\<lparr>ep_rudp := r, ep_got := g\<rparr>)"
    using assms(1,5) by (simp_all add: side_inv_def)
qed

lemma side_inv_ran:
  assumes "side_inv c e" and "link_out c (ep_sent e) (sndQueue (ep_rudp e)) r w"
  shows "side_inv c (ran e r w)"
  using assms link_out_rebase [OF assms(2)] by (simp add: side_inv_def ran_def)

lemma side_inv_step: "ep_step incoming e e' \<Longrightarrow> side_inv c e \<Longrightarrow> side_inv c e'"
proof (induction rule: ep_step.induct)
  case (user_send buffer e r)
  have inv: "link_out c (ep_sent e) (sndQueue (ep_rudp e)) (ep_rudp e) (ep_world e)"
    and app: "concat (map snd (ep_sent e)) @ queue_bytes (sndQueue (ep_rudp e)) = ep_app e"
    using user_send.prems by (simp_all add: side_inv_def)
  have "sender_ok (ep_rudp e)" using inv by (simp add: link_out_def)
  then obtain q where q: "r = (ep_rudp e)\<lparr>sndQueue := q\<rparr>" "queue_bytes q = queue_bytes (sndQueue (ep_rudp e)) @ buffer"
      "sender_ok r"
    using Send_accepted [OF _ user_send.hyps] by blast
  obtain k where k: "k \<le> length (sndQueue (ep_rudp e))" "sndQueue (ep_rudp e) = drop k (sndQueue (ep_rudp e))"
      "sndNxt (ep_rudp e) = word_of_nat (length (ep_sent e) + k)"
      "length (ep_sent e) + k < 2 ^ 32 \<longrightarrow> out_ok c (ep_sent e @ map pay (take k (sndQueue (ep_rudp e)))) (ep_rudp e) (ep_world e)"
    and ok: "reserved (ep_rudp e) = 0" "rudp_conv (ep_rudp e) = c"
    using inv unfolding link_out_def by blast
  have "k = 0 \<or> sndQueue (ep_rudp e) = []"
    using arg_cong [OF k(2), of length] k(1) by (cases "sndQueue (ep_rudp e)") auto
  then have k0: "k = 0" using k(1) by auto
  have "link_out c (ep_sent e) q r (ep_world e)"
    unfolding link_out_def using q(1,3) k(3,4) ok k0 by (auto simp: out_ok_def intro!: exI [of _ 0])
  then show ?case using q app by (simp add: side_inv_def)
next
  case (user_read buffer e bs r)
  obtain n q f p where eq: "r = (ep_rudp e)\<lparr>rcvNxt := n, rcvQueue := q, rcvBuf := f, probe := p\<rparr>"
    using Receive_frame [OF user_read.hyps] by blast
  have "sender_ok (ep_rudp e)" using user_read.prems by (simp add: side_inv_def link_out_def)
  then have "sender_ok r" by (rule sender_ok_cong) (simp_all add: eq)
  then show ?case by (intro side_inv_same(2) [OF user_read.prems]) (simp_all add: eq)
next
  case (timer ackOnly e v r w)
  then show ?case
    by (intro side_inv_ran) (auto simp: side_inv_def intro: link_out_flush)
next
  case (packet p regular ackNoDelay e code r w)
  have "link_out c (ep_sent e) (sndQueue (ep_rudp e)) (ep_rudp e) (ep_world e)"
    using packet.prems by (simp add: side_inv_def)
  from sending.keep_Input [OF this _ packet.hyps(2)] show ?case
    by (intro side_inv_ran packet.prems) auto
next
  case (tune e nd iv rs nc)
  have "sender_ok (ep_rudp e)" using tune by (simp add: side_inv_def link_out_def)
  then have "sender_ok (NoDelay nd iv rs nc (ep_rudp e))" by (rule sender_ok_cong) (simp_all add: NoDelay_frame)
  then show ?case by (intro side_inv_same(1) [OF tune]) (simp_all add: NoDelay_frame)
next
  case (windows e a b)
  have "sender_ok (ep_rudp e)" using windows by (simp add: side_inv_def link_out_def)
  then have "sender_ok (snd (WndSize a b (ep_rudp e)))" by (rule sender_ok_cong) (simp_all add: WndSize_frame)
  then show ?case by (intro side_inv_same(1) [OF windows]) (simp_all add: WndSize_frame)
next
  case (mode e x)
  have "sender_ok (ep_rudp e)" using mode by (simp add: side_inv_def link_out_def)
  then have "sender_ok ((ep_rudp e)\<lparr>stream := x\<rparr>)" by (rule sender_ok_cong) simp_all
  then show ?case by (intro side_inv_same(1) [OF mode]) simp_all
next
  case (others w e)
  have inv: "link_out c (ep_sent e) (sndQueue (ep_rudp e)) (ep_rudp e) (ep_world e)" using others.prems by (simp add: side_inv_def)
  then have "link_out c (ep_sent e) (sndQueue (ep_rudp e)) (ep_rudp e) w"
    by (rule link_out_cong) (use inv others.hyps in \<open>auto simp: link_out_def packets_def\<close>)
  then show ?case using others.prems by (simp add: side_inv_def)
qed

lemma ran_simps [simp]:
  "ep_rudp (ran e r w) = r" "ep_world (ran e r w) = w" "ep_got (ran e r w) = ep_got e" "ep_app (ran e r w) = ep_app e"
  "ep_sent (ran e r w) = ep_sent e @ newly_sent (ep_rudp e) r"
  by (simp_all add: ran_def)

lemma sent_grows: "ep_step incoming e e' \<Longrightarrow> \<exists>xs. ep_sent e' = ep_sent e @ xs"
  by (induction rule: ep_step.induct) auto

text \<open>A step of the sending end only extends the history.\<close>

lemma flow_inv_left:
  assumes "ep_step incoming a a'" "flow_inv a b"
  shows "flow_inv a' b"
proof -
  obtain xs where xs: "ep_sent a' = ep_sent a @ xs" using sent_grows [OF assms(1)] by blast
  show ?thesis
    using assms(2) unfolding flow_inv_def xs by (auto intro: link_in_agree simp: nth_src_append)
qed

text \<open>The segments of a good packet are what the contract of the receiving end asks for.\<close>

lemma good_packet_parse:
  assumes "good_packet c sent p" "(h, body) \<in> set (snd (parse_packet c p))" "hd_cmd h = IRUDP_CMD_PUSH"
  shows "(hd_frg h, body) = nth_src sent (unat (hd_sn h)) \<and> unat (hd_sn h) < length sent"
proof -
  obtain es where es: "p = wires es" "\<forall>s \<in> set es. good_seg c sent s" using assms(1) by (auto simp: good_packet_def)
  then have "parse_packet c p = (0, map (\<lambda>s. (header_of s, seg_data s)) es)"
    by (simp add: parse_wires good_seg_def)
  then obtain s where "s \<in> set es" "h = header_of s" "body = seg_data s" using assms(2) by auto
  then show ?thesis using es(2) assms(3) by (auto simp: good_seg_def header_of_def nth_src_def pay_def)
qed

lemma flow_inv_right:
  assumes "ep_step (set (packets (ep_world a))) b b'" "flow_inv a b" "side_inv c a" "rudp_conv (ep_rudp b) = c"
    and "link_out c (ep_sent a) (sndQueue (ep_rudp a)) (ep_rudp a) (ep_world a)"
  shows "flow_inv a b'"
  unfolding flow_inv_def
proof
  let ?src = "nth_src (ep_sent a)" and ?N = "length (ep_sent a)"
  assume small: "?N < 2 ^ 32"
  then have inv: "link_in ?src ?N (ep_got b) (ep_rudp b)" using assms(2) by (simp add: flow_inv_def)
  have ok: "sender_ok (ep_rudp b)" using inv by (simp add: link_in_def)
  show "link_in ?src ?N (ep_got b') (ep_rudp b')"
    using assms(1) inv ok assms(4)
  proof (cases rule: ep_step.cases)
    case (user_send buffer r)
    then obtain q where "r = (ep_rudp b)\<lparr>sndQueue := q\<rparr>" "sender_ok r" using Send_accepted [OF ok] by blast
    then show ?thesis using user_send link_in_cong [OF inv, of r] by simp
  next
    case (user_read buffer bs r)
    then show ?thesis using link_in_fetch [OF inv] by simp
  next
    case (timer ackOnly v r w)
    then show ?thesis using receiving.keep_flush [OF inv] by simp
  next
    case (packet p regular ackNoDelay code r w)
    obtain k where k: "k \<le> length (sndQueue (ep_rudp a))" "sndQueue (ep_rudp a) = drop k (sndQueue (ep_rudp a))"
      "length (ep_sent a) + k < 2 ^ 32 \<longrightarrow> out_ok c (ep_sent a @ map pay (take k (sndQueue (ep_rudp a)))) (ep_rudp a) (ep_world a)"
      using assms(5) unfolding link_out_def by blast
    have "k = 0" using arg_cong [OF k(2), of length] k(1) by (cases "sndQueue (ep_rudp a)") auto
    then have "good_packet c (ep_sent a) p" using k(3) small packet(2) by (simp add: out_ok_def)
    then have "\<forall>(h, body) \<in> set (snd (parse_packet (rudp_conv (ep_rudp b)) p)).
        hd_cmd h = IRUDP_CMD_PUSH \<longrightarrow> (hd_frg h, body) = ?src (unat (hd_sn h)) \<and> unat (hd_sn h) < ?N"
      unfolding assms(4) by (auto dest: good_packet_parse)
    from receiving.keep_Input [OF inv this packet(3)] show ?thesis using packet(1) by simp
  next
    case (tune nd iv rs nc)
    have "sender_ok (NoDelay nd iv rs nc (ep_rudp b))" by (rule sender_ok_cong [OF ok]) (simp_all add: NoDelay_frame)
    then show ?thesis using tune link_in_cong [OF inv] by (simp add: NoDelay_frame)
  next
    case (windows x y)
    have "sender_ok (snd (WndSize x y (ep_rudp b)))" by (rule sender_ok_cong [OF ok]) (simp_all add: WndSize_frame)
    then show ?thesis using windows link_in_cong [OF inv] by (simp add: WndSize_frame)
  next
    case (mode x)
    have "sender_ok ((ep_rudp b)\<lparr>stream := x\<rparr>)" by (rule sender_ok_cong [OF ok]) simp_all
    then show ?thesis using mode link_in_cong [OF inv] by simp
  next
    case (others w)
    then show ?thesis using inv by simp
  qed
qed

definition net_inv :: "u32 \<Rightarrow> endpoint \<times> endpoint \<Rightarrow> bool" where
  "net_inv c ab \<longleftrightarrow> (case ab of (a, b) \<Rightarrow> side_inv c a \<and> side_inv c b \<and> flow_inv a b \<and> flow_inv b a)"

lemma side_inv_conv: "side_inv c e \<Longrightarrow> rudp_conv (ep_rudp e) = c"
  by (simp add: side_inv_def link_out_def)

lemma side_inv_link: "side_inv c e \<Longrightarrow> link_out c (ep_sent e) (sndQueue (ep_rudp e)) (ep_rudp e) (ep_world e)"
  by (simp add: side_inv_def)

lemma net_inv_step: "net_step ab ab' \<Longrightarrow> net_inv c ab \<Longrightarrow> net_inv c ab'"
proof (induction rule: net_step.induct)
  case (left b a a')
  then have inv: "side_inv c a" "side_inv c b" "flow_inv a b" "flow_inv b a" by (simp_all add: net_inv_def)
  show ?case
    using side_inv_step [OF left.hyps inv(1)] flow_inv_left [OF left.hyps inv(3)]
      flow_inv_right [OF left.hyps inv(4,2) side_inv_conv [OF inv(1)] side_inv_link [OF inv(2)]] inv(2)
    by (simp add: net_inv_def)
next
  case (right a b b')
  then have inv: "side_inv c a" "side_inv c b" "flow_inv a b" "flow_inv b a" by (simp_all add: net_inv_def)
  show ?case
    using side_inv_step [OF right.hyps inv(2)] flow_inv_left [OF right.hyps inv(4)]
      flow_inv_right [OF right.hyps inv(3,1) side_inv_conv [OF inv(2)] side_inv_link [OF inv(1)]] inv(1)
    by (simp add: net_inv_def)
qed

lemma net_inv_run: "net_step\<^sup>*\<^sup>* ab ab' \<Longrightarrow> net_inv c ab \<Longrightarrow> net_inv c ab'"
  by (induction rule: rtranclp_induct) (auto intro: net_inv_step)

lemma net_inv_start:
  assumes "out_calls wa = []" "out_calls wb = []"
  shows "net_inv c (new_endpoint c wa, new_endpoint c wb)"
proof -
  have ok: "sender_ok (NewRudp c)"
    by (simp add: sender_ok_def sizes_ok_NewRudp) (simp add: fits_mss_def snd_inv_def NewRudp_def zero_RUDP_def)
  have new: "sndQueue (NewRudp c) = []" "sndBuf (NewRudp c) = []" "sndNxt (NewRudp c) = 0" "rudp_conv (NewRudp c) = c"
    "reserved (NewRudp c) = 0" "rcvNxt (NewRudp c) = 0" "rcvQueue (NewRudp c) = []" "rcvBuf (NewRudp c) = []"
    by (simp_all add: NewRudp_def zero_RUDP_def)
  have "side_inv c (new_endpoint c w)" if "out_calls w = []" for w
    using that ok by (simp add: side_inv_def new_endpoint_def link_out_def new out_ok_def packets_def)
  moreover have "flow_inv (new_endpoint c w) (new_endpoint c w')" for w w'
    using ok by (simp add: flow_inv_def new_endpoint_def link_in_def new rcv_inv_def src_bytes_def)
  ultimately show ?thesis using assms by (simp add: net_inv_def)
qed

lemma flow_prefix_queued:
  assumes "side_inv c a" "flow_inv a b" "length (ep_sent a) < 2 ^ 32"
  shows "prefix (ep_got b @ queue_bytes (rcvQueue (ep_rudp b))) (ep_app a)"
proof -
  let ?n = "unat (rcvNxt (ep_rudp b))"
  have in_: "ep_got b @ queue_bytes (rcvQueue (ep_rudp b)) = concat (map snd (take ?n (ep_sent a)))"
    using assms(2,3) src_bytes_nth_src [of ?n "ep_sent a"] by (simp add: flow_inv_def link_in_def)
  have "ep_app a = concat (map snd (take ?n (ep_sent a))) @ concat (map snd (drop ?n (ep_sent a))) @
      queue_bytes (sndQueue (ep_rudp a))"
    using assms(1) unfolding side_inv_def
    by (metis append.assoc append_take_drop_id concat_append map_append)
  then show ?thesis unfolding in_ by simp
qed

lemma flow_prefix: "side_inv c a \<Longrightarrow> flow_inv a b \<Longrightarrow> length (ep_sent a) < 2 ^ 32 \<Longrightarrow> prefix (ep_got b) (ep_app a)"
  using flow_prefix_queued append_prefixD by blast

text \<open>No queued or numbered payload is empty, so the numbers used are at most the bytes sent.\<close>

definition no_empty :: "endpoint \<Rightarrow> bool" where
  "no_empty e \<longleftrightarrow> (\<forall>s \<in> set (sndQueue (ep_rudp e)). seg_data s \<noteq> []) \<and> (\<forall>p \<in> set (ep_sent e). snd p \<noteq> [])"

lemma no_empty_ran:
  assumes "no_empty e" "link_out c (ep_sent e) (sndQueue (ep_rudp e)) r w"
  shows "no_empty (ran e r w)"
proof -
  obtain k where "sndQueue r = drop k (sndQueue (ep_rudp e))" using assms(2) by (auto simp: link_out_def)
  then show ?thesis using assms(1)
    by (auto simp: no_empty_def newly_sent_def pay_def dest!: in_set_dropD in_set_takeD)
qed

lemma no_empty_step: "ep_step incoming e e' \<Longrightarrow> side_inv c e \<Longrightarrow> no_empty e \<Longrightarrow> no_empty e'"
proof (induction rule: ep_step.induct)
  case (user_send buffer e r)
  have "sender_ok (ep_rudp e)" using user_send.prems(1) by (simp add: side_inv_def link_out_def)
  then have "0 < unat (mss (ep_rudp e))" "unat (mss (ep_rudp e)) \<le> mtuLimit"
    by (simp_all add: sender_ok_def sizes_ok_def unat_gt_0 word_gt_0)
  from Send_nonempty [OF this user_send.hyps] show ?case using user_send.prems(2) by (simp add: no_empty_def)
next
  case (user_read buffer e bs r)
  obtain n q f p where "r = (ep_rudp e)\<lparr>rcvNxt := n, rcvQueue := q, rcvBuf := f, probe := p\<rparr>"
    using Receive_frame [OF user_read.hyps] by blast
  then show ?case using user_read.prems(2) by (simp add: no_empty_def)
next
  case (timer ackOnly e v r w)
  then show ?case by (intro no_empty_ran) (auto intro: link_out_flush side_inv_link)
next
  case (packet p regular ackNoDelay e code r w)
  from sending.keep_Input [OF side_inv_link [OF packet.prems(1)] _ packet.hyps(2)] show ?case
    by (intro no_empty_ran packet.prems(2)) auto
qed (simp_all add: no_empty_def NoDelay_frame WndSize_frame)

lemma no_empty_run:
  assumes "net_step\<^sup>*\<^sup>* ab ab'" "net_inv c ab" "no_empty (fst ab)" "no_empty (snd ab)"
  shows "no_empty (fst ab') \<and> no_empty (snd ab')"
  using assms
proof (induction rule: rtranclp_induct)
  case (step y z)
  have inv: "net_inv c y" by (rule net_inv_run [OF step.hyps(1) step.prems(1)])
  from step.hyps(2) show ?case
    by (cases rule: net_step.cases) (use step inv no_empty_step in \<open>auto simp: net_inv_def\<close>)
qed simp

lemma sent_le_bytes:
  assumes "no_empty e" "side_inv c e"
  shows "length (ep_sent e) \<le> length (ep_app e)"
proof -
  have "length ps \<le> length (concat (map snd ps))" if "\<forall>p \<in> set ps. snd p \<noteq> []" for ps :: "payload list"
    using that by (induction ps) (auto simp: Suc_le_eq intro: le_less_trans)
  moreover have "length (concat (map snd (ep_sent e))) \<le> length (ep_app e)"
    using assms(2) unfolding side_inv_def by (metis le_add1 length_append)
  ultimately show ?thesis using assms(1) by (fastforce simp: no_empty_def)
qed

text \<open>A run: one end switches congestion control off, sends three bytes and flushes.\<close>

lemma demo_run:
  "\<exists>a b. net_step\<^sup>*\<^sup>* (new_endpoint 7 (new_world []), new_endpoint 7 (new_world [])) (a, b) \<and>
     ep_app a = [1, 2, 3] \<and> ep_sent a = [(0, [1, 2, 3])] \<and> b = new_endpoint 7 (new_world [])"
proof -
  let ?e = "new_endpoint 7 (new_world [])" and ?q = "[fragment 0 [1, 2, 3]]"
  let ?r1 = "NoDelay (-1) (-1) (-1) 1 (NewRudp 7)"
  let ?r2 = "?r1\<lparr>sndQueue := ?q\<rparr>"
  have fresh: "net_inv 7 (?e, ?e)" by (rule net_inv_start) (simp_all add: new_world_def)
  have r1: "?r1 = (NewRudp 7)\<lparr>noCwnd := 1\<rparr>" by (simp add: NoDelay_def Let_def)
  have "unat (mss (NewRudp 7)) = 1376" "stream (NewRudp 7) = 0" "sndQueue (NewRudp 7) = []"
    by (simp_all add: NewRudp_def zero_RUDP_def)
  then have sent: "Send [1, 2, 3] ?r1 = Some (0, ?r2)"
    by (simp add: r1 Send_def send_count_def newSegment_def copy_into_def fragment_def zero_segment_def Let_def)
  let ?a1 = "?e\<lparr>ep_rudp := ?r1\<rparr>"
  let ?a2 = "?a1\<lparr>ep_rudp := ?r2, ep_app := [1, 2, 3]\<rparr>"
  have "ep_step (set (packets (ep_world ?e))) ?e (?e\<lparr>ep_rudp := NoDelay (-1) (-1) (-1) 1 (ep_rudp ?e)\<rparr>)" by (rule ep_step.tune)
  then have 1: "net_step (?e, ?e) (?a1, ?e)" by (intro net_step.left) (simp add: new_endpoint_def)
  have "ep_step (set (packets (ep_world ?e))) ?a1 (?a1\<lparr>ep_rudp := ?r2, ep_app := ep_app ?a1 @ [1, 2, 3]\<rparr>)"
    by (rule ep_step.user_send) (simp add: sent)
  then have 2: "net_step (?a1, ?e) (?a2, ?e)" by (intro net_step.left) (simp add: new_endpoint_def)
  have "side_inv 7 ?a2" using net_inv_step [OF 2 net_inv_step [OF 1 fresh]] by (simp add: net_inv_def)
  then have so: "sizes_ok ?r2" "fits_mss ?r2" by (simp_all add: side_inv_def link_out_def sender_ok_def)
  obtain v r w pushes where 3: "flush False ?r2 (new_world []) = Some (v, r, w)" "flush_data_post ?r2 r pushes"
    using flush_full [OF so, of "new_world []"] by blast
  have "admitted (send_window ?r2) ?r2 = 1"
    by (simp add: send_window_def NoDelay_def NewRudp_def zero_RUDP_def rudp_min_def Let_def)
  then have "sndQueue r = []" using post_keys [OF 3(2)] by (simp add: Let_def)
  then have new: "ep_sent (ran ?a2 r w) = [(0, [1, 2, 3])]"
    by (simp add: newly_sent_def new_endpoint_def pay_def fragment_def zero_segment_def)
  have 4: "net_step (?a2, ?e) (ran ?a2 r w, ?e)"
    by (rule net_step.left, rule ep_step.timer) (use 3(1) in \<open>simp add: new_endpoint_def\<close>)
  have "net_step\<^sup>*\<^sup>* (?e, ?e) (ran ?a2 r w, ?e)"
    by (rule converse_rtranclp_into_rtranclp, rule 1, rule converse_rtranclp_into_rtranclp, rule 2, rule r_into_rtranclp, rule 4)
  then show ?thesis using new by (intro exI [of _ "ran ?a2 r w"] exI [of _ ?e]) simp
qed

section \<open>Properties\<close>

text \<open>
  End-to-end delivery. Two fresh ends with the same conversation number exchange
  packets over a network that loses, repeats and reorders them, in any interleaving of
  \<^verbatim>\<open>Send\<close>, \<^verbatim>\<open>Receive\<close>, \<^verbatim>\<open>flush\<close>, \<^verbatim>\<open>Input\<close> and tuning calls on both sides. As long as neither
  side has numbered \<open>2^32\<close> segments, the bytes each side has read are a prefix of the bytes
  the other side's \<^verbatim>\<open>Send\<close> has accepted: nothing is lost, repeated, reordered or invented.
\<close>

lemma network_delivers_prefix:
  assumes "net_step\<^sup>*\<^sup>* (new_endpoint conv wa, new_endpoint conv wb) (a, b)"
    and "out_calls wa = []" and "out_calls wb = []"
    and "length (ep_sent a) < 2 ^ 32" and "length (ep_sent b) < 2 ^ 32"
  shows "prefix (ep_got b) (ep_app a) \<and> prefix (ep_got a) (ep_app b)"
  using net_inv_run [OF assms(1) net_inv_start [OF assms(2,3)]] assms(4,5)
  by (auto simp: net_inv_def intro: flow_prefix)

lemma network_delivers_prefix_witness:
  "\<exists>a b. net_step\<^sup>*\<^sup>* (new_endpoint 7 (new_world []), new_endpoint 7 (new_world [])) (a, b) \<and>
     ep_app a = [1, 2, 3] \<and> ep_sent a = [(0, [1, 2, 3])] \<and> prefix (ep_got b) [1, 2, 3]"
proof -
  obtain a b where run: "net_step\<^sup>*\<^sup>* (new_endpoint 7 (new_world []), new_endpoint 7 (new_world [])) (a, b)"
      "ep_app a = [1, 2, 3]" "ep_sent a = [(0, [1, 2, 3])]" "b = new_endpoint 7 (new_world [])"
    using demo_run by blast
  then have "prefix (ep_got b) [1, 2, 3]"
    using network_delivers_prefix [OF run(1)] by (simp add: new_world_def new_endpoint_def)
  then show ?thesis using run(1-3) by blast
qed

end
