(* ===== verification/Session_Safety.thy ===== *)
theory Session_Safety
  imports Session_Spec Network
begin

text \<open>
  A session as a whole: what \<^verbatim>\<open>Read\<close> and \<^verbatim>\<open>WriteBuffers\<close> do to the engine, and every history of
  calls, packets and timer events of one session, which never panics and never hangs in a
  loop of its own.
\<close>

section \<open>Writing\<close>

text \<open>A sequence of accepted \<^verbatim>\<open>Send\<close>s.\<close>

inductive sends :: "RUDP \<Rightarrow> u8 list \<Rightarrow> RUDP \<Rightarrow> bool" where
  none: "sends r [] r"
| more: "Send buf r = Some (0, r1) \<Longrightarrow> sends r1 bs r2 \<Longrightarrow> sends r (buf @ bs) r2"

lemma sends_trans: "sends r1 bs r2 \<Longrightarrow> sends r2 cs r3 \<Longrightarrow> sends r1 (bs @ cs) r3"
  by (induction rule: sends.induct) (auto intro: sends.more)

lemma Send_nil: "Send [] r = Some (-1, r)"
  by (simp add: Send_unfold)

text \<open>What a write leaves: more bytes in the queue.\<close>

definition queued :: "RUDP \<Rightarrow> u8 list \<Rightarrow> RUDP \<Rightarrow> bool" where
  "queued r bs r' \<longleftrightarrow> (\<exists>q. r' = r\<lparr>sndQueue := q\<rparr> \<and> queue_bytes q = queue_bytes (sndQueue r) @ bs) \<and> safe r'"

lemma queued_nil: "safe r \<Longrightarrow> queued r [] r"
  unfolding queued_def by (auto intro: exI [of _ "sndQueue r"])

lemma queued_trans: "queued r1 bs r2 \<Longrightarrow> queued r2 cs r3 \<Longrightarrow> queued r1 (bs @ cs) r3"
  by (auto simp: queued_def)

lemma safe_room: "safe r \<Longrightarrow> 0 < unat (mss r) \<and> unat (mss r) \<le> mtuLimit \<and> fits_mss r"
  using safe_mss [of r] by (simp add: safe_def sizes_ok_def unat_gt_0)

lemma Send_queued:
  assumes "safe r" "Send buf r = Some (0, r')"
  shows "queued r buf r'"
proof -
  have m: "0 < unat (mss r)" "unat (mss r) \<le> mtuLimit" "fits_mss r" using safe_room [OF assms(1)] by auto
  obtain q where "r' = r\<lparr>sndQueue := q\<rparr>" "queue_bytes q = queue_bytes (sndQueue r) @ buf"
      "\<forall>s \<in> set q. length (seg_data s) \<le> unat (mss r)"
    using Send_accepted_queue [where r = r, OF m assms(2)] by blast
  then show ?thesis using assms(1) by (auto simp: queued_def safe_def sizes_ok_def fits_mss_def)
qed

lemma write_buf_ok: "safe r \<Longrightarrow> \<exists>r'. write_buf buf r = Some r' \<and> queued r buf r' \<and> sends r buf r'"
proof (induction "length buf" arbitrary: buf r rule: less_induct)
  case less
  have m: "0 < unat (mss r)" "unat (mss r) \<le> mtuLimit" using safe_room [OF less.prems] by auto
  show ?case
  proof (cases "length buf \<le> unat (mss r)")
    case True
    show ?thesis
    proof (cases "buf = []")
      case True
      then show ?thesis using less.prems by (auto simp: write_buf.simps Send_nil queued_nil sends.none)
    next
      case False
      then obtain r' where r': "Send buf r = Some (0, r')" using Send_piece [OF m False True] by blast
      then show ?thesis
        using Send_queued [OF less.prems r'] True sends.more [OF r' sends.none] by (auto simp: write_buf.simps)
    qed
  next
    case False
    let ?b = "take (unat (mss r)) buf" and ?c = "drop (unat (mss r)) buf"
    have "?b \<noteq> []" using m False by auto
    then obtain r1 where r1: "Send ?b r = Some (0, r1)" using Send_piece [OF m, of ?b] by auto
    note q1 = Send_queued [OF less.prems r1]
    then have r1': "safe r1" "mss r1 = mss r" by (auto simp: queued_def)
    have "length ?c < length buf" using m False by simp
    from less.hyps [OF this r1'(1)] obtain r2 where r2: "write_buf ?c r1 = Some r2" "queued r1 ?c r2" "sends r1 ?c r2"
      by blast
    have "write_buf buf r = Some r2" using False r1 r1'(2) r2(1) by (simp add: write_buf.simps [of buf])
    moreover have "queued r (?b @ ?c) r2" "sends r (?b @ ?c) r2"
      using queued_trans [OF q1 r2(2)] sends.more [OF r1 r2(3)] by blast+
    ultimately show ?thesis by simp
  qed
qed

lemma write_bufs_ok:
  "safe r \<Longrightarrow> \<exists>r'. write_bufs bufs n r = Some (n + length (concat bufs), r') \<and> queued r (concat bufs) r' \<and> sends r (concat bufs) r'"
proof (induction bufs arbitrary: n r)
  case Nil
  then show ?case by (simp add: queued_nil sends.none)
next
  case (Cons buf bufs)
  obtain r1 where 1: "write_buf buf r = Some r1" "queued r buf r1" "sends r buf r1" using write_buf_ok [OF Cons.prems] by blast
  then have "safe r1" by (simp add: queued_def)
  from Cons.IH [OF this] obtain r2 where "write_bufs bufs (n + length buf) r1 = Some (n + length buf + length (concat bufs), r2)"
    "queued r1 (concat bufs) r2" "sends r1 (concat bufs) r2" by blast
  then show ?case using 1 queued_trans sends_trans by fastforce
qed

lemma queued_session:
  assumes "session_ok s" "queued (s_rudp s) bs r"
  shows "session_ok (s\<lparr>s_rudp := r\<rparr>)"
  using assms by (auto simp: session_ok_def queued_def)

lemma transmitted_start:
  "transmitted (s\<lparr>s_rudp := x\<rparr>) h r w s' h' \<longleftrightarrow> transmitted s h r w s' h'"
  by (simp add: transmitted_def same_settings_def)

text \<open>
  The locked region of a write that has room: the bytes are queued, and unless the write is
  delayed a flush follows.
\<close>

lemma Write_poll_total:
  assumes "session_ok s" "batches_ok h" "can_send (s_rudp s)"
  shows "\<exists>r s' h'. write_bufs bufs 0 (s_rudp s) = Some (length (concat bufs), r) \<and> queued (s_rudp s) (concat bufs) r \<and> sends (s_rudp s) (concat bufs) r \<and>
    Write_poll bufs now now' s h = Some (Done (length (concat bufs)), s', h') \<and> session_ok s' \<and> batches_ok h' \<and>
    (s' = s\<lparr>s_rudp := r\<rparr> \<and> h' = add_stat BytesSent_update (of_nat (length (concat bufs))) h \<or>
     (\<exists>v r2 w. flush False r (h_world h) = Some (v, r2, w) \<and> transmitted s h r2 w s' h'))"
proof -
  have "safe (s_rudp s)" using assms(1) by (simp add: session_ok_def)
  from write_bufs_ok [OF this, of bufs 0] obtain r where
    r: "write_bufs bufs 0 (s_rudp s) = Some (length (concat bufs), r)" "queued (s_rudp s) (concat bufs) r" "sends (s_rudp s) (concat bufs) r"
    by auto
  let ?s = "s\<lparr>s_rudp := r\<rparr>"
  have ok: "session_ok ?s" using queued_session [OF assms(1) r(2)] .
  let ?n = "of_nat (length (concat bufs)) :: u64"
  show ?thesis
  proof (cases "\<not> can_send r \<or> \<not> writeDelay s")
    case False
    then have "Write_poll bufs now now' s h = Some (Done (length (concat bufs)), ?s, add_stat BytesSent_update ?n h)"
      using assms(3) r(1) by (simp add: Write_poll_def)
    then show ?thesis using r ok assms(2) by auto
  next
    case True
    obtain v r2 w s' h' where f: "flush False r (h_world h) = Some (v, r2, w)"
      "do { (_, s, h) \<leftarrow> engine (flush False) ?s h; uncork s h } = Some (s', h')" "transmitted ?s h r2 w s' h'"
      using flush_uncork_total [OF ok assms(2)] by auto
    have "Write_poll bufs now now' s h = Some (Done (length (concat bufs)), s', add_stat BytesSent_update ?n h')"
      using assms(3) r(1) True f(2) by (auto simp: Write_poll_def bind_eq_Some_conv)
    moreover have "transmitted s h r2 w s' (add_stat BytesSent_update ?n h')" using f(3) by (simp add: transmitted_start transmitted_stat)
    moreover from this have "session_ok s'" "batches_ok (add_stat BytesSent_update ?n h')" by (simp_all only: transmitted_def)
    ultimately show ?thesis using r f(1) by blast
  qed
qed

section \<open>Reading\<close>

text \<open>
  A poll of \<^verbatim>\<open>Read\<close> that is done delivers bytes from \<^verbatim>\<open>bufPtr\<close>, or takes one message out of the
  engine and keeps in \<^verbatim>\<open>bufPtr\<close> what the caller's buffer has no room for.
\<close>

lemma peek_receive:
  assumes "0 < peekSize r" "int (length b) \<ge> peekSize r"
  shows "\<exists>msg r'. length msg = nat (peekSize r) \<and> Receive b r = Some (peekSize r, msg @ drop (nat (peekSize r)) b, r') \<and>
    fetch_bytes b r = Some (msg, r')"
proof -
  let ?msg = "concat (map seg_data (take (msg_len (rcvQueue r)) (rcvQueue r)))"
  have k: "peekSize r = int (peek_loop (rcvQueue r))" using assms(1) peekSize_nonneg [of r] by simp
  then have "length ?msg = nat (peekSize r)" by (simp flip: peek_loop_msg)
  moreover have "Receive b r = Some (peekSize r, ?msg @ drop (nat (peekSize r)) b, after_receive r)"
    using assms k by (simp add: Receive_eq del: peek_loop.simps msg_len.simps)
  moreover have "fetch_bytes b r = Some (?msg, after_receive r)" using assms by (simp add: fetch_bytes_eq)
  ultimately show ?thesis by blast
qed

lemma Read_poll_cases:
  obtains (rest) n b' where "s_bufPtr s \<noteq> []" "n = min (length b) (length (s_bufPtr s))" "length b' = length b"
      "take n b' @ drop n (s_bufPtr s) = s_bufPtr s"
      "Read_poll b now now' s h = Some (Done n, b', s\<lparr>s_bufPtr := drop n (s_bufPtr s)\<rparr>, add_stat BytesReceived_update (of_nat n) h)"
  | (message) n b' buf msg r rb bp where "s_bufPtr s = []" "0 < peekSize (s_rudp s)" "fetch_bytes buf (s_rudp s) = Some (msg, r)"
      "length msg = nat (peekSize (s_rudp s))" "n = min (length b) (length msg)" "length b' = length b" "take n b' @ bp = msg"
      "Read_poll b now now' s h = Some (Done n, b', s\<lparr>s_rudp := r, s_rcvBuf := rb, s_bufPtr := bp\<rparr>, add_stat BytesReceived_update (of_nat n) h)"
  | (empty) "s_bufPtr s = []" "peekSize (s_rudp s) \<le> 0" "Read_poll b now now' s h = Some (deadline_wait (readDdl s) now now', b, s, h)"
proof -
  consider "s_bufPtr s \<noteq> []" | "s_bufPtr s = []" "0 < peekSize (s_rudp s)" | "s_bufPtr s = []" "peekSize (s_rudp s) \<le> 0" by linarith
  then show ?thesis
  proof cases
    case 1
    let ?n = "min (length b) (length (s_bufPtr s))"
    show ?thesis
      by (rule rest [of ?n "copy_into b (s_bufPtr s)", OF 1]) (use 1 in \<open>auto simp: Read_poll_def copy_into_def Let_def\<close>)
  next
    case 2
    let ?sz = "nat (peekSize (s_rudp s))"
    show ?thesis
    proof (cases "length b \<ge> ?sz")
      case True
      obtain msg r where m: "length msg = ?sz" "Receive b (s_rudp s) = Some (peekSize (s_rudp s), msg @ drop ?sz b, r)"
        "fetch_bytes b (s_rudp s) = Some (msg, r)"
        using peek_receive [OF 2(2), of b] True 2(2) by (auto simp: nat_le_iff)
      have same: "s\<lparr>s_rudp := r\<rparr> = s\<lparr>s_rudp := r, s_rcvBuf := s_rcvBuf s, s_bufPtr := []\<rparr>" using 2(1) by simp
      have "Read_poll b now now' s h = Some (Done ?sz, msg @ drop ?sz b, s\<lparr>s_rudp := r\<rparr>, add_stat BytesReceived_update (of_nat ?sz) h)"
        using True 2 m(2) by (simp add: Read_poll_def Let_def)
      then have "Read_poll b now now' s h = Some (Done ?sz, msg @ drop ?sz b,
          s\<lparr>s_rudp := r, s_rcvBuf := s_rcvBuf s, s_bufPtr := []\<rparr>, add_stat BytesReceived_update (of_nat ?sz) h)"
        by (simp only: same [symmetric])
      from message [OF 2 m(3,1) _ _ _ this] show ?thesis using True m(1) by simp
    next
      case False
      let ?buf = "if length (s_rcvBuf s) < ?sz then replicate ?sz 0 else s_rcvBuf s"
      have "int (length (take ?sz ?buf)) = peekSize (s_rudp s)" using 2(2) by auto
      then obtain msg r where m: "length msg = ?sz" "Receive (take ?sz ?buf) (s_rudp s) = Some (peekSize (s_rudp s), msg, r)"
        "fetch_bytes (take ?sz ?buf) (s_rudp s) = Some (msg, r)"
        using peek_receive [OF 2(2), of "take ?sz ?buf"] by auto
      have n: "min (length b) (length msg) = length b" using False m(1) by simp
      show ?thesis
        by (rule message [of "take ?sz ?buf" msg r "length b" "copy_into b msg" "drop (length b) msg" "msg @ drop ?sz ?buf", OF 2 m(3,1)])
          (use False 2 m n in \<open>auto simp: Read_poll_def copy_into_def Let_def\<close>)
    qed
  next
    case 3
    then show ?thesis by (intro empty) (auto simp: Read_poll_def)
  qed
qed

section \<open>Histories of one session\<close>

text \<open>
  The calls of the user, the packets of the read loop, the timer, and the wake-ups of the
  \<^verbatim>\<open>select\<close> statements, each one locked region of the code.
\<close>

datatype sess_event =
    Ev_Read "u8 list" int int
  | Ev_Write select_case "u8 list list" int int
  | Ev_Packet "u8 list"
  | Ev_Update int
  | Ev_Close
  | Ev_Wake select_case
  | Ev_ReadError sock_error
  | Ev_Deadline "int option"
  | Ev_NoDelay int int int int
  | Ev_WriteDelay bool
  | Ev_WindowSize int int
  | Ev_Mtu int
  | Ev_StreamMode bool
  | Ev_ACKNoDelay bool

fun run_event :: "sess_event \<Rightarrow> UDPSession \<Rightarrow> host \<Rightarrow> (UDPSession \<times> host) option" where
  "run_event (Ev_Read b now now') s h = do { (_, _, s, h) \<leftarrow> Read_poll b now now' s h; Some (s, h) }"
| "run_event (Ev_Write pick bufs now now') s h = do { (_, s, h) \<leftarrow> WriteBuffers pick bufs now now' s h; Some (s, h) }"
| "run_event (Ev_Packet data) s h = packetInput data s h"
| "run_event (Ev_Update now) s h = update_sess now s h"
| "run_event Ev_Close s h = do { (_, s, h) \<leftarrow> sess_Close s h; Some (s, h) }"
| "run_event (Ev_Wake c) s h = Some (snd (read_select c s), h)"
| "run_event (Ev_ReadError e) s h = Some (notifyReadError e s, h)"
| "run_event (Ev_Deadline t) s h = Some (SetDeadline t s, h)"
| "run_event (Ev_NoDelay nd iv rs nc) s h = Some (SetNoDelay nd iv rs nc s, h)"
| "run_event (Ev_WriteDelay d) s h = Some (SetWriteDelay d s, h)"
| "run_event (Ev_WindowSize a b) s h = Some (SetWindowSize a b s, h)"
| "run_event (Ev_Mtu m) s h = Some (snd (sess_SetMtu m s), h)"
| "run_event (Ev_StreamMode b) s h = Some (SetStreamMode b s, h)"
| "run_event (Ev_ACKNoDelay b) s h = Some (SetACKNoDelay b s, h)"

text \<open>
  Events that can happen: a read gives at most \<^verbatim>\<open>mtuLimit\<close> bytes, a \<^verbatim>\<open>select\<close> takes a ready
  case, and, which the code does not check, a new MTU has room for every waiting segment.
\<close>

definition mtu_fits :: "int \<Rightarrow> UDPSession \<Rightarrow> bool" where
  "mtu_fits m s \<longleftrightarrow> int IRUDP_OVERHEAD + int (headerSize s) < m \<and>
     (\<forall>seg \<in> set (sndBuf (s_rudp s)) \<union> set (sndQueue (s_rudp s)).
        int IRUDP_OVERHEAD + int (headerSize s) + int (length (seg_data seg)) \<le> m)"

fun can_happen :: "sess_event \<Rightarrow> UDPSession \<Rightarrow> bool" where
  "can_happen (Ev_Packet data) s = (length data \<le> mtuLimit)"
| "can_happen (Ev_Write pick bufs now now') s =
    (socketWriteError s = None \<and> \<not> s_die s \<or> pick \<noteq> EventCase \<and> write_ready False s pick)"
| "can_happen (Ev_Mtu m) s = mtu_fits m s"
| "can_happen ev s = True"

text \<open>A history; events that cannot happen are left out.\<close>

fun run_events :: "sess_event list \<Rightarrow> UDPSession \<Rightarrow> host \<Rightarrow> (UDPSession \<times> host) option" where
  "run_events [] s h = Some (s, h)"
| "run_events (ev # evs) s h =
    (if can_happen ev s then do { (s, h) \<leftarrow> run_event ev s h; run_events evs s h } else run_events evs s h)"

lemma session_ok_cong:
  "session_ok s \<Longrightarrow> safe (s_rudp s') \<Longrightarrow> reserved (s_rudp s') = reserved (s_rudp s) \<Longrightarrow> mtu (s_rudp s') = mtu (s_rudp s) \<Longrightarrow>
   headerSize s' = headerSize s \<Longrightarrow> txqueue s' = txqueue s \<Longrightarrow> session_ok s'"
  by (simp add: session_ok_def)

lemma session_ok_safe: "session_ok s \<Longrightarrow> safe (s_rudp s)"
  by (simp add: session_ok_def)

lemma NoDelay_safe: "safe r \<Longrightarrow> safe (NoDelay nd iv rs nc r)"
  by (erule safe_cong) (simp_all add: NoDelay_frame)

lemma WndSize_safe: "safe r \<Longrightarrow> safe (snd (WndSize a b r))"
  by (erule safe_cong) (simp_all add: WndSize_frame)

lemma fetch_safe:
  assumes "safe r" "fetch_bytes buf r = Some (bs, r')"
  shows "safe r' \<and> reserved r' = reserved r \<and> mtu r' = mtu r"
proof -
  obtain n q f p where "r' = r\<lparr>rcvNxt := n, rcvQueue := q, rcvBuf := f, probe := p\<rparr>" using Receive_frame [OF assms(2)] by blast
  then show ?thesis using safe_cong [OF assms(1), of r'] by simp
qed

lemma SetMtu_session:
  assumes "session_ok s" "m \<le> int mtuLimit" "mtu_fits m s"
  shows "session_ok (s\<lparr>s_rudp := snd (SetMtu m (s_rudp s))\<rparr>)"
proof (cases "fst (SetMtu m (s_rudp s)) = 0")
  case False
  then have "snd (SetMtu m (s_rudp s)) = s_rudp s" by (auto simp: SetMtu_def Let_def split: if_splits)
  then show ?thesis using assms(1) by simp
next
  case True
  let ?r = "s_rudp s"
  have r: "sizes_ok ?r" "fits_mss ?r" "reserved ?r = int (headerSize s)" "txqueue s = []"
    using assms(1) by (simp_all add: session_ok_def safe_def)
  then have sz: "sizes_ok (snd (SetMtu m ?r))" using SetMtu_keeps_sizes [of ?r m] assms(2,3) by (simp add: mtu_fits_def)
  have fr: "mtu (snd (SetMtu m ?r)) = word_of_int m" "reserved (snd (SetMtu m ?r)) = reserved ?r"
    "sndBuf (snd (SetMtu m ?r)) = sndBuf ?r" "sndQueue (snd (SetMtu m ?r)) = sndQueue ?r"
    using True by (auto simp: SetMtu_def Let_def split: if_splits)
  have "unat (word_of_int m :: u32) = nat m"
    by (rule unat_of_int_small) (use assms(2,3) in \<open>auto simp: mtu_fits_def\<close>)
  then have m: "int (unat (mtu (snd (SetMtu m ?r)))) = m" using assms(3) by (simp add: fr mtu_fits_def)
  then have mss: "int (unat (mss (snd (SetMtu m ?r)))) = m - 24 - int (headerSize s)"
    using sz r(3) by (simp add: sizes_ok_def fr(2) del: of_nat_unat)
  have "length (seg_data seg) \<le> unat (mss (snd (SetMtu m ?r)))"
    if "seg \<in> set (sndBuf ?r) \<union> set (sndQueue ?r)" for seg
  proof -
    have "24 + int (headerSize s) + int (length (seg_data seg)) \<le> m" using that assms(3) by (auto simp: mtu_fits_def)
    then show ?thesis using mss by linarith
  qed
  then have "fits_mss (snd (SetMtu m ?r))" by (simp add: fits_mss_def fr)
  moreover have "unat (mtu (snd (SetMtu m ?r))) \<le> 1500" using m assms(2) by linarith
  ultimately show ?thesis using sz r by (simp add: session_ok_def safe_def fr)
qed

lemma Close_effect:
  assumes "session_ok s" "batches_ok h" "\<not> s_die s"
  shows "\<exists>c v r w s' h'. flush False (s_rudp s) (h_world (add_stat CurrEstab_update (NOT 0) h)) = Some (v, r, w) \<and>
    sess_Close s h = Some (c, s'\<lparr>s_rudp := ReleaseTX r\<rparr>, h') \<and>
    transmitted (s\<lparr>s_die := True\<rparr>) (add_stat CurrEstab_update (NOT 0) h) r w s' h' \<and> chReadEvent s' = chReadEvent s"
proof -
  let ?s = "s\<lparr>s_die := True\<rparr>" and ?h = "add_stat CurrEstab_update (NOT 0) h"
  have "session_ok ?s" "batches_ok ?h" using assms by (simp_all add: session_ok_def)
  from flush_uncork_total [OF this] obtain v r w s' h' where f: "flush False (s_rudp ?s) (h_world ?h) = Some (v, r, w)"
    and u: "do { (_, s, h) \<leftarrow> engine (flush False) ?s ?h; uncork s h } = Some (s', h')" and t: "transmitted ?s ?h r w s' h'"
    and ev: "chReadEvent s' = chReadEvent ?s" by blast
  have "s_rudp s' = r" using t unfolding transmitted_def by blast
  then obtain c where "sess_Close s h = Some (c, s'\<lparr>s_rudp := ReleaseTX r\<rparr>, h')"
    using u assms(3) by (auto simp: sess_Close_def Let_def bind_eq_Some_conv)
  moreover have "flush False (s_rudp s) (h_world ?h) = Some (v, r, w)" "chReadEvent s' = chReadEvent s"
    using f ev by simp_all
  ultimately show ?thesis using t by blast
qed

lemma Close_total:
  assumes "session_ok s" "batches_ok h"
  shows "\<exists>c s' h'. sess_Close s h = Some (c, s', h') \<and> session_ok s' \<and> batches_ok h' \<and> s_die s'"
proof (cases "s_die s")
  case True
  then show ?thesis using assms by (simp add: sess_Close_def)
next
  case False
  from Close_effect [OF assms False] obtain c r w s' h' where c: "sess_Close s h = Some (c, s'\<lparr>s_rudp := ReleaseTX r\<rparr>, h')"
    and t: "transmitted (s\<lparr>s_die := True\<rparr>) (add_stat CurrEstab_update (NOT 0) h) r w s' h'" by blast
  have "session_ok (s'\<lparr>s_rudp := ReleaseTX r\<rparr>)" "batches_ok h'" "s_die s'"
    using t by (auto simp: transmitted_def same_settings_def session_ok_def safe_def sizes_ok_def fits_mss_def ReleaseTX_def)
  then show ?thesis using c by auto
qed

lemma packetInput_total:
  assumes "session_ok s" "batches_ok h" "length data \<le> mtuLimit"
  shows "\<exists>s' h'. packetInput data s h = Some (s', h') \<and> session_ok s' \<and> batches_ok h'"
  using rudpInput_total [OF assms] assms(1,2) by (auto simp: packetInput_def transmitted_def)

lemma run_event_total:
  assumes "session_ok s" "batches_ok h" "can_happen ev s"
  shows "\<exists>s' h'. run_event ev s h = Some (s', h') \<and> session_ok s' \<and> batches_ok h'"
proof (cases ev)
  case (Ev_Read b now now')
  show ?thesis
  proof (cases rule: Read_poll_cases [of s b now now' h])
    case (rest n b')
    then show ?thesis using Ev_Read assms(1,2) session_ok_cong [OF assms(1), of "s\<lparr>s_bufPtr := drop n (s_bufPtr s)\<rparr>"]
      by (simp add: session_ok_safe)
  next
    case (message n b' buf msg r rb bp)
    have "session_ok (s\<lparr>s_rudp := r, s_rcvBuf := rb, s_bufPtr := bp\<rparr>)"
      using fetch_safe [OF session_ok_safe [OF assms(1)] message(3)] by (intro session_ok_cong [OF assms(1)]) simp_all
    then show ?thesis using Ev_Read message(8) assms(2) by simp
  next
    case empty
    then show ?thesis using Ev_Read assms by simp
  qed
next
  case (Ev_Write pick bufs now now')
  consider "socketWriteError s \<noteq> None \<or> s_die s" | "socketWriteError s = None" "\<not> s_die s" "can_send (s_rudp s)"
    | "socketWriteError s = None" "\<not> s_die s" "\<not> can_send (s_rudp s)" by blast
  then show ?thesis
  proof cases
    case 1
    then show ?thesis using Ev_Write assms by (cases pick) (auto simp: WriteBuffers_def write_select_def write_ready_def)
  next
    case 2
    then show ?thesis using Ev_Write Write_poll_total [OF assms(1,2) 2(3), of bufs now now'] by (auto simp: WriteBuffers_def)
  next
    case 3
    then show ?thesis using Ev_Write assms by (auto simp: WriteBuffers_def Write_poll_def)
  qed
next
  case (Ev_Packet data)
  then show ?thesis using packetInput_total [OF assms(1,2), of data] assms(3) by simp
next
  case (Ev_Update now)
  then show ?thesis
    using update_total [OF assms(1,2), of now] assms(1,2)
    by (cases "s_die s") (auto simp: update_sess_def transmitted_def batches_ok_def)
next
  case Ev_Close
  then show ?thesis using Close_total [OF assms(1,2)] by auto
next
  case (Ev_Wake c)
  have "session_ok (snd (read_select c s))"
    by (cases c) (use assms(1) in \<open>auto simp: read_select_def session_ok_def\<close>)
  then show ?thesis using Ev_Wake assms(2) by simp
next
  case (Ev_NoDelay nd iv rs nc)
  have "session_ok (SetNoDelay nd iv rs nc s)"
    by (rule session_ok_cong [OF assms(1)]) (simp_all add: SetNoDelay_def NoDelay_safe session_ok_safe [OF assms(1)] NoDelay_frame)
  then show ?thesis using Ev_NoDelay assms(2) by simp
next
  case (Ev_WindowSize a b)
  have "session_ok (SetWindowSize a b s)"
    by (rule session_ok_cong [OF assms(1)]) (simp_all add: SetWindowSize_def WndSize_safe session_ok_safe [OF assms(1)] WndSize_frame)
  then show ?thesis using Ev_WindowSize assms(2) by simp
next
  case (Ev_Mtu m)
  then show ?thesis using assms SetMtu_session [OF assms(1), of m] by (simp add: sess_SetMtu_def)
next
  case (Ev_StreamMode b)
  have "session_ok (SetStreamMode b s)"
    by (rule session_ok_cong [OF assms(1)]) (auto simp: SetStreamMode_def intro: safe_cong [OF session_ok_safe [OF assms(1)]])
  then show ?thesis using Ev_StreamMode assms(2) by simp
qed (use assms in \<open>auto simp: session_ok_def notifyReadError_def SetDeadline_def SetWriteDelay_def SetACKNoDelay_def
    notifyReadEvent_def notifyWriteEvent_def\<close>)

lemma run_events_total:
  "session_ok s \<Longrightarrow> batches_ok h \<Longrightarrow> \<exists>s' h'. run_events evs s h = Some (s', h') \<and> session_ok s' \<and> batches_ok h'"
proof (induction evs arbitrary: s h)
  case (Cons ev evs)
  show ?case
  proof (cases "can_happen ev s")
    case True
    then show ?thesis using run_event_total [OF Cons.prems] Cons.IH by fastforce
  next
    case False
    then show ?thesis using Cons by simp
  qed
qed simp

lemma session_ok_new:
  "session_ok (fst (newUDPSession conv block listener own raddr xconn now h))"
  "batches_ok (snd (newUDPSession conv block listener own raddr xconn now h)) \<longleftrightarrow> batches_ok h"
proof -
  let ?hs = "if block then 20 else 0 :: nat"
  have m: "mtu (NewRudp conv) = 1400" by (simp add: NewRudp_def zero_RUDP_def)
  have "sizes_ok (snd (ReserveBytes (int ?hs) (NewRudp conv)))"
    by (rule ReserveBytes_keeps_sizes [OF sizes_ok_NewRudp]) (simp add: m)
  moreover have "fits_mss (snd (ReserveBytes (int ?hs) (NewRudp conv)))"
    by (simp add: ReserveBytes_def fits_mss_def NewRudp_def zero_RUDP_def)
  moreover have "reserved (snd (ReserveBytes (int ?hs) (NewRudp conv))) = int ?hs" "mtu (snd (ReserveBytes (int ?hs) (NewRudp conv))) = 1400"
    by (simp_all add: ReserveBytes_def NewRudp_def zero_RUDP_def)
  ultimately show "session_ok (fst (newUDPSession conv block listener own raddr xconn now h))"
    by (cases block) (simp_all add: newUDPSession_def session_ok_def safe_def Let_def)
  show "batches_ok (snd (newUDPSession conv block listener own raddr xconn now h)) \<longleftrightarrow> batches_ok h"
    by (simp add: newUDPSession_def Let_def batches_ok_def add_stat_def)
qed

section \<open>Properties\<close>

text \<open>
  Claim C7. A session never panics and none of its calls runs for ever by itself: after any
  history of writes, reads, arbitrary packets, timer events, settings and \<^verbatim>\<open>Close\<close> the next
  one returns, provided the socket's batch writes make progress and \<^verbatim>\<open>SetMtu\<close> is not used to
  shrink the MTU below a waiting segment; and nothing is left in the transmission queue.
\<close>

theorem session_never_panics:
  assumes "batches_ok h"
  shows "case newUDPSession conv block listener own raddr xconn now h of (s, h) \<Rightarrow>
    \<exists>s' h'. run_events evs s h = Some (s', h') \<and> txqueue s' = [] \<and> sizes_ok (s_rudp s') \<and>
      reserved (s_rudp s') = int (headerSize s')"
proof -
  obtain s h1 where new: "newUDPSession conv block listener own raddr xconn now h = (s, h1)"
    by (cases "newUDPSession conv block listener own raddr xconn now h")
  then have "session_ok s" "batches_ok h1"
    using session_ok_new [of conv block listener own raddr xconn now h] assms by simp_all
  from run_events_total [OF this, of evs] show ?thesis
    unfolding new by (auto simp: session_ok_def safe_def)
qed

theorem session_never_panics_witness:
  "\<exists>s' h'. run_events [Ev_Write EventCase [[1, 2, 3]] 5 5, Ev_Packet [9], Ev_Update 7, Ev_Close]
      (fst (newUDPSession 7 False False True ''peer'' True 0 (demo_host (\<lambda>_ l. Inr l))))
      (snd (newUDPSession 7 False False True ''peer'' True 0 (demo_host (\<lambda>_ l. Inr l)))) = Some (s', h') \<and> txqueue s' = []"
proof -
  have "batches_ok (demo_host (\<lambda>_ l. Inr l))" by (simp add: batches_ok_def demo_host_def)
  from session_never_panics [OF this, where conv = 7 and block = False and listener = False and own = True and
      raddr = "''peer''" and xconn = True and now = 0 and
      evs = "[Ev_Write EventCase [[1, 2, 3]] 5 5, Ev_Packet [9], Ev_Update 7, Ev_Close]"]
  show ?thesis by (auto split: prod.splits simp del: run_events.simps)
qed

text \<open>
  Claim C21. A write with room is accepted whole: it reports the sum of the lengths and the
  bytes of all buffers are in order at the end of the engine's queue before the flush, for any
  buffer sizes and in both modes.
\<close>

theorem write_accepts_all_bytes:
  assumes "session_ok s" and "batches_ok h" and "can_send (s_rudp s)" and "socketWriteError s = None" and "\<not> s_die s"
  shows "\<exists>n r s' h'. WriteBuffers pick bufs now now' s h = Some (Done n, s', h') \<and> n = length (concat bufs) \<and>
    write_bufs bufs 0 (s_rudp s) = Some (n, r) \<and>
    queue_bytes (sndQueue r) = queue_bytes (sndQueue (s_rudp s)) @ concat bufs \<and> sndBuf r = sndBuf (s_rudp s) \<and>
    (s_rudp s' = r \<or> (\<exists>v w. flush False r (h_world h) = Some (v, s_rudp s', w)))"
proof -
  obtain r s' h' where p: "Write_poll bufs now now' s h = Some (Done (length (concat bufs)), s', h')"
    "write_bufs bufs 0 (s_rudp s) = Some (length (concat bufs), r)" "queued (s_rudp s) (concat bufs) r"
    "s' = s\<lparr>s_rudp := r\<rparr> \<or> (\<exists>v r2 w. flush False r (h_world h) = Some (v, r2, w) \<and> transmitted s h r2 w s' h')"
    using Write_poll_total [OF assms(1-3)] by metis
  have "WriteBuffers pick bufs now now' s h = Some (Done (length (concat bufs)), s', h')"
    using p(1) assms(4,5) by (simp add: WriteBuffers_def)
  moreover have "s_rudp s' = r \<or> (\<exists>v w. flush False r (h_world h) = Some (v, s_rudp s', w))"
    using p(4) by (auto simp: transmitted_def)
  ultimately show ?thesis using p(2,3) by (auto simp: queued_def)
qed

theorem write_accepts_all_bytes_witness:
  "\<exists>n r s' h'. WriteBuffers EventCase [[1, 2], [], [3]] 5 5 demo_session (demo_host (\<lambda>_ l. Inr l)) = Some (Done n, s', h') \<and>
     n = 3 \<and> queue_bytes (sndQueue r) = [1, 2, 3] \<and> (s_rudp s' = r \<or> (\<exists>v w. flush False r (new_world []) = Some (v, s_rudp s', w)))"
proof -
  note sizes = sizes_ok_NewRudp [of 7]
  have "fits_mss (NewRudp 7)" "mtu (NewRudp 7) = 1400" "reserved (NewRudp 7) = 0"
    "can_send (NewRudp 7)" "sndQueue (NewRudp 7) = []"
    by (simp_all add: fits_mss_def can_send_def WaitSnd_def NewRudp_def zero_RUDP_def)
  with sizes have ok: "session_ok demo_session" and room: "can_send (s_rudp demo_session)"
    and empty: "sndQueue (s_rudp demo_session) = []"
    by (simp_all add: session_ok_def safe_def demo_session_def)
  have b: "batches_ok (demo_host (\<lambda>_ l. Inr l))" and w: "h_world (demo_host (\<lambda>_ l. Inr l)) = new_world []"
    by (simp_all add: batches_ok_def demo_host_def)
  have d: "socketWriteError demo_session = None" "\<not> s_die demo_session" by (simp_all add: demo_session_def)
  show ?thesis
    using write_accepts_all_bytes [OF ok b room d, of EventCase "[[1, 2], [], [3]]" 5 5]
    unfolding empty w queue_bytes_simps by (simp add: numeral_3_eq_3) blast
qed

end
