(* ===== verification/Acked.thy ===== *)
theory Acked
  imports Network
begin

text \<open>
  What an acknowledgement is worth. A number is \<open>received\<close> by an end when it has been
  delivered to the queue in sequence or waits in the reorder buffer; nothing an end does takes
  a number out of that set. Every packet an end has ever sent acknowledges only numbers it has
  received, so a segment the other end drops from \<^verbatim>\<open>sndBuf\<close>, or marks as acknowledged, has
  arrived: no byte leaves the sender before the receiver has it.
\<close>

section \<open>Received numbers\<close>

definition received :: "RUDP \<Rightarrow> u32 \<Rightarrow> bool" where
  "received r n \<longleftrightarrow> n < rcvNxt r \<or> n \<in> seg_sn ` set (rcvBuf r)"

definition knows_more :: "RUDP \<Rightarrow> RUDP \<Rightarrow> bool" where
  "knows_more r r' \<longleftrightarrow> rcvNxt r \<le> rcvNxt r' \<and> (\<forall>n. received r n \<longrightarrow> received r' n)"

lemma knows_more_same: "rcvNxt r' = rcvNxt r \<Longrightarrow> rcvBuf r' = rcvBuf r \<Longrightarrow> knows_more r r'"
  by (simp add: knows_more_def received_def)

lemma knows_more_trans: "knows_more r r' \<Longrightarrow> knows_more r' r'' \<Longrightarrow> knows_more r r''"
  by (auto simp: knows_more_def)

lemma knows_moreD: "knows_more r r' \<Longrightarrow> received r n \<Longrightarrow> received r' n"
  by (simp add: knows_more_def)

lemma knows_more_move:
  assumes "rcv_inv src r"
  shows "knows_more r (move_to_queue r)"
proof -
  obtain k where k: "k \<le> length (rcvBuf r)"
      "move_to_queue r = r\<lparr>rcvNxt := rcvNxt r + word_of_nat k,
         rcvQueue := rcvQueue r @ take k (rcvBuf r), rcvBuf := drop k (rcvBuf r)\<rparr>"
      "unat (rcvNxt r + word_of_nat k) = unat (rcvNxt r) + k"
      "\<forall>i < k. unat (seg_sn (rcvBuf r ! i)) = unat (rcvNxt r) + i"
    using move_to_queue_inv [OF assms] by metis
  have up: "rcvNxt r \<le> rcvNxt r + word_of_nat k" using k(3) by (simp add: word_le_nat_alt)
  have "seg_sn s < rcvNxt r + word_of_nat k \<or> s \<in> set (drop k (rcvBuf r))" if mem: "s \<in> set (rcvBuf r)" for s
  proof -
    from mem obtain i where i: "i < length (rcvBuf r)" "s = rcvBuf r ! i" by (auto simp: in_set_conv_nth)
    show ?thesis
    proof (cases "i < k")
      case True
      then show ?thesis using k(3,4) i by (simp add: word_less_nat_alt)
    next
      case False
      then have "s = drop k (rcvBuf r) ! (i - k)" "i - k < length (drop k (rcvBuf r))" using i by simp_all
      then show ?thesis using nth_mem by metis
    qed
  qed
  then show ?thesis
    using up unfolding k(2) by (auto simp: knows_more_def received_def intro: less_le_trans)
qed

lemma received_parseData:
  assumes "rcv_inv src r" and "pay seg = src (unat (seg_sn seg))" and "parseData seg r = Some (b, r')"
  shows "knows_more r r'" and "in_window (seg_sn seg) r \<Longrightarrow> received r' (seg_sn seg)"
proof -
  let ?r = "r\<lparr>rcvBuf := rcv_insert seg (rcvBuf r)\<rparr>"
  have "sorted_wrt (<) (map seg_sn (rcvBuf r))" using assms(1) by (simp add: rcv_inv_def)
  from parseData_eq [OF this, of seg] assms(3)
  have out: "\<not> in_window (seg_sn seg) r \<Longrightarrow> r' = r" and r': "in_window (seg_sn seg) r \<Longrightarrow> r' = move_to_queue ?r"
    by (simp_all split: if_splits)
  have more: "knows_more ?r (move_to_queue ?r)" if "in_window (seg_sn seg) r"
    using rcv_inv_insert [OF assms(1) that assms(2)] by (rule knows_more_move)
  have first: "knows_more r ?r" by (auto simp: knows_more_def received_def set_rcv_insert)
  show "knows_more r r'"
  proof (cases "in_window (seg_sn seg) r")
    case True
    show ?thesis unfolding r' [OF True] by (rule knows_more_trans [OF first more [OF True]])
  next
    case False
    show ?thesis unfolding out [OF False] by (simp add: knows_more_same)
  qed
  show "received r' (seg_sn seg)" if win: "in_window (seg_sn seg) r"
  proof -
    have "received ?r (seg_sn seg)" by (auto simp: received_def set_rcv_insert)
    then show ?thesis using knows_moreD [OF more [OF win]] unfolding r' [OF win] by simp
  qed
qed

lemma knows_more_fetch:
  assumes "rcv_inv src r" "fetch_bytes buffer r = Some (bs, r')"
  shows "knows_more r r'"
proof (cases "peekSize r < 0 \<or> int (length buffer) < peekSize r")
  case True
  then show ?thesis using assms(2) by (simp add: fetch_bytes_eq knows_more_same)
next
  case False
  let ?r = "r\<lparr>rcvQueue := drop (msg_len (rcvQueue r)) (rcvQueue r)\<rparr>"
  have "knows_more ?r (move_to_queue ?r)" by (rule knows_more_move [OF rcv_inv_dequeue [OF assms(1)]])
  moreover have "r' = after_receive r" using False assms(2) by (simp add: fetch_bytes_eq)
  ultimately show ?thesis
    by (simp add: after_receive_def Let_def knows_more_def received_def)
qed

lemma input_push_frame:
  assumes "input_push regular conv h body r w = Some (r', w')"
  obtains l n q b where "r' = r\<lparr>ackList := l, rcvNxt := n, rcvQueue := q, rcvBuf := b\<rparr>" "packets w' = packets w"
proof -
  have w: "packets w' = packets w" using assms by (auto simp: input_push_def bind_eq_Some_conv)
  let ?r = "pushAck (hd_sn h) (hd_ts h) r"
  consider "r' = r" | "r' = ?r" | b where "parseData (push_segment conv h body) ?r = Some (b, r')"
    using assms by (auto simp: input_push_def bind_eq_Some_conv Let_def split: if_splits)
  then show thesis
  proof cases
    case 1
    then show thesis using that [where l = "ackList r" and n = "rcvNxt r" and q = "rcvQueue r" and b = "rcvBuf r"] w by simp
  next
    case 2
    then show thesis using that [where l = "ackList ?r" and n = "rcvNxt r" and q = "rcvQueue r" and b = "rcvBuf r"] w by (simp add: pushAck_def)
  next
    case 3
    then obtain n q f where "r' = ?r\<lparr>rcvNxt := n, rcvQueue := q, rcvBuf := f\<rparr>" using parseData_frame by blast
    then show thesis using that [where l = "ackList ?r" and n = n and q = q and b = f] w by (simp add: pushAck_def)
  qed
qed

text \<open>A PUSH that is acknowledged has been received.\<close>

lemma received_input_push:
  assumes inv: "rcv_inv src r" and src: "(hd_frg h, body) = src (unat (hd_sn h))"
    and run: "input_push regular conv h body r w = Some (r', w')"
  shows "knows_more r r'" "\<forall>a \<in> set (ackList r'). a \<in> set (ackList r) \<or> received r' (ack_sn a)"
    "in_window (hd_sn h) r \<Longrightarrow> received r' (hd_sn h)"
proof -
  let ?r = "pushAck (hd_sn h) (hd_ts h) r" and ?s = "push_segment conv h body"
  have s: "seg_sn ?s = hd_sn h" "pay ?s = src (unat (seg_sn ?s))" using src by (simp_all add: push_segment_def pay_def)
  have same: "rcv_inv src ?r" "knows_more r ?r" using inv by (simp_all add: pushAck_def rcv_inv_def knows_more_same)
  have acks: "set (ackList ?r) = insert \<lparr>ack_sn = hd_sn h, ack_ts = hd_ts h\<rparr> (set (ackList r))" by (simp add: pushAck_def)
  have "knows_more r r' \<and> (\<forall>a \<in> set (ackList r'). a \<in> set (ackList r) \<or> received r' (ack_sn a)) \<and>
    (in_window (hd_sn h) r \<longrightarrow> received r' (hd_sn h))"
  proof (cases "hd_sn h < rcvNxt r + rcvWnd r")
    case False
    then have "r' = r" using run by (simp add: input_push_def)
    then show ?thesis using False by (simp add: knows_more_same)
  next
    case True
    have "knows_more r r' \<and> received r' (hd_sn h) \<and> ackList r' = ackList ?r"
    proof (cases "rcvNxt r \<le> hd_sn h")
      case in_: True
      then obtain b where b: "parseData ?s ?r = Some (b, r')"
        using run True by (auto simp: input_push_def bind_eq_Some_conv Let_def pushAck_def)
      have "ackList r' = ackList ?r" using parseData_frame [OF b] by auto
      moreover have "in_window (seg_sn ?s) ?r" using True in_ s(1) by (simp add: pushAck_def)
      ultimately show ?thesis
        using received_parseData [OF same(1) s(2) b] s(1) knows_more_trans [OF same(2)] by simp
    next
      case False
      then have "r' = ?r" using run True by (simp add: input_push_def Let_def pushAck_def)
      then show ?thesis using False same(2) by (simp add: received_def pushAck_def not_le)
    qed
    then show ?thesis using acks by auto
  qed
  then show "knows_more r r'" "\<forall>a \<in> set (ackList r'). a \<in> set (ackList r) \<or> received r' (ack_sn a)"
    "in_window (hd_sn h) r \<Longrightarrow> received r' (hd_sn h)" by blast+
qed

section \<open>What an end acknowledges, it has received\<close>

definition ack_packet :: "u32 \<Rightarrow> RUDP \<Rightarrow> u8 list \<Rightarrow> bool" where
  "ack_packet c r p \<longleftrightarrow> (\<forall>(h, body) \<in> set (snd (parse_packet c p)).
     hd_una h \<le> rcvNxt r \<and> (hd_cmd h = IRUDP_CMD_ACK \<longrightarrow> received r (hd_sn h)))"

definition acks_sound :: "u32 \<Rightarrow> RUDP \<Rightarrow> world \<Rightarrow> bool" where
  "acks_sound c r w \<longleftrightarrow> reserved r = 0 \<and> rudp_conv r = c \<and>
     (\<forall>s \<in> set (sndBuf r). seg_conv s = c \<and> seg_cmd s = IRUDP_CMD_PUSH) \<and>
     (\<forall>a \<in> set (ackList r). received r (ack_sn a)) \<and> (\<forall>p \<in> set (packets w). ack_packet c r p)"

lemma ack_packet_mono: "knows_more r r' \<Longrightarrow> ack_packet c r p \<Longrightarrow> ack_packet c r' p"
  by (fastforce simp: ack_packet_def knows_more_def intro: order_trans)

lemma ack_packet_wires:
  assumes "\<forall>s \<in> set es. sendable c s \<and> seg_una s \<le> rcvNxt r \<and> (seg_cmd s = IRUDP_CMD_ACK \<longrightarrow> received r (seg_sn s))"
  shows "ack_packet c r (wires es)"
proof -
  have "parse_packet c (wires es) = (0, map (\<lambda>s. (header_of s, seg_data s)) es)"
    using assms by (simp add: parse_wires)
  then show ?thesis using assms by (auto simp: ack_packet_def header_of_def)
qed

lemma acks_sound_cong:
  assumes "acks_sound c r w" and "knows_more r r'" and "reserved r' = reserved r" and "rudp_conv r' = rudp_conv r"
    and "\<And>s. s \<in> set (sndBuf r') \<Longrightarrow> \<exists>t \<in> set (sndBuf r). seg_conv s = seg_conv t \<and> seg_cmd s = seg_cmd t"
    and "\<And>a. a \<in> set (ackList r') \<Longrightarrow> a \<in> set (ackList r) \<or> received r' (ack_sn a)"
    and "packets w' = packets w"
  shows "acks_sound c r' w'"
proof -
  have "seg_conv s = c \<and> seg_cmd s = IRUDP_CMD_PUSH" if "s \<in> set (sndBuf r')" for s
    using assms(1) assms(5) [OF that] by (auto simp: acks_sound_def)
  moreover have "received r' (ack_sn a)" if "a \<in> set (ackList r')" for a
    using assms(1) assms(6) [OF that] knows_moreD [OF assms(2)] by (auto simp: acks_sound_def)
  ultimately show ?thesis
    using assms(1,3,4,7) ack_packet_mono [OF assms(2)] by (simp add: acks_sound_def)
qed

text \<open>The packets of a \<^verbatim>\<open>flush\<close> carry \<^verbatim>\<open>una\<close> = \<^verbatim>\<open>rcvNxt\<close> and acknowledge what is in \<^verbatim>\<open>ackList\<close>.\<close>

abbreviation ack_seg :: "u32 \<Rightarrow> RUDP \<Rightarrow> segment \<Rightarrow> bool" where
  "ack_seg c r s \<equiv> sendable c s \<and> seg_una s \<le> rcvNxt r \<and> (seg_cmd s = IRUDP_CMD_ACK \<longrightarrow> received r (seg_sn s))"

lemma acks_sound_ack_segs:
  assumes "acks_sound c r w" and "received r' = received r" "rcvNxt r' = rcvNxt r"
  shows "\<forall>s \<in> set (ack_segs r (ack_template r) (ackList r)). ack_seg c r' s"
proof
  fix s assume "s \<in> set (ack_segs r (ack_template r) (ackList r))"
  then obtain a where "a \<in> set (ackList r)" "s = (ack_template r)\<lparr>seg_sn := ack_sn a, seg_ts := ack_ts a\<rparr>"
    using ack_segs_template by blast
  then show "ack_seg c r' s"
    using assms by (simp add: acks_sound_def ack_template_def zero_segment_def sendable_def legal_cmd_def)
qed

lemma flushed_bufs:
  assumes "\<forall>s \<in> set (sndBuf r). seg_conv s = c \<and> seg_cmd s = IRUDP_CMD_PUSH" and "rudp_conv r = c"
    and "flush_data_post r r' pushes"
  shows "\<forall>s \<in> set (sndBuf r'). seg_conv s = c \<and> seg_cmd s = IRUDP_CMD_PUSH"
proof
  fix s assume mem: "s \<in> set (sndBuf r')"
  define new where "new = admit_segs c (sndNxt r) (take (admitted (send_window r) r) (sndQueue r))"
  have keys: "map seg_key (sndBuf r') = map seg_key (sndBuf r @ new)"
    using post_keys [OF assms(3)] assms(2) by (simp add: Let_def new_def)
  have "seg_key s \<in> set (map seg_key (sndBuf r @ new))" unfolding keys [symmetric] using mem by simp
  then obtain t where t: "t \<in> set (sndBuf r) \<or> t \<in> set new" "seg_key s = seg_key t" by auto
  from t(1) have "seg_conv t = c \<and> seg_cmd t = IRUDP_CMD_PUSH"
    using assms(1) by (auto simp: new_def dest: set_admit_segs)
  then show "seg_conv s = c \<and> seg_cmd s = IRUDP_CMD_PUSH" using t(2) by (simp add: seg_key_simps)
qed

text \<open>
  What a full \<^verbatim>\<open>flush\<close> says about windows: every segment announces the receive window, and the
  two probes are among them when they are due.
\<close>

definition probes_post :: "RUDP \<Rightarrow> world \<Rightarrow> RUDP \<Rightarrow> segment list \<Rightarrow> bool" where
  "probes_post r w r' ss \<longleftrightarrow> (\<forall>s \<in> set ss. seg_wnd s = unusedWnd r) \<and>
     (probe r AND IRUDP_ASK_TELL \<noteq> 0 \<longrightarrow> IRUDP_CMD_WINS \<in> seg_cmd ` set ss) \<and>
     (probe (fst (probe_timer r w)) AND IRUDP_ASK_SEND \<noteq> 0 \<longrightarrow> IRUDP_CMD_WASK \<in> seg_cmd ` set ss) \<and>
     probeWait r' = probeWait (fst (probe_timer r w)) \<and> tsProbe r' = tsProbe (fst (probe_timer r w))"

lemma flush_segs:
  assumes inv: "acks_sound c r w" and ok: "sender_ok r" and run: "flush ackOnly r w = Some (v, r', w')"
  obtains gs pushes where "packets w' = packets w @ map (frame_packet []) gs" "\<forall>s \<in> set (concat gs). ack_seg c r' s"
    "\<forall>g \<in> set gs. length (frame_packet [] g) \<le> unat (mtu r)"
    "\<forall>s \<in> set (sndBuf r'). seg_conv s = c \<and> seg_cmd s = IRUDP_CMD_PUSH" "ackList r' = []"
    "\<not> ackOnly \<Longrightarrow> flush_data_post r r' pushes \<and> set pushes \<subseteq> set (concat gs) \<and> probes_post r w r' (concat gs)"
proof -
  have res: "reserved_bytes r = []" and conv: "rudp_conv r = c"
    and old: "\<forall>s \<in> set (sndBuf r). seg_conv s = c \<and> seg_cmd s = IRUDP_CMD_PUSH"
    using inv by (simp_all add: acks_sound_def reserved_bytes_def)
  have so: "sizes_ok r" "fits_mss r" using ok by (simp_all add: sender_ok_def)
  have same: "rcvNxt r' = rcvNxt r" "rcvBuf r' = rcvBuf r" using flush_keeps [OF so run] by (simp_all add: flush_frame_def)
  have "received r' = received r" by (rule ext) (simp add: received_def same)
  note acks = acks_sound_ack_segs [OF inv this same(1)]
  show thesis
  proof (cases ackOnly)
    case True
    obtain r1 w1 gs where 1: "flush True r w = Some (interval r, r1, w1)"
        "packets w1 = packets w @ map (frame_packet []) gs" "concat gs = ack_segs r (ack_template r) (ackList r)"
        "r1 = r\<lparr>ackList := [], rudp_buffer := rudp_buffer r1\<rparr>"
        "\<forall>g \<in> set gs. length (frame_packet [] g) \<le> unat (mtu r)"
      using flush_ack_only [OF so(1), of w] unfolding res by blast
    then obtain b where "r' = r\<lparr>ackList := [], rudp_buffer := b\<rparr>" "w' = w1" using True run by auto
    then show thesis using that [of gs] 1(2,5) acks old True unfolding 1(3) [symmetric] by simp
  next
    case False
    obtain v1 r1 w1 gs probes pushes where 1: "flush False r w = Some (v1, r1, w1)"
        "packets w1 = packets w @ map (frame_packet []) gs"
        "concat gs = ack_segs r (ack_template r) (ackList r) @ probes @ pushes"
        "\<forall>s \<in> set probes. seg_cmd s \<in> {IRUDP_CMD_WASK, IRUDP_CMD_WINS} \<and> seg_conv s = rudp_conv r \<and>
          seg_una s = rcvNxt r \<and> seg_wnd s = unusedWnd r \<and> seg_data s = []"
        "flush_data_post r r1 pushes" "ackList r1 = []"
        "\<forall>g \<in> set gs. length (frame_packet [] g) \<le> unat (mtu r)"
        "probe r AND IRUDP_ASK_TELL \<noteq> 0 \<longrightarrow> IRUDP_CMD_WINS \<in> seg_cmd ` set probes"
        "probe (fst (probe_timer r w)) AND IRUDP_ASK_SEND \<noteq> 0 \<longrightarrow> IRUDP_CMD_WASK \<in> seg_cmd ` set probes"
        "probeWait r1 = probeWait (fst (probe_timer r w))" "tsProbe r1 = tsProbe (fst (probe_timer r w))"
      using flush_full_probes [OF so, of w] unfolding res by blast
    then have eq: "r' = r1" "w' = w1" using False run by simp_all
    have so': "sizes_ok r'" "fits_mss r'" using flush_keeps [OF so run] by simp_all
    note bufs = flushed_bufs [OF old conv 1(5) [folded eq]]
    have probes: "ack_seg c r' s" if "s \<in> set probes" for s
      using 1(4) that conv by (auto simp: sendable_def legal_cmd_def same)
    have pushes: "ack_seg c r' s" if mem: "s \<in> set pushes" for s
    proof -
      have s: "s \<in> set (sndBuf r')" "seg_una s = rcvNxt r"
        using 1(5) [folded eq] mem by (auto simp: flush_data_post_def Let_def)
      then show ?thesis using bufs fits_mss_mtuLimit [OF so' s(1)] by (simp add: sendable_def legal_cmd_def same)
    qed
    have "\<forall>s \<in> set (concat gs). ack_seg c r' s" unfolding 1(3) using acks probes pushes by auto
    moreover have "seg_wnd s = unusedWnd r" if "s \<in> set (concat gs)" for s
      using that 1(4,5) unfolding 1(3)
      by (auto simp: flush_data_post_def Let_def ack_template_def zero_segment_def dest!: ack_segs_template)
    then have "probes_post r w r1 (concat gs)" using 1(3,8-11) by (auto simp: probes_post_def)
    ultimately show thesis using that [of gs pushes] 1(2,3,5,6,7) bufs eq by auto
  qed
qed

lemma acks_sound_flush:
  assumes inv: "acks_sound c r w" and ok: "sender_ok r" and run: "flush ackOnly r w = Some (v, r', w')"
  shows "acks_sound c r' w'"
proof -
  obtain gs where gs: "packets w' = packets w @ map (frame_packet []) gs" "\<forall>s \<in> set (concat gs). ack_seg c r' s"
    and bufs: "\<forall>s \<in> set (sndBuf r'). seg_conv s = c \<and> seg_cmd s = IRUDP_CMD_PUSH" and none: "ackList r' = []"
    by (rule flush_segs [OF assms])
  have "flush_frame r r'" using flush_keeps [OF _ _ run] ok by (simp add: sender_ok_def)
  then have same: "rcvNxt r' = rcvNxt r" "rcvBuf r' = rcvBuf r" "reserved r' = 0" "rudp_conv r' = c"
    using inv by (simp_all add: flush_frame_def acks_sound_def)
  have "ack_packet c r' (frame_packet [] g)" if "g \<in> set gs" for g
    using ack_packet_wires [of g c r'] gs(2) that by (simp add: frame_packet_def)
  moreover have "ack_packet c r' p" if "p \<in> set (packets w)" for p
    using inv that knows_more_same [OF same(1,2)] by (auto simp: acks_sound_def intro: ack_packet_mono)
  ultimately show ?thesis
    unfolding acks_sound_def using gs(1) bufs none same(3,4) by auto
qed

lemma parse_acks_cases:
  assumes "s \<in> set (sndBuf (parseFastAck sn ts (parseAck sn r)))"
  shows "\<exists>t \<in> set (sndBuf r). seg_conv s = seg_conv t \<and> seg_cmd s = seg_cmd t \<and> seg_sn s = seg_sn t \<and>
    (seg_acked s = 1 \<longrightarrow> seg_acked t = 1 \<or> sn = seg_sn t)"
proof -
  have ack: "\<exists>u \<in> set q. t = u \<or> t = delSegment (u\<lparr>seg_acked := 1\<rparr>) \<and> sn = seg_sn u" if "t \<in> set (ack_loop sn q)" for t q
    using that by (induction q) (auto split: if_splits)
  define r1 where "r1 = parseAck sn r"
  obtain t where t: "t \<in> set (sndBuf r1)" "s = t \<or> s = t\<lparr>seg_fastack := seg_fastack t + 1\<rparr>"
  proof (cases "sn < sndUna r1 \<or> sn \<ge> sndNxt r1")
    case True
    then show thesis using assms that by (simp add: parseFastAck_def flip: r1_def)
  next
    case False
    then have "s \<in> set (fastack_loop sn ts (sndBuf r1))" using assms by (simp add: parseFastAck_def flip: r1_def)
    then show thesis using set_fastack_loop_cases that by blast
  qed
  have "t \<in> set (sndBuf r) \<or> t \<in> set (ack_loop sn (sndBuf r))"
    using t(1) by (simp add: r1_def parseAck_def split: if_splits)
  then obtain u where "u \<in> set (sndBuf r)" "t = u \<or> t = delSegment (u\<lparr>seg_acked := 1\<rparr>) \<and> sn = seg_sn u"
    using ack by blast
  then show ?thesis using t(2) by (intro bexI [of _ u]) (auto simp: delSegment_def)
qed

text \<open>Both facts about a call that started in \<open>r0\<close>: its acknowledgements are sound, and nothing received is forgotten.\<close>

definition acks_from :: "u32 \<Rightarrow> RUDP \<Rightarrow> RUDP \<Rightarrow> world \<Rightarrow> bool" where
  "acks_from c r0 r w \<longleftrightarrow> acks_sound c r w \<and> knows_more r0 r"

lemma acks_from_cong:
  assumes "acks_from c r0 r w" and "knows_more r r'" and "reserved r' = reserved r" and "rudp_conv r' = rudp_conv r"
    and "\<And>s. s \<in> set (sndBuf r') \<Longrightarrow> \<exists>t \<in> set (sndBuf r). seg_conv s = seg_conv t \<and> seg_cmd s = seg_cmd t"
    and "\<And>a. a \<in> set (ackList r') \<Longrightarrow> a \<in> set (ackList r) \<or> received r' (ack_sn a)"
    and "packets w' = packets w"
  shows "acks_from c r0 r' w'"
proof -
  have "acks_sound c r w" "knows_more r0 r" using assms(1) by (simp_all add: acks_from_def)
  then show ?thesis
    using acks_sound_cong [OF _ assms(2-7)] knows_more_trans [OF _ assms(2)] by (simp add: acks_from_def)
qed

lemma acks_from_flush:
  assumes inv: "acks_from c r0 r w" and ok: "sender_ok r" and run: "flush ackOnly r w = Some (v, r', w')"
  shows "acks_from c r0 r' w'"
proof -
  have "flush_frame r r'" using flush_keeps [OF _ _ run] ok by (simp add: sender_ok_def)
  then have "knows_more r r'" by (intro knows_more_same) (simp_all add: flush_frame_def)
  then show ?thesis
    using inv acks_sound_flush [OF _ ok run] knows_more_trans unfolding acks_from_def by blast
qed

interpretation acking: header_input "\<lambda>r w. link_in src N got r \<and> acks_from c r0 r w"
  "\<lambda>h body. hd_cmd h = IRUDP_CMD_PUSH \<longrightarrow> (hd_frg h, body) = src (unat (hd_sn h)) \<and> unat (hd_sn h) < N" for src N got c r0
proof
  fix r r' :: RUDP and w w' x y and h :: header and body regular conv upd n rtt old ackOnly v
  have same: "acks_from c r0 r' w'" if "acks_from c r0 r w" "rcvNxt r' = rcvNxt r" "rcvBuf r' = rcvBuf r" "reserved r' = reserved r"
    "rudp_conv r' = rudp_conv r" "ackList r' = ackList r" "packets w' = packets w"
    "\<And>s. s \<in> set (sndBuf r') \<Longrightarrow> \<exists>t \<in> set (sndBuf r). seg_conv s = seg_conv t \<and> seg_cmd s = seg_cmd t" for r r' w w'
    by (rule acks_from_cong [OF that(1) knows_more_same]) (use that in simp_all)
  show "link_in src N got (r\<lparr>rmtWnd := x\<rparr>) \<and> acks_from c r0 (r\<lparr>rmtWnd := x\<rparr>) w"
    if inv: "link_in src N got r \<and> acks_from c r0 r w"
  proof -
    have "acks_from c r0 (r\<lparr>rmtWnd := x\<rparr>) w" by (rule same [where r = r and w = w]) (use inv in auto)
    then show ?thesis using receiving.keep_wnd inv by blast
  qed
  show "link_in src N got (r\<lparr>probe := y\<rparr>) \<and> acks_from c r0 (r\<lparr>probe := y\<rparr>) w"
    if inv: "link_in src N got r \<and> acks_from c r0 r w"
  proof -
    have "acks_from c r0 (r\<lparr>probe := y\<rparr>) w" by (rule same [where r = r and w = w]) (use inv in auto)
    then show ?thesis using receiving.keep_ask inv by blast
  qed
  show "link_in src N got (ack_una (hd_una h) r) \<and> acks_from c r0 (ack_una (hd_una h) r) w"
    if inv: "link_in src N got r \<and> acks_from c r0 r w"
  proof -
    obtain n x where eq: "ack_una (hd_una h) r = r\<lparr>sndBuf := drop n (sndBuf r), sndUna := x\<rparr>" using ack_una_frame by blast
    have "acks_from c r0 (ack_una (hd_una h) r) w"
      by (rule same [where r = r and w = w]) (use inv in \<open>auto simp: eq dest: in_set_dropD\<close>)
    then show ?thesis using receiving.keep_una inv by blast
  qed
  show "link_in src N got r' \<and> acks_from c r0 r' w'"
    if inv: "link_in src N got r \<and> acks_from c r0 r w"
      and Q: "hd_cmd h = IRUDP_CMD_PUSH \<longrightarrow> (hd_frg h, body) = src (unat (hd_sn h)) \<and> unat (hd_sn h) < N"
      and push: "hd_cmd h = IRUDP_CMD_PUSH" and run: "input_push regular conv h body r w = Some (r', w')"
  proof -
    have "rcv_inv src r" "(hd_frg h, body) = src (unat (hd_sn h))" using inv Q push by (simp_all add: link_in_def)
    note step = received_input_push [OF this run]
    obtain l n q b where eq: "r' = r\<lparr>ackList := l, rcvNxt := n, rcvQueue := q, rcvBuf := b\<rparr>" "packets w' = packets w"
      by (rule input_push_frame [OF run])
    have "acks_from c r0 r' w'"
      by (rule acks_from_cong [OF conjunct2 [OF inv] step(1)]) (use step(2) eq(2) in \<open>auto simp: eq(1)\<close>)
    then show ?thesis using receiving.keep_push [OF conjunct1 [OF inv] Q push run] by blast
  qed
  show "link_in src N got (parseFastAck (hd_sn h) (hd_ts h) (parseAck (hd_sn h) r)) \<and>
      acks_from c r0 (parseFastAck (hd_sn h) (hd_ts h) (parseAck (hd_sn h) r)) w" (is "_ \<and> acks_from c r0 ?r w")
    if inv: "link_in src N got r \<and> acks_from c r0 r w"
  proof -
    obtain b where eq: "?r = r\<lparr>sndBuf := b\<rparr>" using parse_acks_frame by blast
    have "\<exists>t \<in> set (sndBuf r). seg_conv s = seg_conv t \<and> seg_cmd s = seg_cmd t" if mem: "s \<in> set (sndBuf ?r)" for s
      using parse_acks_cases [OF mem] by blast
    then have "acks_from c r0 ?r w" by (intro same [OF conjunct2 [OF inv]]) (simp_all add: eq)
    then show ?thesis using receiving.keep_ack inv by blast
  qed
  show "link_in src N got r \<and> acks_from c r0 r w \<Longrightarrow> link_in src N got r \<and> acks_from c r0 r (AddUint64 upd n w)"
    by (erule conjE, rule conjI, assumption, rule same [where r = r and w = w]) auto
  show "link_in src N got r \<and> acks_from c r0 r w \<Longrightarrow> link_in src N got r \<and> acks_from c r0 r (snd (currentMs w))"
    by (erule conjE, rule conjI, assumption, rule same [where r = r and w = w]) auto
  show "link_in src N got (updateRTO rtt r) \<and> acks_from c r0 (updateRTO rtt r) w"
    if inv: "link_in src N got r \<and> acks_from c r0 r w"
  proof -
    obtain x y z where eq: "updateRTO rtt r = r\<lparr>rxSRTT := x, rxRTTVal := y, rxRTO := z\<rparr>" using updateRTO_frame by blast
    have "acks_from c r0 (updateRTO rtt r) w" by (rule same [where r = r and w = w]) (use inv in \<open>auto simp: eq\<close>)
    then show ?thesis using receiving.keep_rtt inv by blast
  qed
  show "link_in src N got r' \<and> acks_from c r0 r' w"
    if inv: "link_in src N got r \<and> acks_from c r0 r w" and run: "grow_cwnd old r = Some r'"
  proof -
    have "mss r \<noteq> 0" using inv by (auto simp: link_in_def dest: sender_ok_mss)
    from grow_cwnd_frame [OF this run] obtain x y where eq: "r' = r\<lparr>cwnd := x, incr := y\<rparr>" by blast
    have "acks_from c r0 r' w" by (rule same [where r = r and w = w]) (use inv in \<open>auto simp: eq\<close>)
    then show ?thesis using receiving.keep_grow [OF conjunct1 [OF inv] run] by blast
  qed
  show "link_in src N got r' \<and> acks_from c r0 r' w'"
    if inv: "link_in src N got r \<and> acks_from c r0 r w" and run: "flush ackOnly r w = Some (v, r', w')"
    using receiving.keep_flush [OF conjunct1 [OF inv] run] acks_from_flush [OF conjunct2 [OF inv] _ run] inv
    by (auto simp: link_in_def)
qed

section \<open>What the sender believes is true\<close>

text \<open>\<open>R\<close> are the numbers the peer has received, \<open>nxt\<close> its \<^verbatim>\<open>rcvNxt\<close>.\<close>

definition acked_ok :: "(u32 \<Rightarrow> bool) \<Rightarrow> u32 \<Rightarrow> RUDP \<Rightarrow> bool" where
  "acked_ok R nxt r \<longleftrightarrow> sender_ok r \<and> sndUna r \<le> nxt \<and>
     (\<forall>s \<in> set (sndBuf r). seg_acked s = 1 \<longrightarrow> R (seg_sn s)) \<and> (\<forall>s \<in> set (sndQueue r). seg_acked s \<noteq> 1)"

lemma acked_ok_mono: "acked_ok R nxt r \<Longrightarrow> nxt \<le> nxt' \<Longrightarrow> (\<And>n. R n \<Longrightarrow> R' n) \<Longrightarrow> acked_ok R' nxt' r"
  by (auto simp: acked_ok_def)

lemma acked_ok_cong:
  "acked_ok R nxt r \<Longrightarrow> sender_ok r' \<Longrightarrow> sndUna r' = sndUna r \<Longrightarrow> sndBuf r' = sndBuf r \<Longrightarrow> sndQueue r' = sndQueue r \<Longrightarrow>
   acked_ok R nxt r'"
  by (simp add: acked_ok_def)

lemma una_advance:
  assumes "sender_ok r" "sndUna r \<le> nxt" "u \<le> nxt"
  shows "sndUna (ack_una u r) \<le> nxt"
proof -
  have inv: "snd_inv r" using assms(1) by (simp add: sender_ok_def)
  let ?k = "una_count u (sndBuf r)"
  have una: "sndUna (ack_una u r) = sndUna r + word_of_nat ?k" by (simp add: ack_una_eq [OF inv])
  show ?thesis
  proof (cases ?k)
    case 0
    then show ?thesis using una assms(2) by simp
  next
    case (Suc i)
    then have i: "i < length (takeWhile (\<lambda>s. seg_sn s < u) (sndBuf r))" by (simp add: una_count_takeWhile)
    then have "takeWhile (\<lambda>s. seg_sn s < u) (sndBuf r) ! i \<in> set (takeWhile (\<lambda>s. seg_sn s < u) (sndBuf r))"
      by (rule nth_mem)
    then have "seg_sn (sndBuf r ! i) < u" using i by (auto dest: set_takeWhileD simp: takeWhile_nth)
    moreover have "i < length (sndBuf r)" using i length_takeWhile_le le_less_trans less_le_trans by metis
    then have "seg_sn (sndBuf r ! i) = sndUna r + word_of_nat i" using inv by (simp add: snd_inv_def sn_run_def)
    ultimately have lt: "sndUna r + word_of_nat i < u" by simp
    then have "unat (sndUna r + word_of_nat i + 1) = Suc (unat (sndUna r + word_of_nat i))"
      by (intro unat_Suc_lt_max less_word_max)
    then have "sndUna r + word_of_nat i + 1 \<le> u" using lt by (simp add: word_le_nat_alt word_less_nat_alt)
    then show ?thesis using una Suc assms(3) by (simp add: add.assoc [symmetric] add.commute [of 1])
  qed
qed

lemma acked_ok_flush:
  assumes inv: "acked_ok R nxt r" and run: "flush ackOnly r w = Some (v, r', w')"
  shows "acked_ok R nxt r'"
proof -
  have ok: "sender_ok r" using inv by (simp add: acked_ok_def)
  have so: "sizes_ok r" "fits_mss r" using ok by (simp_all add: sender_ok_def)
  have ok': "sender_ok r'" using sender.keep_flush [OF ok run] .
  show ?thesis
  proof (cases ackOnly)
    case True
    obtain r1 w1 gs where 1: "flush True r w = Some (interval r, r1, w1)" "r1 = r\<lparr>ackList := [], rudp_buffer := rudp_buffer r1\<rparr>"
      using flush_ack_only [OF so(1), of w] by blast
    then obtain b where "r' = r\<lparr>ackList := [], rudp_buffer := b\<rparr>" using True run by auto
    then show ?thesis using acked_ok_cong [OF inv ok'] by simp
  next
    case False
    obtain v1 r1 w1 pushes where 1: "flush False r w = Some (v1, r1, w1)" "flush_data_post r r1 pushes"
      using flush_full [OF so, of w] by blast
    then have post: "flush_data_post r r' pushes" using False run by simp
    let ?q = "take (admitted (send_window r) r) (sndQueue r)"
    have keys: "map seg_key (sndBuf r') = map seg_key (sndBuf r @ admit_segs (rudp_conv r) (sndNxt r) ?q)"
      and queue: "sndQueue r' = drop (admitted (send_window r) r) (sndQueue r)" and una: "sndUna r' = sndUna r"
      using post by (simp_all add: flush_data_post_def flush_frame_def Let_def)
    have "R (seg_sn s)" if mem: "s \<in> set (sndBuf r')" and acked: "seg_acked s = 1" for s
    proof -
      have "seg_key s \<in> set (map seg_key (sndBuf r @ admit_segs (rudp_conv r) (sndNxt r) ?q))"
        unfolding keys [symmetric] using mem by simp
      then obtain t where t: "t \<in> set (sndBuf r) \<or> t \<in> set (admit_segs (rudp_conv r) (sndNxt r) ?q)" "seg_key s = seg_key t"
        by auto
      then have t': "seg_acked t = 1" "seg_sn t = seg_sn s" using acked by (simp_all add: seg_key_simps)
      have "t \<notin> set (admit_segs (rudp_conv r) (sndNxt r) ?q)"
        using t'(1) inv set_admit_segs by (fastforce simp: acked_ok_def dest: in_set_takeD)
      then show ?thesis using t(1) t' inv by (auto simp: acked_ok_def)
    qed
    then show ?thesis
      using inv ok' queue una by (auto simp: acked_ok_def dest: in_set_dropD)
  qed
qed

interpretation believing: header_input "\<lambda>r _. acked_ok R nxt r"
  "\<lambda>h body. hd_una h \<le> nxt \<and> (hd_cmd h = IRUDP_CMD_ACK \<longrightarrow> R (hd_sn h))" for R nxt
proof
  fix r r' :: RUDP and w w' x y and h :: header and body regular conv upd n rtt old ackOnly v
  have ok: "acked_ok R nxt r \<Longrightarrow> sender_ok r" by (simp add: acked_ok_def)
  show "acked_ok R nxt r \<Longrightarrow> acked_ok R nxt (r\<lparr>rmtWnd := x\<rparr>)"
    by (frule ok, erule acked_ok_cong) (auto intro: sender.keep_wnd)
  show "acked_ok R nxt r \<Longrightarrow> acked_ok R nxt (r\<lparr>probe := y\<rparr>)"
    by (frule ok, erule acked_ok_cong) (auto intro: sender.keep_ask)
  show "acked_ok R nxt (ack_una (hd_una h) r)"
    if inv: "acked_ok R nxt r" and Q: "hd_una h \<le> nxt \<and> (hd_cmd h = IRUDP_CMD_ACK \<longrightarrow> R (hd_sn h))"
  proof -
    obtain n x where eq: "ack_una (hd_una h) r = r\<lparr>sndBuf := drop n (sndBuf r), sndUna := x\<rparr>" using ack_una_frame by blast
    have "sndUna (ack_una (hd_una h) r) \<le> nxt" using una_advance [OF ok [OF inv]] inv Q by (simp add: acked_ok_def)
    then show ?thesis using inv sender.keep_una [OF ok [OF inv], of "hd_una h"] by (auto simp: acked_ok_def eq dest: in_set_dropD)
  qed
  show "acked_ok R nxt r'" if inv: "acked_ok R nxt r" and run: "input_push regular conv h body r w = Some (r', w')"
  proof -
    obtain l n q b where eq: "r' = r\<lparr>ackList := l, rcvNxt := n, rcvQueue := q, rcvBuf := b\<rparr>"
      by (rule input_push_frame [OF run])
    have "sender_ok r'" by (rule sender_ok_cong [OF ok [OF inv]]) (simp_all add: eq)
    then show ?thesis by (rule acked_ok_cong [OF inv]) (simp_all add: eq)
  qed
  show "acked_ok R nxt (parseFastAck (hd_sn h) (hd_ts h) (parseAck (hd_sn h) r))" (is "acked_ok R nxt ?r")
    if inv: "acked_ok R nxt r" and Q: "hd_una h \<le> nxt \<and> (hd_cmd h = IRUDP_CMD_ACK \<longrightarrow> R (hd_sn h))" and ack: "hd_cmd h = IRUDP_CMD_ACK"
  proof -
    obtain b where eq: "?r = r\<lparr>sndBuf := b\<rparr>" using parse_acks_frame by blast
    have "R (seg_sn s)" if mem: "s \<in> set (sndBuf ?r)" and acked: "seg_acked s = 1" for s
      using parse_acks_cases [OF mem] acked inv Q ack by (auto simp: acked_ok_def)
    then show ?thesis using inv sender.keep_ack [OF ok [OF inv], of "hd_sn h" "hd_ts h"] by (simp add: acked_ok_def eq)
  qed
  show "acked_ok R nxt (updateRTO rtt r)" if inv: "acked_ok R nxt r"
  proof -
    obtain x y z where eq: "updateRTO rtt r = r\<lparr>rxSRTT := x, rxRTTVal := y, rxRTO := z\<rparr>" using updateRTO_frame by blast
    show ?thesis by (rule acked_ok_cong [OF inv sender.keep_rtt [OF ok [OF inv]]]) (simp_all add: eq)
  qed
  show "acked_ok R nxt r'" if inv: "acked_ok R nxt r" and run: "grow_cwnd old r = Some r'"
  proof -
    obtain x y where eq: "r' = r\<lparr>cwnd := x, incr := y\<rparr>"
      using grow_cwnd_frame [OF sender_ok_mss [OF ok [OF inv]] run] by blast
    show ?thesis by (rule acked_ok_cong [OF inv sender.keep_grow [OF ok [OF inv] run]]) (simp_all add: eq)
  qed
  show "acked_ok R nxt r \<Longrightarrow> flush ackOnly r w = Some (v, r', w') \<Longrightarrow> acked_ok R nxt r'"
    by (rule acked_ok_flush)
qed

section \<open>Both ends\<close>

text \<open>\<^verbatim>\<open>Send\<close> queues only segments that are not marked.\<close>

lemma numbered_acked: "s \<in> set (numbered m cs) \<Longrightarrow> seg_acked s = 0"
  by (auto simp: numbered_def fragment_def zero_segment_def)

lemma send_fill_acked:
  assumes "send_fill buffer r = (b, r')" "\<forall>s \<in> set (sndQueue r). seg_acked s \<noteq> 1"
  shows "\<forall>s \<in> set (sndQueue r'). seg_acked s \<noteq> 1"
proof -
  have "map seg_acked (q[i := (q ! i)\<lparr>seg_data := d\<rparr>]) = map seg_acked q" if "i < length q" for q :: "segment list" and i d
    using that list_update_id [of "map seg_acked q" i] by (simp add: map_update)
  then have "map seg_acked (sndQueue r') = map seg_acked (sndQueue r)"
    using assms(1) by (auto simp: send_fill_def Let_def split: if_splits)
  then have "seg_acked ` set (sndQueue r') = seg_acked ` set (sndQueue r)" by (metis set_map)
  moreover have "1 \<notin> seg_acked ` set (sndQueue r)" using assms(2) by auto
  ultimately have "1 \<notin> seg_acked ` set (sndQueue r')" by simp
  then show ?thesis by (metis image_eqI)
qed

lemma Send_unmarked:
  assumes m: "0 < unat (mss r)" "unat (mss r) \<le> mtuLimit" and "Send buffer r = Some (0, r')"
    and ne: "\<forall>s \<in> set (sndQueue r). seg_acked s \<noteq> 1"
  shows "\<forall>s \<in> set (sndQueue r'). seg_acked s \<noteq> 1"
  using m assms(3)
proof (cases rule: Send_accepted_cases)
  case message
  from message(3,2) m obtain cs where "r' = r\<lparr>sndQueue := sndQueue r @ numbered (stream r) cs\<rparr>" by (rule send_rest_accepted)
  then show ?thesis using ne by (auto dest!: numbered_acked)
next
  case (filled q)
  then show ?thesis using send_fill_acked [OF filled(1) ne] by simp
next
  case (streamed b r1 q)
  have m1: "0 < unat (mss r1)" "unat (mss r1) \<le> mtuLimit" using m streamed(2) by simp_all
  from streamed(4,3) m1 obtain cs where "r' = r1\<lparr>sndQueue := sndQueue r1 @ numbered (stream r1) cs\<rparr>" by (rule send_rest_accepted)
  then show ?thesis using send_fill_acked [OF streamed(1) ne] by (auto dest!: numbered_acked)
qed

definition ack_inv :: "u32 \<Rightarrow> endpoint \<Rightarrow> endpoint \<Rightarrow> bool" where
  "ack_inv c a b \<longleftrightarrow> (length (ep_sent a) < 2 ^ 32 \<longrightarrow> acks_sound c (ep_rudp b) (ep_world b) \<and>
     acked_ok (received (ep_rudp b)) (rcvNxt (ep_rudp b)) (ep_rudp a))"

text \<open>A step of the sending end.\<close>

lemma ack_inv_left:
  assumes step: "ep_step (set (packets (ep_world b))) a a'" and inv: "ack_inv c a b" and side: "side_inv c a"
  shows "ack_inv c a' b"
  unfolding ack_inv_def
proof
  let ?R = "received (ep_rudp b)" and ?nxt = "rcvNxt (ep_rudp b)"
  assume "length (ep_sent a') < 2 ^ 32"
  moreover obtain xs where "ep_sent a' = ep_sent a @ xs" using sent_grows [OF step] by blast
  ultimately have acks: "acks_sound c (ep_rudp b) (ep_world b)" and bel: "acked_ok ?R ?nxt (ep_rudp a)"
    using inv by (simp_all add: ack_inv_def)
  have ok: "sender_ok (ep_rudp a)" using bel by (simp add: acked_ok_def)
  have "acked_ok ?R ?nxt (ep_rudp a')"
    using step
  proof (cases rule: ep_step.cases)
    case (user_send buffer r)
    obtain q where q: "r = (ep_rudp a)\<lparr>sndQueue := q\<rparr>" "sender_ok r" using Send_accepted [OF ok user_send(2)] by blast
    have "0 < unat (mss (ep_rudp a))" "unat (mss (ep_rudp a)) \<le> mtuLimit"
      using ok by (simp_all add: sender_ok_def sizes_ok_def unat_gt_0 word_gt_0)
    from Send_unmarked [OF this user_send(2)] show ?thesis using user_send(1) bel q by (simp add: acked_ok_def)
  next
    case (user_read buffer bs r)
    obtain n q f p where eq: "r = (ep_rudp a)\<lparr>rcvNxt := n, rcvQueue := q, rcvBuf := f, probe := p\<rparr>"
      using Receive_frame [OF user_read(2)] by blast
    have "sender_ok r" by (rule sender_ok_cong [OF ok]) (simp_all add: eq)
    then show ?thesis using user_read(1) acked_ok_cong [OF bel, of r] by (simp add: eq)
  next
    case (timer ackOnly v r w)
    then show ?thesis using acked_ok_flush [OF bel] by simp
  next
    case (packet p regular ackNoDelay code r w)
    have "\<forall>(h, body) \<in> set (snd (parse_packet (rudp_conv (ep_rudp a)) p)). hd_una h \<le> ?nxt \<and> (hd_cmd h = IRUDP_CMD_ACK \<longrightarrow> ?R (hd_sn h))"
      using acks packet(2) by (simp add: acks_sound_def ack_packet_def side_inv_conv [OF side])
    from believing.keep_Input [OF bel this packet(3)] show ?thesis using packet(1) by simp
  next
    case (tune nd iv rs nc)
    have "sender_ok (NoDelay nd iv rs nc (ep_rudp a))" by (rule sender_ok_cong [OF ok]) (simp_all add: NoDelay_frame)
    then show ?thesis using tune acked_ok_cong [OF bel] by (simp add: NoDelay_frame)
  next
    case (windows x y)
    have "sender_ok (snd (WndSize x y (ep_rudp a)))" by (rule sender_ok_cong [OF ok]) (simp_all add: WndSize_frame)
    then show ?thesis using windows acked_ok_cong [OF bel] by (simp add: WndSize_frame)
  next
    case (mode x)
    have "sender_ok ((ep_rudp a)\<lparr>stream := x\<rparr>)" by (rule sender_ok_cong [OF ok]) simp_all
    then show ?thesis using mode acked_ok_cong [OF bel] by simp
  next
    case (others w)
    then show ?thesis using bel by simp
  qed
  then show "acks_sound c (ep_rudp b) (ep_world b) \<and> acked_ok ?R ?nxt (ep_rudp a')" using acks by blast
qed

text \<open>The PUSH segments in the packets of the sending end are what it numbered.\<close>

lemma side_inv_pushes:
  assumes "side_inv c a" "length (ep_sent a) < 2 ^ 32" "p \<in> set (packets (ep_world a))"
  shows "\<forall>(h, body) \<in> set (snd (parse_packet c p)). hd_cmd h = IRUDP_CMD_PUSH \<longrightarrow>
    (hd_frg h, body) = nth_src (ep_sent a) (unat (hd_sn h)) \<and> unat (hd_sn h) < length (ep_sent a)"
proof -
  obtain k where k: "k \<le> length (sndQueue (ep_rudp a))" "sndQueue (ep_rudp a) = drop k (sndQueue (ep_rudp a))"
    "length (ep_sent a) + k < 2 ^ 32 \<longrightarrow> out_ok c (ep_sent a @ map pay (take k (sndQueue (ep_rudp a)))) (ep_rudp a) (ep_world a)"
    using side_inv_link [OF assms(1)] unfolding link_out_def by blast
  have "k = 0" using arg_cong [OF k(2), of length] k(1) by (cases "sndQueue (ep_rudp a)") auto
  then have "good_packet c (ep_sent a) p" using k(3) assms(2,3) by (simp add: out_ok_def)
  then show ?thesis by (auto dest: good_packet_parse)
qed

lemma tuning_ackList: "ackList (NoDelay nd iv rs nc r) = ackList r" "ackList (snd (WndSize x y r)) = ackList r"
  by (simp_all add: NoDelay_def WndSize_def Let_def)

text \<open>A step of the receiving end.\<close>

lemma ack_inv_right:
  assumes step: "ep_step (set (packets (ep_world a))) b b'" and inv: "ack_inv c a b" and flow: "flow_inv a b"
    and side: "side_inv c a" "side_inv c b"
  shows "ack_inv c a b'"
  unfolding ack_inv_def
proof
  assume small: "length (ep_sent a) < 2 ^ 32"
  let ?src = "nth_src (ep_sent a)" and ?N = "length (ep_sent a)"
  let ?r = "ep_rudp b" and ?w = "ep_world b"
  have acks: "acks_sound c ?r ?w" and bel: "acked_ok (received ?r) (rcvNxt ?r) (ep_rudp a)"
    using inv small by (simp_all add: ack_inv_def)
  have in_: "link_in ?src ?N (ep_got b) ?r" using flow small by (simp add: flow_inv_def)
  have ok: "sender_ok ?r" and rcv: "rcv_inv ?src ?r" using in_ by (simp_all add: link_in_def)
  have from_: "acks_from c ?r ?r ?w" using acks by (simp add: acks_from_def knows_more_same)
  have "acks_from c ?r (ep_rudp b') (ep_world b')"
    using step
  proof (cases rule: ep_step.cases)
    case (user_send buffer r)
    obtain q where "r = ?r\<lparr>sndQueue := q\<rparr>" using Send_accepted [OF ok user_send(2)] by blast
    moreover have "acks_from c ?r (?r\<lparr>sndQueue := q\<rparr>) ?w"
      by (rule acks_from_cong [OF from_]) (auto intro: knows_more_same)
    ultimately show ?thesis using user_send(1) by simp
  next
    case (user_read buffer bs r)
    obtain n q f p where eq: "r = ?r\<lparr>rcvNxt := n, rcvQueue := q, rcvBuf := f, probe := p\<rparr>"
      using Receive_frame [OF user_read(2)] by blast
    then show ?thesis
      using user_read(1) acks_from_cong [OF from_ knows_more_fetch [OF rcv user_read(2)], of ?w] by auto
  next
    case (timer ackOnly v r w)
    then show ?thesis using acks_from_flush [OF from_ ok] by simp
  next
    case (packet p regular ackNoDelay code r w)
    have "\<forall>(h, body) \<in> set (snd (parse_packet (rudp_conv ?r) p)). hd_cmd h = IRUDP_CMD_PUSH \<longrightarrow>
        (hd_frg h, body) = ?src (unat (hd_sn h)) \<and> unat (hd_sn h) < ?N"
      using side_inv_pushes [OF side(1) small packet(2)] by (simp add: side_inv_conv [OF side(2)])
    from acking.keep_Input [OF conjI [OF in_ from_] this packet(3)] show ?thesis using packet(1) by simp
  next
    case (tune nd iv rs nc)
    have "acks_from c ?r (NoDelay nd iv rs nc ?r) ?w"
      by (rule acks_from_cong [OF from_]) (auto simp: NoDelay_frame tuning_ackList intro: knows_more_same)
    then show ?thesis using tune by simp
  next
    case (windows x y)
    have "acks_from c ?r (snd (WndSize x y ?r)) ?w"
      by (rule acks_from_cong [OF from_]) (auto simp: WndSize_frame tuning_ackList intro: knows_more_same)
    then show ?thesis using windows by simp
  next
    case (mode x)
    have "acks_from c ?r (?r\<lparr>stream := x\<rparr>) ?w"
      by (rule acks_from_cong [OF from_]) (auto intro: knows_more_same)
    then show ?thesis using mode by simp
  next
    case (others w)
    have "acks_from c ?r ?r w"
      by (rule acks_from_cong [OF from_]) (use others in \<open>auto simp: packets_def intro: knows_more_same\<close>)
    then show ?thesis using others by simp
  qed
  then have "acks_sound c (ep_rudp b') (ep_world b')" "knows_more ?r (ep_rudp b')" by (simp_all add: acks_from_def)
  then show "acks_sound c (ep_rudp b') (ep_world b') \<and> acked_ok (received (ep_rudp b')) (rcvNxt (ep_rudp b')) (ep_rudp a)"
    using acked_ok_mono [OF bel] by (auto simp: knows_more_def)
qed

lemma acks_net_step:
  "net_step ab ab' \<Longrightarrow> net_inv c ab \<Longrightarrow> ack_inv c (fst ab) (snd ab) \<and> ack_inv c (snd ab) (fst ab) \<Longrightarrow>
   ack_inv c (fst ab') (snd ab') \<and> ack_inv c (snd ab') (fst ab')"
proof (induction rule: net_step.induct)
  case (left b a a')
  then have inv: "side_inv c a" "side_inv c b" "flow_inv b a" "ack_inv c a b" "ack_inv c b a" by (simp_all add: net_inv_def)
  show ?case
    using ack_inv_left [OF left.hyps inv(4,1)] ack_inv_right [OF left.hyps inv(5,3,2,1)] by simp
next
  case (right a b b')
  then have inv: "side_inv c a" "side_inv c b" "flow_inv a b" "ack_inv c a b" "ack_inv c b a" by (simp_all add: net_inv_def)
  show ?case
    using ack_inv_left [OF right.hyps inv(5,2)] ack_inv_right [OF right.hyps inv(4,3,1,2)] by simp
qed

lemma ack_inv_start:
  assumes "out_calls wb = []"
  shows "ack_inv c (new_endpoint c wa) (new_endpoint c wb)"
proof -
  have "sender_ok (NewRudp c)"
    by (simp add: sender_ok_def sizes_ok_NewRudp) (simp add: fits_mss_def snd_inv_def NewRudp_def zero_RUDP_def)
  moreover have new: "sndQueue (NewRudp c) = []" "sndBuf (NewRudp c) = []" "sndUna (NewRudp c) = 0" "rudp_conv (NewRudp c) = c"
    "reserved (NewRudp c) = 0" "ackList (NewRudp c) = []"
    by (simp_all add: NewRudp_def zero_RUDP_def)
  ultimately show ?thesis
    using assms by (simp add: ack_inv_def new_endpoint_def acks_sound_def acked_ok_def packets_def)
qed

lemma net_run_invs:
  assumes "net_step\<^sup>*\<^sup>* (new_endpoint c wa, new_endpoint c wb) (a, b)" "out_calls wa = []" "out_calls wb = []"
  shows "net_inv c (a, b)" "ack_inv c a b" "ack_inv c b a"
proof -
  have start: "net_inv c (new_endpoint c wa, new_endpoint c wb)" by (rule net_inv_start [OF assms(2,3)])
  show "net_inv c (a, b)" by (rule net_inv_run [OF assms(1) start])
  have "ack_inv c (fst ab) (snd ab) \<and> ack_inv c (snd ab) (fst ab)"
    if "net_step\<^sup>*\<^sup>* (new_endpoint c wa, new_endpoint c wb) ab" for ab
    using that
  proof (induction rule: rtranclp_induct)
    case base
    then show ?case using ack_inv_start [OF assms(2)] ack_inv_start [OF assms(3)] by simp
  next
    case (step y z)
    show ?case by (rule acks_net_step [OF step.hyps(2) net_inv_run [OF step.hyps(1) start] step.IH])
  qed
  from this [OF assms(1)] show "ack_inv c a b" "ack_inv c b a" by simp_all
qed

text \<open>The numbers in \<^verbatim>\<open>sndBuf\<close> are those from \<^verbatim>\<open>sndUna\<close> up to the number of payloads sent.\<close>

lemma sndBuf_numbers:
  assumes side: "side_inv c a" and small: "length (ep_sent a) < 2 ^ 32" and una: "unat (sndUna (ep_rudp a)) \<le> length (ep_sent a)"
  shows "length (sndBuf (ep_rudp a)) = length (ep_sent a) - unat (sndUna (ep_rudp a))"
    and "\<forall>s \<in> set (sndBuf (ep_rudp a)). good_buf c (ep_sent a) s"
    and "i < length (sndBuf (ep_rudp a)) \<Longrightarrow> unat (seg_sn (sndBuf (ep_rudp a) ! i)) = unat (sndUna (ep_rudp a)) + i"
proof -
  let ?r = "ep_rudp a" and ?N = "length (ep_sent a)"
  obtain k where k: "k \<le> length (sndQueue ?r)" "sndQueue ?r = drop k (sndQueue ?r)" "sndNxt ?r = word_of_nat (?N + k)"
    "?N + k < 2 ^ 32 \<longrightarrow> out_ok c (ep_sent a @ map pay (take k (sndQueue ?r))) ?r (ep_world a)"
    and inv: "snd_inv ?r"
    using side_inv_link [OF side] unfolding link_out_def sender_ok_def by blast
  have "k = 0" using arg_cong [OF k(2), of length] k(1) by (cases "sndQueue ?r") auto
  then have nxt: "sndNxt ?r = word_of_nat ?N" and good: "\<forall>s \<in> set (sndBuf ?r). good_buf c (ep_sent a) s"
    using k(3,4) small by (simp_all add: out_ok_def)
  show "\<forall>s \<in> set (sndBuf ?r). good_buf c (ep_sent a) s" by (rule good)
  let ?d = "?N - unat (sndUna ?r)"
  have at: "unat (sndUna ?r + word_of_nat i) = unat (sndUna ?r) + i" if "i \<le> ?d" for i
    using that small una by (simp add: unat_word_ariths unat_of_nat)
  have le: "length (sndBuf ?r) \<le> ?d"
  proof (rule ccontr)
    assume "\<not> length (sndBuf ?r) \<le> ?d"
    then have "?d < length (sndBuf ?r)" by simp
    then have "sndBuf ?r ! ?d \<in> set (sndBuf ?r)" "seg_sn (sndBuf ?r ! ?d) = sndUna ?r + word_of_nat ?d"
      using inv by (simp_all add: snd_inv_def sn_run_def)
    then show False using good at [of ?d] una by (auto simp: good_buf_def)
  qed
  have "unat (sndNxt ?r) = unat (sndUna ?r) + length (sndBuf ?r)"
    using inv at [OF le] by (simp add: snd_inv_def)
  moreover have "unat (sndNxt ?r) = ?N" using nxt small by (simp add: unat_of_nat)
  ultimately show "length (sndBuf ?r) = ?d" by simp
  show "unat (seg_sn (sndBuf ?r ! i)) = unat (sndUna ?r) + i" if "i < length (sndBuf ?r)"
    using that inv at [of i] le by (simp add: snd_inv_def sn_run_def)
qed

lemma nothing_lost_inv:
  assumes inv: "side_inv c a" "flow_inv a b" "ack_inv c a b" and small: "length (ep_sent a) < 2 ^ 32"
  shows "\<forall>n < length (ep_sent a). received (ep_rudp b) (word_of_nat n) \<or>
      (\<exists>s \<in> set (sndBuf (ep_rudp a)). seg_sn s = word_of_nat n \<and> seg_acked s \<noteq> 1 \<and> pay s = ep_sent a ! n)"
    and "WaitSnd (ep_rudp a) = 0 \<Longrightarrow> ep_app a = ep_got b @ queue_bytes (rcvQueue (ep_rudp b))"
proof -
  let ?N = "length (ep_sent a)" and ?una = "unat (sndUna (ep_rudp a))" and ?nxt = "unat (rcvNxt (ep_rudp b))"
  have nxt: "?nxt \<le> ?N" and bytes: "ep_got b @ queue_bytes (rcvQueue (ep_rudp b)) = concat (map snd (take ?nxt (ep_sent a)))"
    using inv(2) small src_bytes_nth_src [of ?nxt "ep_sent a"] by (simp_all add: flow_inv_def link_in_def)
  have una: "?una \<le> ?nxt" and acked: "\<And>s. s \<in> set (sndBuf (ep_rudp a)) \<Longrightarrow> seg_acked s = 1 \<Longrightarrow> received (ep_rudp b) (seg_sn s)"
    using inv(3) small by (auto simp: ack_inv_def acked_ok_def word_le_nat_alt)
  note buf = sndBuf_numbers [OF inv(1) small order_trans [OF una nxt]]
  show "\<forall>n < ?N. received (ep_rudp b) (word_of_nat n) \<or>
      (\<exists>s \<in> set (sndBuf (ep_rudp a)). seg_sn s = word_of_nat n \<and> seg_acked s \<noteq> 1 \<and> pay s = ep_sent a ! n)"
  proof (intro allI impI)
    fix n assume n: "n < ?N"
    then have un: "unat (word_of_nat n :: u32) = n" using small by (simp add: unat_of_nat)
    show "received (ep_rudp b) (word_of_nat n) \<or>
      (\<exists>s \<in> set (sndBuf (ep_rudp a)). seg_sn s = word_of_nat n \<and> seg_acked s \<noteq> 1 \<and> pay s = ep_sent a ! n)"
    proof (cases "n < ?una")
      case True
      then show ?thesis using una un by (simp add: received_def word_less_nat_alt)
    next
      case False
      then have i: "n - ?una < length (sndBuf (ep_rudp a))" using n buf(1) by simp
      let ?s = "sndBuf (ep_rudp a) ! (n - ?una)"
      have s: "?s \<in> set (sndBuf (ep_rudp a))" "unat (seg_sn ?s) = n" using i buf(3) [OF i] False by simp_all
      then have "seg_sn ?s = word_of_nat n" using un by (metis unsigned_word_eqI)
      moreover have "seg_acked ?s \<noteq> 1 \<Longrightarrow> pay ?s = ep_sent a ! n" using buf(2) s by (auto simp: good_buf_def)
      ultimately show ?thesis using acked [OF s(1)] s(1) by metis
    qed
  qed
  show "ep_app a = ep_got b @ queue_bytes (rcvQueue (ep_rudp b))" if "WaitSnd (ep_rudp a) = 0"
  proof -
    have empty: "sndBuf (ep_rudp a) = []" "sndQueue (ep_rudp a) = []" using that by (simp_all add: WaitSnd_def)
    then have "?N = ?nxt" using buf(1) una nxt by simp
    then show ?thesis using bytes inv(1) empty(2) by (simp add: side_inv_def)
  qed
qed

section \<open>Properties\<close>

text \<open>
  Claim C2. Nothing is lost. In every run of two ends over a network that loses, repeats and
  reorders packets, while the sender has numbered fewer than \<open>2^32\<close> segments: each payload it
  has numbered is already stored by the receiver or is still in the sender's \<^verbatim>\<open>sndBuf\<close>,
  unmarked and with its bytes, so it can be sent again. What the receiver's user has read is a
  prefix of what \<^verbatim>\<open>Send\<close> has accepted, and when \<^verbatim>\<open>WaitSnd\<close> is zero the receiver holds or has
  handed to its user every byte of it, in order.
\<close>

theorem nothing_lost:
  assumes "net_step\<^sup>*\<^sup>* (new_endpoint conv wa, new_endpoint conv wb) (a, b)"
    and "out_calls wa = []" and "out_calls wb = []" and "length (ep_sent a) < 2 ^ 32"
  shows "(\<forall>n < length (ep_sent a). received (ep_rudp b) (word_of_nat n) \<or>
      (\<exists>s \<in> set (sndBuf (ep_rudp a)). seg_sn s = word_of_nat n \<and> seg_acked s \<noteq> 1 \<and> pay s = ep_sent a ! n)) \<and>
    prefix (ep_got b) (ep_app a) \<and>
    (WaitSnd (ep_rudp a) = 0 \<longrightarrow> ep_app a = ep_got b @ queue_bytes (rcvQueue (ep_rudp b)))"
proof -
  note invs = net_run_invs [OF assms(1-3)]
  have "side_inv conv a" "flow_inv a b" using invs(1) by (simp_all add: net_inv_def)
  from nothing_lost_inv [OF this invs(2) assms(4)] flow_prefix [OF this assms(4)] show ?thesis by blast
qed

theorem nothing_lost_witness:
  "\<exists>a b. net_step\<^sup>*\<^sup>* (new_endpoint 7 (new_world []), new_endpoint 7 (new_world [])) (a, b) \<and> ep_sent a = [(0, [1, 2, 3])] \<and>
     \<not> received (ep_rudp b) 0 \<and> (\<exists>s \<in> set (sndBuf (ep_rudp a)). seg_sn s = 0 \<and> seg_acked s \<noteq> 1 \<and> pay s = (0, [1, 2, 3]))"
proof -
  obtain a b where run: "net_step\<^sup>*\<^sup>* (new_endpoint 7 (new_world []), new_endpoint 7 (new_world [])) (a, b)"
      "ep_sent a = [(0, [1, 2, 3])]" "b = new_endpoint 7 (new_world [])"
    using demo_run by blast
  have none: "\<not> received (ep_rudp b) 0"
    by (simp add: run(3) received_def new_endpoint_def NewRudp_def zero_RUDP_def)
  have "out_calls (new_world []) = []" "length (ep_sent a) < 2 ^ 32" by (simp_all add: new_world_def run(2))
  from nothing_lost [OF run(1) this(1,1,2)] show ?thesis using run none by auto
qed

end
