(* ===== verification/Session_Network.thy ===== *)
theory Session_Network
  imports Session_Safety Acked
begin

text \<open>
  Two sessions over a lossy, repeating, reordering network. Every step of a session is matched
  by steps of the engine in the theory \<^verbatim>\<open>Network\<close> (a simulation), so the end-to-end property
  of the engines carries over to what users of \<^verbatim>\<open>Read\<close> and \<^verbatim>\<open>Write\<close> see.
\<close>

record sess_end =
  se_session :: UDPSession
  se_host :: host
  se_app :: "u8 list"
  se_got :: "u8 list"

text \<open>The settings a user may change at any time, and the wake-ups.\<close>

fun is_setting :: "sess_event \<Rightarrow> bool" where
  "is_setting (Ev_Wake c) = True"
| "is_setting (Ev_ReadError e) = True"
| "is_setting (Ev_Deadline t) = True"
| "is_setting (Ev_NoDelay nd iv rs nc) = True"
| "is_setting (Ev_WriteDelay d) = True"
| "is_setting (Ev_WindowSize a b) = True"
| "is_setting (Ev_StreamMode b) = True"
| "is_setting (Ev_ACKNoDelay b) = True"
| "is_setting ev = False"

text \<open>
  One step of a session: a read or write that is done, a packet out of \<open>incoming\<close>, the timer,
  a setting, the wake-up of a waiting write. \<open>se_app\<close> are the bytes writes reported as taken, \<open>se_got\<close> the bytes reads
  delivered.
\<close>

inductive sess_step :: "u8 list set \<Rightarrow> sess_end \<Rightarrow> sess_end \<Rightarrow> bool" for incoming :: "u8 list set" where
  read: "Read_poll b now now' (se_session e) (se_host e) = Some (Done n, b', s, h) \<Longrightarrow>
    sess_step incoming e (e\<lparr>se_session := s, se_host := h, se_got := se_got e @ take n b'\<rparr>)"
| wrote: "WriteBuffers pick bufs now now' (se_session e) (se_host e) = Some (Done n, s, h) \<Longrightarrow>
    sess_step incoming e (e\<lparr>se_session := s, se_host := h, se_app := se_app e @ take n (concat bufs)\<rparr>)"
| packet: "data \<in> incoming \<Longrightarrow> length data \<le> mtuLimit \<Longrightarrow> packetInput data (se_session e) (se_host e) = Some (s, h) \<Longrightarrow>
    sess_step incoming e (e\<lparr>se_session := s, se_host := h\<rparr>)"
| timer: "update_sess now (se_session e) (se_host e) = Some (s, h) \<Longrightarrow>
    sess_step incoming e (e\<lparr>se_session := s, se_host := h\<rparr>)"
| setting: "is_setting ev \<Longrightarrow> run_event ev (se_session e) (se_host e) = Some (s, h) \<Longrightarrow>
    sess_step incoming e (e\<lparr>se_session := s, se_host := h\<rparr>)"
| woken: "sess_step incoming e (e\<lparr>se_session := snd (write_select c (se_session e))\<rparr>)"

definition on_wire :: "sess_end \<Rightarrow> u8 list set" where
  "on_wire e = fst ` set (h_sent (se_host e))"

inductive sess_net_step :: "sess_end \<times> sess_end \<Rightarrow> sess_end \<times> sess_end \<Rightarrow> bool" where
  left: "sess_step (on_wire b) a a' \<Longrightarrow> sess_net_step (a, b) (a', b)"
| right: "sess_step (on_wire a) b b' \<Longrightarrow> sess_net_step (a, b) (a, b')"

definition new_sess_end :: "u32 \<Rightarrow> bool \<Rightarrow> addr \<Rightarrow> bool \<Rightarrow> host \<Rightarrow> sess_end" where
  "new_sess_end conv listener raddr xconn h =
    (case newUDPSession conv False listener (\<not> listener) raddr xconn 0 h of (s, h) \<Rightarrow>
       \<lparr>se_session = s, se_host = h, se_app = [], se_got = []\<rparr>)"

section \<open>The simulation\<close>

definition sess_sim :: "sess_end \<Rightarrow> endpoint \<Rightarrow> bool" where
  "sess_sim e ep \<longleftrightarrow> session_ok (se_session e) \<and> batches_ok (se_host e) \<and> \<not> s_block (se_session e) \<and>
     ep_rudp ep = s_rudp (se_session e) \<and> ep_world ep = h_world (se_host e) \<and> ep_app ep = se_app e \<and>
     ep_got ep = se_got e @ s_bufPtr (se_session e) \<and> on_wire e \<subseteq> set (packets (h_world (se_host e)))"

lemma ep_reach_mono: "(ep_step I)\<^sup>*\<^sup>* a b \<Longrightarrow> I \<subseteq> J \<Longrightarrow> (ep_step J)\<^sup>*\<^sup>* a b"
proof (induction rule: rtranclp_induct)
  case (step b c)
  have "ep_step J b c" using step.hyps(2) step.prems by (cases rule: ep_step.cases) (auto intro: ep_step.intros)
  then show ?case using step by simp
qed simp

lemma reach_others: "(ep_step I)\<^sup>*\<^sup>* a b \<Longrightarrow> out_calls w = out_calls (ep_world b) \<Longrightarrow> (ep_step I)\<^sup>*\<^sup>* a (b\<lparr>ep_world := w\<rparr>)"
  by (erule rtranclp.rtrancl_into_rtrancl) (rule ep_step.others)

lemma sends_reach:
  "sends r bs r' \<Longrightarrow> ep_rudp ep = r \<Longrightarrow> (ep_step I)\<^sup>*\<^sup>* ep (ep\<lparr>ep_rudp := r', ep_app := ep_app ep @ bs\<rparr>)"
proof (induction arbitrary: ep rule: sends.induct)
  case (none r)
  then have "ep = ep\<lparr>ep_rudp := r, ep_app := ep_app ep @ []\<rparr>" by simp
  then show ?case by (metis rtranclp.rtrancl_refl)
next
  case (more buf r r1 bs r2)
  let ?e = "ep\<lparr>ep_rudp := r1, ep_app := ep_app ep @ buf\<rparr>"
  have "ep_step I ep ?e" using more.hyps(1) more.prems by (intro ep_step.user_send) simp
  moreover have "(ep_step I)\<^sup>*\<^sup>* ?e (?e\<lparr>ep_rudp := r2, ep_app := ep_app ?e @ bs\<rparr>)" by (rule more.IH) simp
  ultimately show ?case by (simp add: converse_rtranclp_into_rtranclp)
qed

lemma transmitted_wire:
  assumes "transmitted s h r w s' h'" "fst ` set (h_sent h) \<subseteq> set (packets w)"
  shows "fst ` set (h_sent h') \<subseteq> set (packets (h_world h'))"
proof -
  obtain ds where "h_sent h' = h_sent h @ ds" "set ds \<subseteq> (\<lambda>p. (p, s_remote s)) ` set (packets w)" "out_calls (h_world h') = out_calls w"
    using assms(1) by (auto simp: transmitted_def)
  moreover from this(3) have "packets (h_world h') = packets w" by (simp add: packets_def)
  ultimately show ?thesis using assms(2) by (auto simp: image_Un)
qed

lemma calls_packets: "calls_ok w w' \<Longrightarrow> set (packets w) \<subseteq> set (packets w')"
  by (auto simp: calls_ok_def packets_def)

text \<open>An engine call with its transmission, as steps of the endpoint.\<close>

lemma sim_transmitted:
  assumes "sess_sim e ep" and "(ep_step I)\<^sup>*\<^sup>* ep ep1" and "ep_rudp ep1 = r" "ep_world ep1 = w" "calls_ok (h_world (se_host e)) w"
    and "transmitted (se_session e) (se_host e) r w s' h'" and "ep_got ep1 = ep_got ep"
  shows "\<exists>ep'. (ep_step I)\<^sup>*\<^sup>* ep ep' \<and> sess_sim (e\<lparr>se_session := s', se_host := h', se_app := ep_app ep1\<rparr>) ep'"
proof (intro exI conjI)
  show "(ep_step I)\<^sup>*\<^sup>* ep (ep1\<lparr>ep_world := h_world h'\<rparr>)"
    by (rule reach_others [OF assms(2)]) (use assms(4,6) in \<open>simp add: transmitted_def\<close>)
  have "on_wire e \<subseteq> set (packets w)" using assms(1) calls_packets [OF assms(5)] by (auto simp: sess_sim_def)
  then have "fst ` set (h_sent h') \<subseteq> set (packets (h_world h'))"
    by (intro transmitted_wire [OF assms(6)]) (simp add: on_wire_def)
  then show "sess_sim (e\<lparr>se_session := s', se_host := h', se_app := ep_app ep1\<rparr>) (ep1\<lparr>ep_world := h_world h'\<rparr>)"
    using assms(1,3,6,7) by (auto simp: sess_sim_def on_wire_def transmitted_def same_settings_def)
qed

lemma setting_effect:
  assumes "is_setting ev" "run_event ev s h = Some (s', h')"
  shows "h' = h \<and> s_bufPtr s' = s_bufPtr s \<and> s_block s' = s_block s \<and>
    (s_rudp s' = s_rudp s \<or> (\<exists>nd iv rs nc. s_rudp s' = NoDelay nd iv rs nc (s_rudp s)) \<or>
     (\<exists>a b. s_rudp s' = snd (WndSize a b (s_rudp s))) \<or> (\<exists>x. s_rudp s' = (s_rudp s)\<lparr>stream := x\<rparr>))"
proof (cases ev)
  case (Ev_Wake c)
  then show ?thesis using assms(2) by (cases c) (auto simp: read_select_def)
next
  case (Ev_NoDelay nd iv rs nc)
  then have "h' = h" "s_bufPtr s' = s_bufPtr s" "s_block s' = s_block s" "s_rudp s' = NoDelay nd iv rs nc (s_rudp s)"
    using assms(2) by (auto simp: SetNoDelay_def)
  then show ?thesis by blast
next
  case (Ev_WindowSize a b)
  then have "h' = h" "s_bufPtr s' = s_bufPtr s" "s_block s' = s_block s" "s_rudp s' = snd (WndSize a b (s_rudp s))"
    using assms(2) by (auto simp: SetWindowSize_def)
  then show ?thesis by blast
next
  case (Ev_StreamMode b)
  then show ?thesis using assms(2) by (auto simp: SetStreamMode_def)
qed (use assms in \<open>auto simp: SetDeadline_def SetWriteDelay_def SetACKNoDelay_def notifyReadError_def
    notifyReadEvent_def notifyWriteEvent_def split: if_splits\<close>)

lemma sess_simD:
  assumes "sess_sim e ep"
  shows "session_ok (se_session e)" "batches_ok (se_host e)" "\<not> s_block (se_session e)"
    "ep_rudp ep = s_rudp (se_session e)" "ep_world ep = h_world (se_host e)" "ep_app ep = se_app e"
    "ep_got ep = se_got e @ s_bufPtr (se_session e)" "on_wire e \<subseteq> set (packets (h_world (se_host e)))"
  using assms by (simp_all add: sess_sim_def)

text \<open>One lemma per step of a session.\<close>

lemma sim_read:
  assumes "sess_sim e ep" and read: "Read_poll b now now' (se_session e) (se_host e) = Some (Done n, b', s, h)"
  shows "\<exists>ep'. (ep_step I)\<^sup>*\<^sup>* ep ep' \<and> sess_sim (e\<lparr>se_session := s, se_host := h, se_got := se_got e @ take n b'\<rparr>) ep'"
proof -
  let ?s = "se_session e" and ?h = "se_host e"
  note sim = sess_simD [OF assms(1)]
  show ?thesis
  proof (cases rule: Read_poll_cases [of ?s b now now' ?h])
    case (rest m b1)
    then have r: "n = m" "b' = b1" "s = ?s\<lparr>s_bufPtr := drop m (s_bufPtr ?s)\<rparr>" "h = add_stat BytesReceived_update (of_nat m) ?h"
      using read by simp_all
    have "session_ok s" by (rule session_ok_cong [OF sim(1)]) (simp_all add: r session_ok_safe [OF sim(1)])
    then show ?thesis using sim rest(4)
      by (intro exI [of _ "ep\<lparr>ep_world := h_world h\<rparr>"] conjI reach_others) (auto simp: sess_sim_def r on_wire_def)
  next
    case (message m b1 buf msg r rb bp)
    then have r: "n = m" "b' = b1" "s = ?s\<lparr>s_rudp := r, s_rcvBuf := rb, s_bufPtr := bp\<rparr>" "h = add_stat BytesReceived_update (of_nat m) ?h"
      using read by simp_all
    have ok: "session_ok s"
      by (rule session_ok_cong [OF sim(1)]) (use fetch_safe [OF session_ok_safe [OF sim(1)] message(3)] r in simp_all)
    have "ep_step I ep (ep\<lparr>ep_rudp := r, ep_got := ep_got ep @ msg\<rparr>)"
      by (rule ep_step.user_read) (use message(3) sim(4) in simp)
    then show ?thesis using sim message(1,7) ok
      by (intro exI [of _ "ep\<lparr>ep_rudp := r, ep_got := ep_got ep @ msg, ep_world := h_world h\<rparr>"] conjI reach_others r_into_rtranclp)
         (auto simp: sess_sim_def r on_wire_def)
  next
    case empty
    then show ?thesis using read by (auto simp: deadline_wait_def split: option.splits if_splits)
  qed
qed

lemma sim_write:
  assumes "sess_sim e ep" and wrote: "WriteBuffers pick bufs now now' (se_session e) (se_host e) = Some (Done n, s, h)"
  shows "\<exists>ep'. (ep_step I)\<^sup>*\<^sup>* ep ep' \<and>
    sess_sim (e\<lparr>se_session := s, se_host := h, se_app := se_app e @ take n (concat bufs)\<rparr>) ep'"
proof -
  let ?s = "se_session e" and ?h = "se_host e"
  note sim = sess_simD [OF assms(1)]
  have live: "socketWriteError ?s = None" "\<not> s_die ?s" "can_send (s_rudp ?s)"
    using wrote by (auto simp: WriteBuffers_def Write_poll_def deadline_wait_def write_select_def
        split: if_splits select_case.splits option.splits)
  obtain r s' h' where p: "queued (s_rudp ?s) (concat bufs) r" "sends (s_rudp ?s) (concat bufs) r"
    "Write_poll bufs now now' ?s ?h = Some (Done (length (concat bufs)), s', h')" "session_ok s'" "batches_ok h'"
    "s' = ?s\<lparr>s_rudp := r\<rparr> \<and> h' = add_stat BytesSent_update (of_nat (length (concat bufs))) ?h \<or>
     (\<exists>v r2 w. flush False r (h_world ?h) = Some (v, r2, w) \<and> transmitted ?s ?h r2 w s' h')"
    using Write_poll_total [OF sim(1,2) live(3), of bufs now now'] by blast
  then have n: "n = length (concat bufs)" "s = s'" "h = h'" using wrote live by (simp_all add: WriteBuffers_def)
  let ?ep = "ep\<lparr>ep_rudp := r, ep_app := ep_app ep @ concat bufs\<rparr>"
  have reach: "(ep_step I)\<^sup>*\<^sup>* ep ?ep" by (rule sends_reach [OF p(2) sim(4)])
  from p(6) show ?thesis
  proof (elim disjE conjE exE)
    assume a: "s' = ?s\<lparr>s_rudp := r\<rparr>" "h' = add_stat BytesSent_update (of_nat (length (concat bufs))) ?h"
    then show ?thesis using sim p(4)
      by (intro exI [of _ "?ep\<lparr>ep_world := h_world h'\<rparr>"] conjI reach_others [OF reach])
         (auto simp: sess_sim_def n on_wire_def)
  next
    fix v r2 w assume f: "flush False r (h_world ?h) = Some (v, r2, w)" "transmitted ?s ?h r2 w s' h'"
    have "ep_step I ?ep (ran ?ep r2 w)" by (rule ep_step.timer) (use f(1) sim(5) in simp)
    with reach have "(ep_step I)\<^sup>*\<^sup>* ep (ran ?ep r2 w)" by (rule rtranclp.rtrancl_into_rtrancl)
    from sim_transmitted [OF assms(1) this _ _ flush_calls [OF f(1)] f(2)] show ?thesis
      by (simp add: n sim(6))
  qed
qed

lemma sim_packet:
  assumes "sess_sim e ep" and data: "data \<in> I" "length data \<le> mtuLimit"
    and run: "packetInput data (se_session e) (se_host e) = Some (s, h)"
  shows "\<exists>ep'. (ep_step I)\<^sup>*\<^sup>* ep ep' \<and> sess_sim (e\<lparr>se_session := s, se_host := h\<rparr>) ep'"
proof (cases "length data \<ge> 24")
  case False
  then have "e\<lparr>se_session := s, se_host := h\<rparr> = e" using run by (simp add: packetInput_def)
  then show ?thesis using assms(1) by auto
next
  case True
  let ?s = "se_session e" and ?h = "se_host e"
  note sim = sess_simD [OF assms(1)]
  obtain ret r w s' h' where p: "Input data True (s_ackNoDelay ?s) (s_rudp ?s) (h_world ?h) = Some (ret, r, w)"
      "rudpInput data ?s ?h = Some (s', h')" "transmitted ?s ?h r w s' h'"
    using rudpInput_total [OF sim(1,2) data(2)] by blast
  then have n: "s = s'" "h = h'" using run True sim(3) by (simp_all add: packetInput_def)
  have "ep_step I ep (ran ep r w)" by (rule ep_step.packet [of data]) (use p(1) sim data(1) in auto)
  from sim_transmitted [OF assms(1) r_into_rtranclp [of "ep_step I", OF this] _ _ Input_calls [OF p(1)] p(3)] show ?thesis
    by (simp add: n sim(6))
qed

lemma sim_timer:
  assumes "sess_sim e ep" and run: "update_sess now (se_session e) (se_host e) = Some (s, h)"
  shows "\<exists>ep'. (ep_step I)\<^sup>*\<^sup>* ep ep' \<and> sess_sim (e\<lparr>se_session := s, se_host := h\<rparr>) ep'"
proof (cases "s_die (se_session e)")
  case True
  then have "e\<lparr>se_session := s, se_host := h\<rparr> = e" using run by (simp add: update_sess_def)
  then show ?thesis using assms(1) by auto
next
  case False
  let ?s = "se_session e" and ?h = "se_host e"
  note sim = sess_simD [OF assms(1)]
  obtain v r w s' h' where p: "flush False (s_rudp ?s) (h_world ?h) = Some (v, r, w)"
      "update_sess now ?s ?h = Some (s', h'\<lparr>h_puts := h_puts ?h @ [now + int (unat v) * 1000000]\<rparr>)"
      "transmitted ?s ?h r w s' h'"
    using update_total [OF sim(1,2), of now] False by blast
  then have n: "s = s'" "h = h'\<lparr>h_puts := h_puts ?h @ [now + int (unat v) * 1000000]\<rparr>" using run by simp_all
  have "ep_step I ep (ran ep r w)" by (rule ep_step.timer) (use p(1) sim in simp)
  from sim_transmitted [OF assms(1) r_into_rtranclp [of "ep_step I", OF this] _ _ flush_calls [OF p(1)] p(3)]
  obtain ep' where "(ep_step I)\<^sup>*\<^sup>* ep ep'" "sess_sim (e\<lparr>se_session := s', se_host := h'\<rparr>) ep'"
    by (auto simp: sim(6))
  moreover from this(2) have "sess_sim (e\<lparr>se_session := s, se_host := h\<rparr>) ep'"
    by (simp add: sess_sim_def n on_wire_def batches_ok_def)
  ultimately show ?thesis by blast
qed

lemma sim_setting:
  assumes "sess_sim e ep" and set: "is_setting ev" "run_event ev (se_session e) (se_host e) = Some (s, h)"
  shows "\<exists>ep'. (ep_step I)\<^sup>*\<^sup>* ep ep' \<and> sess_sim (e\<lparr>se_session := s, se_host := h\<rparr>) ep'"
proof -
  let ?s = "se_session e"
  note sim = sess_simD [OF assms(1)]
  have can: "can_happen ev ?s" using set(1) by (cases ev) simp_all
  then have sok: "session_ok s" using run_event_total [OF sim(1,2) can] set(2) by auto
  note eff = setting_effect [OF set]
  have same: "ep\<lparr>ep_rudp := s_rudp ?s\<rparr> = ep" by (simp flip: sim(4))
  from eff have "(ep_step I)\<^sup>*\<^sup>* ep (ep\<lparr>ep_rudp := s_rudp s\<rparr>)"
  proof (elim conjE disjE exE)
    assume "s_rudp s = s_rudp ?s"
    then show ?thesis by (simp add: same)
  next
    fix nd iv rs nc assume "s_rudp s = NoDelay nd iv rs nc (s_rudp ?s)"
    then show ?thesis using ep_step.tune [of I ep nd iv rs nc] by (simp add: sim(4) r_into_rtranclp)
  next
    fix a b assume "s_rudp s = snd (WndSize a b (s_rudp ?s))"
    then show ?thesis using ep_step.windows [of I ep a b] by (simp add: sim(4) r_into_rtranclp)
  next
    fix x assume "s_rudp s = (s_rudp ?s)\<lparr>stream := x\<rparr>"
    then show ?thesis using ep_step.mode [of I ep x] by (simp add: sim(4) r_into_rtranclp)
  qed
  then show ?thesis using sok sim eff
    by (intro exI [of _ "ep\<lparr>ep_rudp := s_rudp s\<rparr>"]) (simp add: sess_sim_def on_wire_def)
qed

lemma sim_woken:
  assumes "sess_sim e ep"
  shows "sess_sim (e\<lparr>se_session := snd (write_select c (se_session e))\<rparr>) ep"
proof -
  have "session_ok (snd (write_select c (se_session e)))"
    by (cases c) (use sess_simD(1) [OF assms] in \<open>auto simp: write_select_def session_ok_def\<close>)
  then show ?thesis using assms by (cases c) (simp_all add: sess_sim_def write_select_def on_wire_def)
qed

lemma sess_step_sim:
  assumes "sess_step incoming e e'" "sess_sim e ep" "incoming \<subseteq> I"
  shows "\<exists>ep'. (ep_step I)\<^sup>*\<^sup>* ep ep' \<and> sess_sim e' ep'"
  using assms(1)
proof (cases rule: sess_step.cases)
  case (read b now now' n b' s h)
  then show ?thesis using sim_read [OF assms(2) read(2)] by simp
next
  case (wrote pick bufs now now' n s h)
  then show ?thesis using sim_write [OF assms(2) wrote(2)] by simp
next
  case (packet data s h)
  then show ?thesis using sim_packet [OF assms(2) _ packet(3,4)] assms(3) by blast
next
  case (timer now s h)
  then show ?thesis using sim_timer [OF assms(2) timer(2)] by simp
next
  case (setting ev s h)
  then show ?thesis using sim_setting [OF assms(2) setting(2,3)] by simp
next
  case (woken c)
  then show ?thesis using sim_woken [OF assms(2)] by blast
qed

lemma sess_sim_wire: "sess_sim e ep \<Longrightarrow> on_wire e \<subseteq> set (packets (ep_world ep))"
  by (simp add: sess_sim_def)

lemma net_left: "(ep_step (set (packets (ep_world b))))\<^sup>*\<^sup>* a a' \<Longrightarrow> net_step\<^sup>*\<^sup>* (a, b) (a', b)"
  by (induction rule: rtranclp_induct) (auto intro: net_step.left rtranclp.rtrancl_into_rtrancl)

lemma net_right: "(ep_step (set (packets (ep_world a))))\<^sup>*\<^sup>* b b' \<Longrightarrow> net_step\<^sup>*\<^sup>* (a, b) (a, b')"
  by (induction rule: rtranclp_induct) (auto intro: net_step.right rtranclp.rtrancl_into_rtrancl)

lemma sess_net_sim:
  "sess_net_step\<^sup>*\<^sup>* ab ab' \<Longrightarrow> sess_sim (fst ab) ea \<Longrightarrow> sess_sim (snd ab) eb \<Longrightarrow>
   \<exists>ea' eb'. net_step\<^sup>*\<^sup>* (ea, eb) (ea', eb') \<and> sess_sim (fst ab') ea' \<and> sess_sim (snd ab') eb'"
proof (induction rule: rtranclp_induct)
  case (step y z)
  then obtain ea1 eb1 where 1: "net_step\<^sup>*\<^sup>* (ea, eb) (ea1, eb1)" "sess_sim (fst y) ea1" "sess_sim (snd y) eb1" by blast
  from step.hyps(2) show ?case
  proof (cases rule: sess_net_step.cases)
    case (left b a a')
    then obtain ea2 where "(ep_step (set (packets (ep_world eb1))))\<^sup>*\<^sup>* ea1 ea2" "sess_sim a' ea2"
      using sess_step_sim [OF left(3), of ea1] 1(2,3) sess_sim_wire [of b eb1] by auto
    then show ?thesis using 1 left net_left rtranclp_trans by fastforce
  next
    case (right a b b')
    then obtain eb2 where "(ep_step (set (packets (ep_world ea1))))\<^sup>*\<^sup>* eb1 eb2" "sess_sim b' eb2"
      using sess_step_sim [OF right(3), of eb1] 1(2,3) sess_sim_wire [of a ea1] by auto
    then show ?thesis using 1 right net_right rtranclp_trans by fastforce
  qed
qed auto

lemma sess_sim_new:
  assumes "batches_ok h" "out_calls (h_world h) = []" "h_sent h = []"
  shows "\<exists>w. out_calls w = [] \<and> sess_sim (new_sess_end conv listener raddr xconn h) (new_endpoint conv w)"
proof -
  obtain s h1 where new: "newUDPSession conv False listener (\<not> listener) raddr xconn 0 h = (s, h1)"
    by (cases "newUDPSession conv False listener (\<not> listener) raddr xconn 0 h")
  have ok: "session_ok s" "batches_ok h1" using session_ok_new [of conv False listener "\<not> listener" raddr xconn 0 h] assms(1) new by simp_all
  have res: "snd (ReserveBytes 0 (NewRudp conv)) = NewRudp conv"
    by (simp add: ReserveBytes_def NewRudp_def zero_RUDP_def)
  have start: "s_rudp s = NewRudp conv" "s_bufPtr s = []" "\<not> s_block s" "out_calls (h_world h1) = []" "h_sent h1 = []"
    using new assms(2,3) by (auto simp: newUDPSession_def Let_def res add_stat_def)
  have "sess_sim (new_sess_end conv listener raddr xconn h) (new_endpoint conv (h_world h1))"
    using ok start by (simp add: sess_sim_def new_sess_end_def new new_endpoint_def on_wire_def)
  then show ?thesis using start(4) by blast
qed

text \<open>The two engines behind a run of two sessions.\<close>

lemma sess_run_invs:
  assumes "sess_net_step\<^sup>*\<^sup>* (new_sess_end conv la ra xa ha, new_sess_end conv lb rb xb hb) (a, b)"
    and "batches_ok ha" and "out_calls (h_world ha) = []" and "h_sent ha = []"
    and "batches_ok hb" and "out_calls (h_world hb) = []" and "h_sent hb = []"
  obtains ea eb where "sess_sim a ea" "sess_sim b eb" "net_inv conv (ea, eb)" "ack_inv conv ea eb"
    "length (ep_sent ea) \<le> length (se_app a)" "length (ep_sent eb) \<le> length (se_app b)"
proof -
  obtain wa where wa: "out_calls wa = []" "sess_sim (new_sess_end conv la ra xa ha) (new_endpoint conv wa)"
    using sess_sim_new [OF assms(2-4)] by blast
  obtain wb where wb: "out_calls wb = []" "sess_sim (new_sess_end conv lb rb xb hb) (new_endpoint conv wb)"
    using sess_sim_new [OF assms(5-7)] by blast
  obtain ea eb where run: "net_step\<^sup>*\<^sup>* (new_endpoint conv wa, new_endpoint conv wb) (ea, eb)" "sess_sim a ea" "sess_sim b eb"
    using sess_net_sim [OF assms(1)] wa(2) wb(2) unfolding fst_conv snd_conv by blast
  note inv = net_run_invs [OF run(1) wa(1) wb(1)]
  have "no_empty (new_endpoint conv w)" for w
    by (simp add: no_empty_def new_endpoint_def NewRudp_def zero_RUDP_def)
  then have "no_empty ea" "no_empty eb"
    using no_empty_run [OF run(1) net_inv_start [OF wa(1) wb(1)]] by simp_all
  then have "length (ep_sent ea) \<le> length (se_app a)" "length (ep_sent eb) \<le> length (se_app b)"
    using sent_le_bytes [of ea conv] sent_le_bytes [of eb conv] inv(1) run(2,3) by (simp_all add: net_inv_def sess_sim_def)
  then show thesis using that run(2,3) inv(1,2) by blast
qed

text \<open>Two fresh sessions; one writes three bytes.\<close>

abbreviation demo_ends :: "sess_end \<times> sess_end" where
  "demo_ends \<equiv> (new_sess_end 7 False ''b'' True (demo_host (\<lambda>_ l. Inr l)), new_sess_end 7 True ''a'' True (demo_host (\<lambda>_ l. Inr l)))"

lemma new_session_writes:
  assumes "newUDPSession 7 False False True raddr xconn 0 h = (s, h1)" "batches_ok h"
  shows "\<exists>s' h'. WriteBuffers EventCase [[1, 2, 3]] 0 0 s h1 = Some (Done 3, s', h')"
proof -
  have ok: "session_ok s" "batches_ok h1" using session_ok_new [of 7 False False True raddr xconn 0 h] assms by simp_all
  have "snd (ReserveBytes 0 (NewRudp 7)) = NewRudp 7" by (simp add: ReserveBytes_def NewRudp_def zero_RUDP_def)
  then have "s_rudp s = NewRudp 7" "socketWriteError s = None" "\<not> s_die s"
    using assms(1) by (auto simp: newUDPSession_def Let_def)
  moreover have "can_send (NewRudp 7)" by (simp add: can_send_def WaitSnd_def NewRudp_def zero_RUDP_def)
  ultimately show ?thesis
    using Write_poll_total [OF ok, of "[[1, 2, 3]]" 0 0] by (auto simp: WriteBuffers_def numeral_3_eq_3)
qed

lemma demo_write:
  "\<exists>a. sess_net_step\<^sup>*\<^sup>* demo_ends (a, snd demo_ends) \<and> se_app a = [1, 2, 3]"
  "batches_ok (demo_host (\<lambda>_ l. Inr l))" "out_calls (h_world (demo_host (\<lambda>_ l. Inr l))) = []" "h_sent (demo_host (\<lambda>_ l. Inr l)) = []"
  "se_app (snd demo_ends) = []"
proof -
  let ?h = "demo_host (\<lambda>_ l. Inr l)"
  let ?a = "new_sess_end 7 False ''b'' True ?h" and ?b = "new_sess_end 7 True ''a'' True ?h"
  have h: "batches_ok ?h" "out_calls (h_world ?h) = []" "h_sent ?h = []"
    by (simp_all add: batches_ok_def demo_host_def new_world_def)
  obtain s h1 where new: "newUDPSession 7 False False True ''b'' True 0 ?h = (s, h1)"
    by (cases "newUDPSession 7 False False True ''b'' True 0 ?h")
  then have a: "?a = \<lparr>se_session = s, se_host = h1, se_app = [], se_got = []\<rparr>" by (simp add: new_sess_end_def)
  obtain s' h' where w: "WriteBuffers EventCase [[1, 2, 3]] 0 0 s h1 = Some (Done 3, s', h')"
    using new_session_writes [OF new h(1)] by blast
  let ?a' = "?a\<lparr>se_session := s', se_host := h', se_app := se_app ?a @ take 3 (concat [[1, 2, 3]])\<rparr>"
  have "sess_step (on_wire ?b) ?a ?a'" by (rule sess_step.wrote [where pick = EventCase and now = 0 and now' = 0]) (simp add: a w)
  then have run: "sess_net_step\<^sup>*\<^sup>* (?a, ?b) (?a', ?b)" by (intro r_into_rtranclp sess_net_step.left)
  have app: "se_app ?a' = [1, 2, 3]" "se_app ?b = []" by (simp_all add: a) (simp add: new_sess_end_def split: prod.split)
  show "\<exists>a. sess_net_step\<^sup>*\<^sup>* demo_ends (a, snd demo_ends) \<and> se_app a = [1, 2, 3]"
    using run app(1) by (intro exI [of _ ?a']) simp
  show "batches_ok ?h" "out_calls (h_world ?h) = []" "h_sent ?h = []" by (rule h)+
  show "se_app (snd demo_ends) = []" using app(2) by simp
qed

section \<open>Properties\<close>

text \<open>
  End-to-end delivery for users. Two new sessions without cipher and with the same
  conversation number exchange datagrams over a network that loses, repeats and reorders them,
  with any interleaving of reads, writes, timer events, setting changes and socket errors on
  both sides. The bytes \<^verbatim>\<open>Read\<close> has returned on one side are a prefix of the bytes \<^verbatim>\<open>Write\<close> has
  reported as taken on the other, as long as fewer than \<open>2^32\<close> bytes were written each way.
\<close>

lemma sessions_deliver_prefix_one_way:
  assumes "sess_net_step\<^sup>*\<^sup>* (new_sess_end conv la ra xa ha, new_sess_end conv lb rb xb hb) (a, b)"
    and "batches_ok ha" and "out_calls (h_world ha) = []" and "h_sent ha = []"
    and "batches_ok hb" and "out_calls (h_world hb) = []" and "h_sent hb = []"
  shows "length (se_app a) < 2 ^ 32 \<Longrightarrow> prefix (se_got b) (se_app a)"
    and "length (se_app b) < 2 ^ 32 \<Longrightarrow> prefix (se_got a) (se_app b)"
proof -
  obtain ea eb where eng: "sess_sim a ea" "sess_sim b eb" "net_inv conv (ea, eb)"
    "length (ep_sent ea) \<le> length (se_app a)" "length (ep_sent eb) \<le> length (se_app b)"
    by (rule sess_run_invs [OF assms])
  show "prefix (se_got b) (se_app a)" if "length (se_app a) < 2 ^ 32"
  proof -
    have "length (ep_sent ea) < 2 ^ 32" using that eng(4) by linarith
    then have "prefix (ep_got eb) (ep_app ea)" using eng(3) by (auto simp: net_inv_def intro: flow_prefix)
    then show ?thesis using eng(1,2) by (auto simp: sess_sim_def dest: append_prefixD)
  qed
  show "prefix (se_got a) (se_app b)" if "length (se_app b) < 2 ^ 32"
  proof -
    have "length (ep_sent eb) < 2 ^ 32" using that eng(5) by linarith
    then have "prefix (ep_got ea) (ep_app eb)" using eng(3) by (auto simp: net_inv_def intro: flow_prefix)
    then show ?thesis using eng(1,2) by (auto simp: sess_sim_def dest: append_prefixD)
  qed
qed

lemma sessions_deliver_prefix:
  assumes "sess_net_step\<^sup>*\<^sup>* (new_sess_end conv la ra xa ha, new_sess_end conv lb rb xb hb) (a, b)"
    and "batches_ok ha" and "out_calls (h_world ha) = []" and "h_sent ha = []"
    and "batches_ok hb" and "out_calls (h_world hb) = []" and "h_sent hb = []"
    and "length (se_app a) < 2 ^ 32" and "length (se_app b) < 2 ^ 32"
  shows "prefix (se_got b) (se_app a) \<and> prefix (se_got a) (se_app b)"
  using sessions_deliver_prefix_one_way [OF assms(1-7)] assms(8,9) by blast

lemma sessions_deliver_prefix_witness:
  "\<exists>a b. sess_net_step\<^sup>*\<^sup>* demo_ends (a, b) \<and> se_app a = [1, 2, 3] \<and> prefix (se_got b) [1, 2, 3]"
proof -
  obtain a where a: "sess_net_step\<^sup>*\<^sup>* demo_ends (a, snd demo_ends)" "se_app a = [1, 2, 3]"
    using demo_write(1) by blast
  then have "prefix (se_got (snd demo_ends)) [1, 2, 3]"
    using sessions_deliver_prefix [OF a(1) demo_write(2-4) demo_write(2-4)] demo_write(5) by simp
  then show ?thesis using a by blast
qed

text \<open>
  Claim C1. Users lose no byte. In every run of two sessions as before, what one side's writes
  took is what the other side's user has read, then the rest of the message being read, then
  the receive queue, then the bytes still under way; and when the writer's \<^verbatim>\<open>WaitSnd\<close> is zero
  nothing is under way.
\<close>

theorem sessions_lose_nothing:
  assumes "sess_net_step\<^sup>*\<^sup>* (new_sess_end conv la ra xa ha, new_sess_end conv lb rb xb hb) (a, b)"
    and "batches_ok ha" and "out_calls (h_world ha) = []" and "h_sent ha = []"
    and "batches_ok hb" and "out_calls (h_world hb) = []" and "h_sent hb = []"
    and "length (se_app a) < 2 ^ 32"
  shows "\<exists>under_way. se_app a = se_got b @ s_bufPtr (se_session b) @ queue_bytes (rcvQueue (s_rudp (se_session b))) @ under_way \<and>
    (WaitSnd (s_rudp (se_session a)) = 0 \<longrightarrow> under_way = [])"
proof -
  obtain ea eb where eng: "sess_sim a ea" "sess_sim b eb" "net_inv conv (ea, eb)" "ack_inv conv ea eb"
    "length (ep_sent ea) \<le> length (se_app a)"
    by (rule sess_run_invs [OF assms(1-7)])
  have inv: "side_inv conv ea" "flow_inv ea eb" using eng(3) by (simp_all add: net_inv_def)
  have small: "length (ep_sent ea) < 2 ^ 32" using eng(5) assms(8) by linarith
  have sim: "ep_app ea = se_app a" "ep_rudp ea = s_rudp (se_session a)" "ep_rudp eb = s_rudp (se_session b)"
    "ep_got eb = se_got b @ s_bufPtr (se_session b)" using eng(1,2) by (simp_all add: sess_sim_def)
  obtain rest where rest: "ep_app ea = (ep_got eb @ queue_bytes (rcvQueue (ep_rudp eb))) @ rest"
    using flow_prefix_queued [OF inv small] by (auto simp: prefix_def)
  have "WaitSnd (ep_rudp ea) = 0 \<longrightarrow> rest = []"
    using nothing_lost_inv(2) [OF inv eng(4) small] rest by simp
  then show ?thesis using rest unfolding sim by (intro exI [of _ rest]) simp
qed

theorem sessions_lose_nothing_witness:
  "\<exists>a b under_way. sess_net_step\<^sup>*\<^sup>* demo_ends (a, b) \<and>
     [1, 2, 3] = se_got b @ s_bufPtr (se_session b) @ queue_bytes (rcvQueue (s_rudp (se_session b))) @ under_way"
proof -
  obtain a where a: "sess_net_step\<^sup>*\<^sup>* demo_ends (a, snd demo_ends)" "se_app a = [1, 2, 3]"
    using demo_write(1) by blast
  have "length (se_app a) < 2 ^ 32" using a(2) by simp
  from sessions_lose_nothing [OF a(1) demo_write(2-4) demo_write(2-4) this] obtain under_way where
    "[1, 2, 3] = se_got (snd demo_ends) @ s_bufPtr (se_session (snd demo_ends)) @
       queue_bytes (rcvQueue (s_rudp (se_session (snd demo_ends)))) @ under_way"
    unfolding a(2) by blast
  then show ?thesis using a(1) by blast
qed

end
