(* ===== verification/Session_Frame.thy ===== *)
theory Session_Frame
  imports Session_Safety
begin

text \<open>
  What the events of a session leave alone: its identity, and the messages waiting to be read.
\<close>

lemma flush_safe_frame: "safe r \<Longrightarrow> flush ackOnly r w = Some (v, r', w') \<Longrightarrow> flush_frame r r'"
  using flush_keeps [of r ackOnly w v r' w'] by (simp add: safe_def)

section \<open>Queues that nothing leaves\<close>

lemma parseData_extends:
  assumes "parseData seg r = Some (b, r')"
  shows "prefix (rcvQueue r) (rcvQueue r')"
proof -
  have "r' = r \<or> (\<exists>f. r' = move_to_queue (r\<lparr>rcvBuf := f\<rparr>))"
    using assms by (auto simp: parseData_def bind_eq_Some_conv Let_def split: if_splits prod.splits)
      (metis RUDP.surjective RUDP.update_convs(32))
  then show ?thesis using move_to_queue_appends [of "r\<lparr>rcvBuf := _\<rparr>"] by (auto simp: prefix_def)
qed

interpretation heading: input_contract "\<lambda>r _. safe r \<and> prefix qs (rcvQueue r)" "\<lambda>_ body. length body \<le> mtuLimit" for qs
proof
  fix r u sn ts h body conv b r' old ackOnly w v w' rtt x y
  show "safe r \<and> prefix qs (rcvQueue r) \<Longrightarrow> safe (ack_una u r) \<and> prefix qs (rcvQueue (ack_una u r))"
    using ack_una_frame [of u r] safety.keep_una by auto
  show "safe r \<and> prefix qs (rcvQueue r) \<Longrightarrow> safe (pushAck sn ts r) \<and> prefix qs (rcvQueue (pushAck sn ts r))"
    using safety.keep_pushAck by (simp add: pushAck_def)
  show "safe r \<and> prefix qs (rcvQueue r) \<Longrightarrow> length body \<le> mtuLimit \<Longrightarrow> hd_cmd h = IRUDP_CMD_PUSH \<Longrightarrow>
      parseData (push_segment conv h body) r = Some (b, r') \<Longrightarrow> safe r' \<and> prefix qs (rcvQueue r')"
    using safety.keep_store parseData_extends by (blast intro: prefix_order.trans)
  show "safe r \<and> prefix qs (rcvQueue r) \<Longrightarrow>
      safe (parseFastAck sn ts (parseAck sn r)) \<and> prefix qs (rcvQueue (parseFastAck sn ts (parseAck sn r)))"
    using parse_acks_frame [of sn ts r] safety.keep_ack by auto
  show "safe r \<and> prefix qs (rcvQueue r) \<Longrightarrow> safe (updateRTO rtt r) \<and> prefix qs (rcvQueue (updateRTO rtt r))"
    using updateRTO_frame [of rtt r] safety.keep_rtt by auto
  show "safe r \<and> prefix qs (rcvQueue r) \<Longrightarrow> grow_cwnd old r = Some r' \<Longrightarrow> safe r' \<and> prefix qs (rcvQueue r')"
    using grow_cwnd_frame [OF safe_mss, of r old r'] safety.keep_grow by auto
  show "safe r \<and> prefix qs (rcvQueue r) \<Longrightarrow> flush ackOnly r w = Some (v, r', w') \<Longrightarrow> safe r' \<and> prefix qs (rcvQueue r')"
    using flush_safe_frame [of r ackOnly w v r' w'] safety.keep_flush by (auto simp: flush_frame_def)
qed (auto intro: safety.keep_wnd safety.keep_ask)

text \<open>Only \<^verbatim>\<open>Read\<close> takes messages out; only packets a session without cipher receives add any.\<close>

definition same_id :: "UDPSession \<Rightarrow> UDPSession \<Rightarrow> bool" where
  "same_id s s' \<longleftrightarrow> s_remote s' = s_remote s \<and> s_listener s' = s_listener s \<and> s_block s' = s_block s \<and> s_die s' = s_die s"

definition unread :: "UDPSession \<Rightarrow> UDPSession \<Rightarrow> bool" where
  "unread s s' \<longleftrightarrow> same_id s s' \<and> s_bufPtr s' = s_bufPtr s \<and>
     prefix (rcvQueue (s_rudp s)) (rcvQueue (s_rudp s')) \<and> (s_block s \<longrightarrow> rcvQueue (s_rudp s') = rcvQueue (s_rudp s))"

lemma unread_refl: "unread s s"
  by (simp add: unread_def same_id_def)

lemma unread_same:
  "same_id s s' \<Longrightarrow> s_bufPtr s' = s_bufPtr s \<Longrightarrow> rcvQueue (s_rudp s') = rcvQueue (s_rudp s) \<Longrightarrow> unread s s'"
  by (simp add: unread_def)

lemma flush_safe_queue: "safe r \<Longrightarrow> flush b r w = Some (v, r', w') \<Longrightarrow> rcvQueue r' = rcvQueue r"
  by (drule (1) flush_safe_frame) (simp add: flush_frame_def)

lemma transmitted_unread:
  "transmitted s h r w s' h' \<Longrightarrow> rcvQueue r = rcvQueue (s_rudp s) \<Longrightarrow> unread s s'"
  unfolding transmitted_def same_settings_def by (intro unread_same) (simp_all add: same_id_def)

lemma cipher_ignores: "s_block s \<Longrightarrow> packetInput data s h = Some (s, h)"
  by (auto simp: packetInput_def)

lemma packet_unread:
  assumes "session_ok s" "batches_ok h" "length data \<le> mtuLimit" "packetInput data s h = Some (s', h')"
  shows "unread s s'"
proof (cases "s_block s \<or> length data < 24")
  case True
  then have "s' = s" using assms(4) cipher_ignores [of s data h] by (auto simp: packetInput_def)
  then show ?thesis by (simp add: unread_refl)
next
  case False
  then have eq: "rudpInput data s h = Some (s', h')" using assms(4) by (simp add: packetInput_def)
  obtain ret r w s1 h1 where i: "Input data True (s_ackNoDelay s) (s_rudp s) (h_world h) = Some (ret, r, w)"
    and "rudpInput data s h = Some (s1, h1)" "transmitted s h r w s1 h1" using rudpInput_total [OF assms(1-3)] by blast
  then have t: "transmitted s h r w s' h'" using eq by simp
  have "\<forall>(hd, body) \<in> set (snd (parse_packet (rudp_conv (s_rudp s)) data)). length body \<le> mtuLimit"
    using assms(3) parse_lengths [of _ _ "rudp_conv (s_rudp s)" data] by fastforce
  then have "prefix (rcvQueue (s_rudp s)) (rcvQueue r)"
    using heading.keep_Input [OF _ _ i, of "rcvQueue (s_rudp s)"] session_ok_safe [OF assms(1)] by simp
  then show ?thesis using t False by (auto simp: unread_def same_id_def transmitted_def same_settings_def)
qed

lemma write_unread:
  assumes "session_ok s" "batches_ok h" "can_send (s_rudp s)" "Write_poll bufs now now' s h = Some (x, s', h')"
  shows "unread s s'"
proof -
  obtain r s1 h1 where q: "queued (s_rudp s) (concat bufs) r"
    and w: "Write_poll bufs now now' s h = Some (Done (length (concat bufs)), s1, h1)"
    and c: "s1 = s\<lparr>s_rudp := r\<rparr> \<or> (\<exists>v r2 w. flush False r (h_world h) = Some (v, r2, w) \<and> transmitted s h r2 w s1 h1)"
    using Write_poll_total [OF assms(1-3), of bufs now now'] by blast
  have r: "rcvQueue r = rcvQueue (s_rudp s)" "safe r" using q by (auto simp: queued_def)
  have "s' = s1" using w assms(4) by simp
  then show ?thesis using c
  proof (elim disjE exE conjE)
    show "s' = s1 \<Longrightarrow> s1 = s\<lparr>s_rudp := r\<rparr> \<Longrightarrow> unread s s'" using r by (simp add: unread_same same_id_def)
  next
    fix v r2 w
    show "s' = s1 \<Longrightarrow> flush False r (h_world h) = Some (v, r2, w) \<Longrightarrow> transmitted s h r2 w s1 h1 \<Longrightarrow> unread s s'"
      using r flush_safe_queue transmitted_unread by metis
  qed
qed

lemma close_unread:
  assumes "session_ok s" "batches_ok h" "sess_Close s h = Some (c, s', h')"
  shows "unread (s\<lparr>s_die := True\<rparr>) s'"
proof (cases "s_die s")
  case True
  then have "s' = s" "s\<lparr>s_die := True\<rparr> = s" using assms(3) by (simp_all add: sess_Close_def)
  then show ?thesis by (simp add: unread_refl)
next
  case False
  obtain c' v r w s1 h1 where f: "flush False (s_rudp s) (h_world (add_stat CurrEstab_update (NOT 0) h)) = Some (v, r, w)"
    and cl: "sess_Close s h = Some (c', s1\<lparr>s_rudp := ReleaseTX r\<rparr>, h1)"
    and t: "transmitted (s\<lparr>s_die := True\<rparr>) (add_stat CurrEstab_update (NOT 0) h) r w s1 h1"
    using Close_effect [OF assms(1,2) False] by blast
  have "rcvQueue r = rcvQueue (s_rudp s)" using flush_safe_queue [OF session_ok_safe [OF assms(1)] f] .
  moreover have "s' = s1\<lparr>s_rudp := ReleaseTX r\<rparr>" using cl assms(3) by simp
  ultimately show ?thesis using t by (intro unread_same) (simp_all add: same_id_def transmitted_def same_settings_def ReleaseTX_def)
qed

lemma update_unread:
  assumes "session_ok s" "batches_ok h" "update_sess now s h = Some (s', h')"
  shows "unread s s'"
proof (cases "s_die s")
  case True
  then show ?thesis using assms(3) by (simp add: update_sess_def unread_refl)
next
  case False
  obtain v r w s1 h1 where f: "flush False (s_rudp s) (h_world h) = Some (v, r, w)"
      and u: "update_sess now s h = Some (s1, h1\<lparr>h_puts := h_puts h @ [now + int (unat v) * 1000000]\<rparr>)"
      and t: "transmitted s h r w s1 h1"
    using update_total [OF assms(1,2), of now] False by blast
  have "s' = s1" using u assms(3) by simp
  then show ?thesis using transmitted_unread [OF t flush_safe_queue [OF session_ok_safe [OF assms(1)] f]] by simp
qed

lemma event_unread:
  assumes "session_ok s" "batches_ok h" "can_happen ev s" "run_event ev s h = Some (s', h')"
    and "\<And>b now now'. ev \<noteq> Ev_Read b now now'"
  shows "unread (if ev = Ev_Close then s\<lparr>s_die := True\<rparr> else s) s'"
proof (cases ev)
  case (Ev_Write pick bufs now now')
  then obtain x where w: "WriteBuffers pick bufs now now' s h = Some (x, s', h')" using assms(4) by (auto simp: bind_eq_Some_conv)
  show ?thesis
  proof (cases "socketWriteError s = None \<and> \<not> s_die s \<and> can_send (s_rudp s)")
    case True
    then have "Write_poll bufs now now' s h = Some (x, s', h')" using w by (simp add: WriteBuffers_def)
    then have "unread s s'" using write_unread [OF assms(1,2)] True by blast
    then show ?thesis using Ev_Write by simp
  next
    case False
    then have "s' = s" using w by (cases pick) (auto simp: WriteBuffers_def write_select_def Write_poll_def split: if_splits)
    then show ?thesis using Ev_Write by (simp add: unread_refl)
  qed
next
  case (Ev_Packet data)
  then show ?thesis using packet_unread [OF assms(1,2)] assms(3,4) by simp
next
  case (Ev_Update now)
  then show ?thesis using update_unread [OF assms(1,2)] assms(4) by simp
next
  case Ev_Close
  then obtain c where "sess_Close s h = Some (c, s', h')" using assms(4) by (auto simp: bind_eq_Some_conv)
  then have "unread (s\<lparr>s_die := True\<rparr>) s'" by (rule close_unread [OF assms(1,2)])
  then show ?thesis using Ev_Close by simp
next
  case (Ev_Wake c)
  then show ?thesis using assms(4) by (cases c) (auto simp: read_select_def same_id_def intro: unread_same)
qed (use assms(4,5) in \<open>auto simp: same_id_def SetDeadline_def SetWriteDelay_def SetACKNoDelay_def notifyReadError_def
    notifyReadEvent_def notifyWriteEvent_def SetNoDelay_def NoDelay_frame SetWindowSize_def WndSize_frame sess_SetMtu_def
    SetMtu_def Let_def SetStreamMode_def intro!: unread_same split: if_splits\<close>)

text \<open>Only \<^verbatim>\<open>Close\<close> ends a session, and none changes its identity.\<close>

lemma event_same_id:
  assumes "session_ok s" "batches_ok h" "can_happen ev s" "run_event ev s h = Some (s', h')" "ev \<noteq> Ev_Close"
  shows "same_id s s'"
proof (cases "\<exists>b now now'. ev = Ev_Read b now now'")
  case True
  then obtain b now now' where ev: "ev = Ev_Read b now now'" by blast
  show ?thesis
    by (cases rule: Read_poll_cases [of s b now now' h]) (use ev assms(4) in \<open>auto simp: same_id_def\<close>)
next
  case False
  then have "unread s s'" using event_unread [OF assms(1-4)] assms(5) by auto
  then show ?thesis by (simp add: unread_def)
qed

end
