(* ===== verification/Session_Events.thy ===== *)
theory Session_Events
  imports Session_Frame
begin

text \<open>
  Blocking and waking, and the ways a session can be made deaf: the wake-ups of \<^verbatim>\<open>Read\<close> and
  \<^verbatim>\<open>Write\<close>, the batched read loop, empty messages, ciphers, and the result of \<^verbatim>\<open>SetMtu\<close>.
\<close>

section \<open>What other events leave to a blocked caller\<close>

text \<open>
  What other goroutines may do while a reader (\<open>rd\<close>) or a writer (\<open>wr\<close>) waits: anything, but no
  other waiting \<^verbatim>\<open>Read\<close> takes the reader's event, and \<^verbatim>\<open>SetWindowSize\<close>, which does not wake a
  writer, is left out for writers.
\<close>

fun leaves_waiting :: "bool \<Rightarrow> bool \<Rightarrow> sess_event \<Rightarrow> bool" where
  "leaves_waiting rd wr (Ev_Wake c) \<longleftrightarrow> \<not> rd"
| "leaves_waiting rd wr (Ev_WindowSize a b) \<longleftrightarrow> \<not> wr"
| "leaves_waiting rd wr ev \<longleftrightarrow> True"

text \<open>
  While a reader (\<open>rd\<close>) or a writer (\<open>wr\<close>) waits, its event is pending as soon as its call
  can go on.
\<close>

definition wake_inv :: "bool \<Rightarrow> bool \<Rightarrow> UDPSession \<Rightarrow> bool" where
  "wake_inv rd wr s \<longleftrightarrow> session_ok s \<and>
     (rd \<longrightarrow> peekSize (s_rudp s) > 0 \<longrightarrow> chReadEvent s) \<and> (wr \<longrightarrow> can_send (s_rudp s) \<longrightarrow> chWriteEvent s \<or> s_die s)"

lemma peekSize_cong: "rcvQueue r' = rcvQueue r \<Longrightarrow> peekSize r' = peekSize r"
  by (cases "rcvQueue r") (simp_all add: peekSize_def)

lemma can_send_cong:
  "sndBuf r' = sndBuf r \<Longrightarrow> sndQueue r' = sndQueue r \<Longrightarrow> sndWnd r' = sndWnd r \<Longrightarrow> rmtWnd r' = rmtWnd r \<Longrightarrow> can_send r' = can_send r"
  by (simp add: can_send_def WaitSnd_def)

lemma flush_peekSize: "safe r \<Longrightarrow> flush ackOnly r w = Some (v, r', w') \<Longrightarrow> peekSize r' = peekSize r"
proof -
  assume "safe r" "flush ackOnly r w = Some (v, r', w')"
  then have "rcvQueue r' = rcvQueue r" using flush_safe_frame by (simp add: flush_frame_def)
  then show ?thesis by (rule peekSize_cong)
qed

lemma wake_inv_cong:
  "wake_inv rd wr s \<Longrightarrow> session_ok s' \<Longrightarrow> peekSize (s_rudp s') = peekSize (s_rudp s) \<Longrightarrow> chReadEvent s' = chReadEvent s \<Longrightarrow>
   can_send (s_rudp s') = can_send (s_rudp s) \<Longrightarrow> chWriteEvent s' = chWriteEvent s \<Longrightarrow> s_die s' = s_die s \<Longrightarrow> wake_inv rd wr s'"
  by (simp add: wake_inv_def)

lemma wake_inv_packet:
  assumes "wake_inv rd wr s" "batches_ok h" "length data \<le> mtuLimit" "packetInput data s h = Some (s', h')" "session_ok s'"
  shows "wake_inv rd wr s'"
proof (cases "\<not> (s_block s \<and> length data > 20) \<and> length data \<ge> 24")
  case False
  then have "s' = s" using assms(4) by (auto simp: packetInput_def split: if_splits)
  then show ?thesis using assms(1) by simp
next
  case True
  then have "rudpInput data s h = Some (s', h')" using assms(4) by (cases "s_block s") (simp_all add: packetInput_def)
  moreover have "session_ok s" using assms(1) by (simp add: wake_inv_def)
  then obtain ret r w s1 h1 where "rudpInput data s h = Some (s1, h1)" "transmitted s h r w s1 h1"
     "chReadEvent s1 = (peekSize r > 0 \<or> chReadEvent s)" "chWriteEvent s1 = (can_send r \<or> chWriteEvent s)"
    using rudpInput_total [OF _ assms(2,3)] by blast
  ultimately show ?thesis using assms(5) by (auto simp: wake_inv_def transmitted_def)
qed

lemma wake_inv_update:
  assumes "wake_inv rd wr s" "batches_ok h" "update_sess now s h = Some (s', h')" "session_ok s'"
  shows "wake_inv rd wr s'"
proof (cases "s_die s")
  case True
  then have "s' = s" using assms(3) by (simp add: update_sess_def)
  then show ?thesis using assms(1) by simp
next
  case False
  have ok: "session_ok s" using assms(1) by (simp add: wake_inv_def)
  obtain v r w s1 h1 where f: "flush False (s_rudp s) (h_world h) = Some (v, r, w)"
      and u: "update_sess now s h = Some (s1, h1\<lparr>h_puts := h_puts h @ [now + int (unat v) * 1000000]\<rparr>)"
      and t: "transmitted s h r w s1 h1" and ev: "chWriteEvent s1 = (can_send r \<or> chWriteEvent s)" "chReadEvent s1 = chReadEvent s"
    using update_total [OF ok assms(2), of now] False by blast
  have "s' = s1" using u assms(3) by simp
  moreover have "s_rudp s1 = r" using t unfolding transmitted_def by blast
  ultimately show ?thesis
    using assms(1,4) ev flush_peekSize [OF session_ok_safe [OF ok] f] by (simp add: wake_inv_def)
qed

lemma wake_inv_close:
  assumes "wake_inv rd wr s" "batches_ok h" "sess_Close s h = Some (c, s', h')" "session_ok s'"
  shows "wake_inv rd wr s'"
proof (cases "s_die s")
  case True
  then have "s' = s" using assms(3) by (simp add: sess_Close_def)
  then show ?thesis using assms(1) by simp
next
  case False
  have ok: "session_ok s" using assms(1) by (simp add: wake_inv_def)
  obtain c' v r w s1 h1 where f: "flush False (s_rudp s) (h_world (add_stat CurrEstab_update (NOT 0) h)) = Some (v, r, w)"
    and cl: "sess_Close s h = Some (c', s1\<lparr>s_rudp := ReleaseTX r\<rparr>, h1)"
    and t: "transmitted (s\<lparr>s_die := True\<rparr>) (add_stat CurrEstab_update (NOT 0) h) r w s1 h1" and ev: "chReadEvent s1 = chReadEvent s"
    using Close_effect [OF ok assms(2) False] by blast
  have "s' = s1\<lparr>s_rudp := ReleaseTX r\<rparr>" using cl assms(3) by simp
  moreover have "s_die s1" using t unfolding transmitted_def same_settings_def by simp
  moreover have "peekSize (ReleaseTX r) = peekSize (s_rudp s)"
    by (rule trans [OF peekSize_cong flush_peekSize [OF session_ok_safe [OF ok] f]]) (simp add: ReleaseTX_def)
  ultimately show ?thesis using assms(1,4) ev by (simp add: wake_inv_def)
qed

lemma wake_inv_settings:
  assumes "wake_inv rd wr s"
  shows "session_ok (SetNoDelay nd iv rs nc s) \<Longrightarrow> wake_inv rd wr (SetNoDelay nd iv rs nc s)"
    and "session_ok (snd (sess_SetMtu m s)) \<Longrightarrow> wake_inv rd wr (snd (sess_SetMtu m s))"
    and "session_ok (SetStreamMode b s) \<Longrightarrow> wake_inv rd wr (SetStreamMode b s)"
proof -
  note c = wake_inv_cong [OF assms]
  have "peekSize (NoDelay nd iv rs nc r) = peekSize r" "can_send (NoDelay nd iv rs nc r) = can_send r" for r
    by (rule peekSize_cong can_send_cong; simp add: NoDelay_frame NoDelay_def Let_def)+
  then show "session_ok (SetNoDelay nd iv rs nc s) \<Longrightarrow> wake_inv rd wr (SetNoDelay nd iv rs nc s)"
    by (elim c) (simp_all add: SetNoDelay_def)
  have "peekSize (snd (SetMtu m r)) = peekSize r" "can_send (snd (SetMtu m r)) = can_send r" for r
    by (rule peekSize_cong can_send_cong; simp add: SetMtu_def Let_def)+
  then show "session_ok (snd (sess_SetMtu m s)) \<Longrightarrow> wake_inv rd wr (snd (sess_SetMtu m s))"
    by (elim c) (simp_all add: sess_SetMtu_def)
  have "peekSize (r\<lparr>stream := x\<rparr>) = peekSize r" "can_send (r\<lparr>stream := x\<rparr>) = can_send r" for r x
    by (rule peekSize_cong can_send_cong; simp)+
  then show "session_ok (SetStreamMode b s) \<Longrightarrow> wake_inv rd wr (SetStreamMode b s)"
    by (elim c) (simp_all add: SetStreamMode_def)
qed

lemma wake_inv_read:
  assumes "wake_inv rd wr s" "Read_poll b now now' s h = Some (res, b', s', h')" "session_ok s'"
  shows "wake_inv rd wr s'"
proof (cases rule: Read_poll_cases [of s b now now' h])
  case (rest n b1)
  then show ?thesis using assms by (simp add: wake_inv_def)
next
  case (message n b1 buf msg r rb bp)
  obtain a q f p where "r = (s_rudp s)\<lparr>rcvNxt := a, rcvQueue := q, rcvBuf := f, probe := p\<rparr>"
    using Receive_frame [OF message(3)] by blast
  then have "can_send r = can_send (s_rudp s)" by (simp add: can_send_def WaitSnd_def)
  then show ?thesis using assms message(2,8) by (auto simp: wake_inv_def)
next
  case empty
  then show ?thesis using assms by simp
qed

text \<open>A write touches no event and nothing that was received.\<close>

lemma output_calls_events:
  "output_calls q s = Some s' \<Longrightarrow> chReadEvent s' = chReadEvent s \<and> chWriteEvent s' = chWriteEvent s \<and> s_die s' = s_die s"
  by (induction q s rule: output_calls.induct) (auto simp: sess_output_def bind_eq_Some_conv split: if_splits)

lemma engine_events:
  "engine f s h = Some (v, s', h') \<Longrightarrow> chReadEvent s' = chReadEvent s \<and> chWriteEvent s' = chWriteEvent s \<and> s_die s' = s_die s"
  by (auto simp: engine_def bind_eq_Some_conv dest!: output_calls_events)

lemma uncork_events:
  assumes "batches_ok h" "uncork s h = Some (s', h')"
  shows "chReadEvent s' = chReadEvent s \<and> chWriteEvent s' = chWriteEvent s \<and> s_die s' = s_die s"
proof -
  obtain s1 h1 where 1: "uncork s h = Some (s1\<lparr>txqueue := []\<rparr>, h1)" "tx_frame s s1"
    using uncork_from [OF assms(1), of s] unfolding sent_from_def by blast
  then have "s' = s1\<lparr>txqueue := []\<rparr>" using assms(2) by simp
  then show ?thesis using tx_frame_simps [OF 1(2)] by simp
qed

lemma engine_batches: "engine f s h = Some (v, s', h') \<Longrightarrow> batches_ok h \<Longrightarrow> batches_ok h'"
  by (auto simp: engine_def bind_eq_Some_conv batches_ok_def)

lemma write_events:
  assumes "batches_ok h" "Write_poll bufs now now' s h = Some (res, s', h')"
  shows "chReadEvent s' = chReadEvent s \<and> chWriteEvent s' = chWriteEvent s \<and> s_die s' = s_die s"
proof (cases "can_send (s_rudp s)")
  case True
  obtain n r where r: "write_bufs bufs 0 (s_rudp s) = Some (n, r)" using assms(2) True by (auto simp: Write_poll_def bind_eq_Some_conv)
  show ?thesis
  proof (cases "\<not> can_send r \<or> \<not> writeDelay s")
    case True
    then obtain v s1 h1 h2 where 1: "engine (flush False) (s\<lparr>s_rudp := r\<rparr>) h = Some (v, s1, h1)" "uncork s1 h1 = Some (s', h2)"
      using assms(2) r \<open>can_send (s_rudp s)\<close> by (auto simp: Write_poll_def bind_eq_Some_conv)
    show ?thesis using engine_events [OF 1(1)] uncork_events [OF engine_batches [OF 1(1) assms(1)] 1(2)] by simp
  next
    case False
    then show ?thesis using assms(2) r \<open>can_send (s_rudp s)\<close> by (auto simp: Write_poll_def)
  qed
next
  case False
  then show ?thesis using assms(2) by (simp add: Write_poll_def)
qed

lemma wake_inv_write:
  assumes "wake_inv rd wr s" "batches_ok h" "Write_poll bufs now now' s h = Some (res, s', h')" "session_ok s'"
  shows "wake_inv rd wr s'"
proof (cases "can_send (s_rudp s)")
  case True
  have ok: "session_ok s" using assms(1) by (simp add: wake_inv_def)
  obtain r s1 h1 where q: "queued (s_rudp s) (concat bufs) r"
    and w: "Write_poll bufs now now' s h = Some (Done (length (concat bufs)), s1, h1)"
    and c: "s1 = s\<lparr>s_rudp := r\<rparr> \<or> (\<exists>v r2 w. flush False r (h_world h) = Some (v, r2, w) \<and> transmitted s h r2 w s1 h1)"
    using Write_poll_total [OF ok assms(2) True, of bufs now now'] by blast
  have "safe r" "rcvQueue r = rcvQueue (s_rudp s)" using q by (auto simp: queued_def)
  then have r: "peekSize r = peekSize (s_rudp s)" "safe r" using peekSize_cong by blast+
  have "s' = s1" using w assms(3) by simp
  moreover have "peekSize (s_rudp s1) = peekSize (s_rudp s)"
    using c
  proof
    assume "\<exists>v r2 w. flush False r (h_world h) = Some (v, r2, w) \<and> transmitted s h r2 w s1 h1"
    then obtain v r2 w where 2: "flush False r (h_world h) = Some (v, r2, w)" "s_rudp s1 = r2"
      unfolding transmitted_def by blast
    show ?thesis using flush_peekSize [OF r(2) 2(1)] 2(2) r(1) by simp
  qed (use r(1) in simp)
  ultimately show ?thesis using write_events [OF assms(2,3)] assms(1,4) True by (simp add: wake_inv_def)
next
  case False
  then show ?thesis using assms(1,3) by (simp add: Write_poll_def)
qed

lemma wake_inv_event:
  assumes "wake_inv rd wr s" "batches_ok h" "can_happen ev s" "leaves_waiting rd wr ev" "run_event ev s h = Some (s', h')"
  shows "wake_inv rd wr s'"
proof -
  have "session_ok s" using assms(1) by (simp add: wake_inv_def)
  then have ok': "session_ok s'" using run_event_total [OF _ assms(2,3)] assms(5) by auto
  show ?thesis
  proof (cases ev)
    case (Ev_Read b now now')
    then obtain res b' where "Read_poll b now now' s h = Some (res, b', s', h')" using assms(5) by (auto simp: bind_eq_Some_conv)
    then show ?thesis by (rule wake_inv_read [OF assms(1) _ ok'])
  next
    case (Ev_Write pick bufs now now')
    then obtain res where run: "WriteBuffers pick bufs now now' s h = Some (res, s', h')" using assms(5) by (auto simp: bind_eq_Some_conv)
    show ?thesis
    proof (cases "socketWriteError s \<noteq> None \<or> s_die s")
      case True
      then have "s' = s" using run by (cases pick) (auto simp: WriteBuffers_def write_select_def)
      then show ?thesis using assms(1) by simp
    next
      case False
      then have "Write_poll bufs now now' s h = Some (res, s', h')" using run by (auto simp: WriteBuffers_def)
      then show ?thesis by (rule wake_inv_write [OF assms(1,2) _ ok'])
    qed
  next
    case (Ev_Wake c)
    then have "s' = snd (read_select c s)" "\<not> rd" using assms(4,5) by simp_all
    then show ?thesis using assms(1) ok' by (cases c) (auto simp: wake_inv_def read_select_def)
  next
    case (Ev_WindowSize x y)
    then have s': "s' = SetWindowSize x y s" "\<not> wr" using assms(4,5) by simp_all
    have "peekSize (snd (WndSize x y r)) = peekSize r" for r by (rule peekSize_cong) (simp add: WndSize_def Let_def)
    then show ?thesis using assms(1) ok' s' by (simp add: wake_inv_def SetWindowSize_def)
  next
    case (Ev_Packet data)
    then show ?thesis using wake_inv_packet [OF assms(1,2) _ _ ok'] assms(3,5) by simp
  next
    case (Ev_Update now)
    then show ?thesis using wake_inv_update [OF assms(1,2) _ ok'] assms(5) by simp
  next
    case Ev_Close
    then obtain c where "sess_Close s h = Some (c, s', h')" using assms(5) by (auto simp: bind_eq_Some_conv)
    then show ?thesis by (rule wake_inv_close [OF assms(1,2) _ ok'])
  next
    case (Ev_NoDelay nd iv rs nc)
    then have "s' = SetNoDelay nd iv rs nc s" using assms(5) by simp
    then show ?thesis using wake_inv_settings(1) [OF assms(1)] ok' by blast
  next
    case (Ev_Mtu m)
    then have "s' = snd (sess_SetMtu m s)" using assms(5) by simp
    then show ?thesis using wake_inv_settings(2) [OF assms(1)] ok' by blast
  next
    case (Ev_StreamMode b)
    then have "s' = SetStreamMode b s" using assms(5) by simp
    then show ?thesis using wake_inv_settings(3) [OF assms(1)] ok' by blast
  qed (use assms(1,4,5) ok' in \<open>auto simp: wake_inv_def SetDeadline_def SetWriteDelay_def SetACKNoDelay_def
      notifyReadError_def notifyReadEvent_def notifyWriteEvent_def\<close>)
qed

lemma wake_inv_events:
  "wake_inv rd wr s \<Longrightarrow> batches_ok h \<Longrightarrow> \<forall>ev \<in> set evs. leaves_waiting rd wr ev \<Longrightarrow> run_events evs s h = Some (s', h') \<Longrightarrow> wake_inv rd wr s'"
proof (induction evs arbitrary: s h)
  case (Cons ev evs)
  show ?case
  proof (cases "can_happen ev s")
    case True
    have ok: "session_ok s" using Cons.prems(1) by (simp add: wake_inv_def)
    obtain s1 h1 where 1: "run_event ev s h = Some (s1, h1)" "batches_ok h1"
      using run_event_total [OF ok Cons.prems(2) True] by blast
    have "wake_inv rd wr s1" by (rule wake_inv_event [OF Cons.prems(1,2) True _ 1(1)]) (use Cons.prems(3) in simp)
    then show ?thesis using Cons.IH [of s1 h1] 1 Cons.prems(3,4) True by simp
  next
    case False
    then show ?thesis using Cons by simp
  qed
qed simp

section \<open>Reads that never succeed\<close>

text \<open>A session whose reads can never succeed again.\<close>

definition deaf :: "UDPSession \<Rightarrow> bool" where
  "deaf s \<longleftrightarrow> s_bufPtr s = [] \<and> (s_block s \<and> rcvQueue (s_rudp s) = [] \<or>
     (\<exists>x q. rcvQueue (s_rudp s) = x # q \<and> seg_frg x = 0 \<and> seg_data x = []))"

lemma deaf_Read:
  assumes "deaf s"
  shows "Read_poll b now now' s h = Some (deadline_wait (readDdl s) now now', b, s, h)"
proof -
  have "s_bufPtr s = []" "peekSize (s_rudp s) \<le> 0" using assms by (auto simp: deaf_def peekSize_def)
  then show ?thesis by (simp add: Read_poll_def)
qed

lemma deaf_unread: "unread s s' \<Longrightarrow> deaf s \<Longrightarrow> deaf s'"
  by (auto simp: unread_def same_id_def deaf_def prefix_def)

lemma deaf_events:
  "session_ok s \<Longrightarrow> batches_ok h \<Longrightarrow> deaf s \<Longrightarrow> run_events evs s h = Some (s', h') \<Longrightarrow> deaf s'"
proof (induction evs arbitrary: s h)
  case (Cons ev evs)
  show ?case
  proof (cases "can_happen ev s")
    case True
    obtain s1 h1 where 1: "run_event ev s h = Some (s1, h1)" "session_ok s1" "batches_ok h1"
      using run_event_total [OF Cons.prems(1,2) True] by blast
    have "deaf s1"
    proof (cases "\<exists>b now now'. ev = Ev_Read b now now'")
      case True
      then show ?thesis using 1(1) Cons.prems(3) by (auto simp: deaf_Read)
    next
      case False
      have "deaf (if ev = Ev_Close then s\<lparr>s_die := True\<rparr> else s)" using Cons.prems(3) by (simp add: deaf_def)
      moreover have "unread (if ev = Ev_Close then s\<lparr>s_die := True\<rparr> else s) s1"
        using event_unread [OF Cons.prems(1,2) \<open>can_happen ev s\<close> 1(1)] False by blast
      ultimately show ?thesis using deaf_unread by blast
    qed
    then show ?thesis using Cons.IH [OF 1(2,3)] 1 Cons.prems(4) True by simp
  next
    case False
    then show ?thesis using Cons by simp
  qed
qed simp

section \<open>The two read loops\<close>

lemma read_batch_append:
  "read_batch (ms @ ms') src s h = do { (src, s, h) \<leftarrow> read_batch ms src s h; read_batch ms' src s h }"
  by (induction ms src s h rule: read_batch.induct) (auto split: option.splits bind_splits)

lemma read_batches_prefix:
  "read_batches (map Inr bs @ rest) singles src s h =
    do { (src, s, h) \<leftarrow> read_batch (concat bs) src s h; read_batches rest singles src s h }"
  by (induction bs arbitrary: src s h) (auto simp: read_batch_append split: bind_splits)

lemma defaultReadLoop_prefix:
  "defaultReadLoop (map Inr ms @ rest) src s h =
    do { (src, s, h) \<leftarrow> read_batch ms src s h; defaultReadLoop rest src s h }"
  by (induction ms src s h rule: read_batch.induct) (auto split: option.splits bind_splits)

section \<open>Properties\<close>

text \<open>The session and host of the witnesses.\<close>

lemma demo_ok: "session_ok demo_session" "batches_ok (demo_host (\<lambda>_ l. Inr l))"
proof -
  have "fits_mss (NewRudp 7)" "mtu (NewRudp 7) = 1400" "reserved (NewRudp 7) = 0"
    by (simp_all add: fits_mss_def NewRudp_def zero_RUDP_def)
  then show "session_ok demo_session" using sizes_ok_NewRudp [of 7] by (simp add: session_ok_def safe_def demo_session_def)
  show "batches_ok (demo_host (\<lambda>_ l. Inr l))" by (simp add: batches_ok_def demo_host_def)
qed

text \<open>
  Claim C19. No wake-up is lost. While a \<^verbatim>\<open>Read\<close> waits in its \<^verbatim>\<open>select\<close>, after any packets, timer
  events, writes, other reads that do not wait, \<^verbatim>\<open>Close\<close>, errors and settings its event is pending
  as soon as a message can be read, as long as no other waiting \<^verbatim>\<open>Read\<close> has taken that event. While
  a \<^verbatim>\<open>Write\<close> waits alone, after any such events and wake-ups of reads its event is pending or the
  session closed as soon as there is room, as long as \<^verbatim>\<open>SetWindowSize\<close> is not called, which makes
  room without waking it (\<open>window_size_wakes_nobody\<close>).
\<close>

theorem blocked_calls_are_woken:
  assumes "session_ok s" and "batches_ok h" and "run_events evs s h = Some (s', h')"
  shows "(Read_poll b now now' s h = Some (Wait d, b, s, h) \<longrightarrow> (\<forall>ev \<in> set evs. \<forall>c. ev \<noteq> Ev_Wake c) \<longrightarrow>
       peekSize (s_rudp s') > 0 \<longrightarrow> read_ready False s' EventCase) \<and>
    (Write_poll bufs now now' s h = Some (Wait d, s, h) \<longrightarrow> (\<forall>ev \<in> set evs. \<forall>x y. ev \<noteq> Ev_WindowSize x y) \<longrightarrow>
       can_send (s_rudp s') \<longrightarrow> write_ready False s' EventCase \<or> write_ready False s' DieCase)"
proof (intro conjI impI)
  assume "Read_poll b now now' s h = Some (Wait d, b, s, h)" and evs: "\<forall>ev \<in> set evs. \<forall>c. ev \<noteq> Ev_Wake c"
    and peek: "peekSize (s_rudp s') > 0"
  from this(1) have "\<not> peekSize (s_rudp s) > 0"
    by (cases rule: Read_poll_cases [of s b now now' h]) simp_all
  then have "wake_inv True False s" using assms(1) by (simp add: wake_inv_def)
  moreover have "\<forall>ev \<in> set evs. leaves_waiting True False ev"
    using evs by (metis leaves_waiting.elims(3))
  ultimately have "wake_inv True False s'" by (rule wake_inv_events [OF _ assms(2) _ assms(3)])
  then show "read_ready False s' EventCase" using peek by (simp add: wake_inv_def read_ready_def)
next
  assume "Write_poll bufs now now' s h = Some (Wait d, s, h)" and evs: "\<forall>ev \<in> set evs. \<forall>x y. ev \<noteq> Ev_WindowSize x y"
    and room: "can_send (s_rudp s')"
  from this(1) have "\<not> can_send (s_rudp s)"
    using Write_poll_total [OF assms(1,2), of bufs now now'] by auto
  then have "wake_inv False True s" using assms(1) by (simp add: wake_inv_def)
  moreover have "\<forall>ev \<in> set evs. leaves_waiting False True ev"
    using evs by (metis leaves_waiting.elims(3))
  ultimately have "wake_inv False True s'" by (rule wake_inv_events [OF _ assms(2) _ assms(3)])
  then show "write_ready False s' EventCase \<or> write_ready False s' DieCase" using room by (simp add: wake_inv_def write_ready_def)
qed

text \<open>
  A reader and a writer wait, the writer for the remote window; a packet with one byte arrives,
  which also opens the window.
\<close>

definition waiting_session :: UDPSession where
  "waiting_session = demo_session\<lparr>s_rudp := (s_rudp demo_session)\<lparr>rmtWnd := 0\<rparr>\<rparr>"

definition byte_packet :: "u8 list" where
  "byte_packet = seg_wire (zero_segment\<lparr>seg_conv := 7, seg_cmd := IRUDP_CMD_PUSH, seg_wnd := 32, seg_data := [9]\<rparr>)"

lemma byte_packet_arrives:
  "map_option (\<lambda>(s, h). peekSize (s_rudp s) > 0 \<and> can_send (s_rudp s) \<and> \<not> s_die s)
     (run_events [Ev_Deadline None, Ev_Packet byte_packet] waiting_session (demo_host (\<lambda>_ l. Inr l))) = Some True"
  by code_simp

theorem blocked_calls_are_woken_witness:
  "\<exists>s' h'. run_events [Ev_Deadline None, Ev_Packet byte_packet] waiting_session (demo_host (\<lambda>_ l. Inr l)) = Some (s', h') \<and>
     peekSize (s_rudp s') > 0 \<and> read_ready False s' EventCase \<and> can_send (s_rudp s') \<and> write_ready False s' EventCase"
proof -
  let ?h = "demo_host (\<lambda>_ l. Inr l)" and ?evs = "[Ev_Deadline None, Ev_Packet byte_packet]"
  have ok: "session_ok waiting_session" unfolding waiting_session_def
    by (rule session_ok_cong [OF demo_ok(1)]) (use safe_cong [OF session_ok_safe [OF demo_ok(1)]] in simp_all)
  obtain s' h' where run: "run_events ?evs waiting_session ?h = Some (s', h')"
    "peekSize (s_rudp s') > 0" "can_send (s_rudp s')" "\<not> s_die s'" using byte_packet_arrives by auto
  have "Read_poll [] 0 0 waiting_session ?h = Some (Wait None, [], waiting_session, ?h)"
    "Write_poll [] 0 0 waiting_session ?h = Some (Wait None, waiting_session, ?h)"
    by (simp_all add: Read_poll_def Write_poll_def deadline_wait_def waiting_session_def demo_session_def peekSize_def can_send_def
        NewRudp_def zero_RUDP_def)
  with blocked_calls_are_woken [OF ok demo_ok(2) run(1), of "[]" 0 0 None "[]"] run(2-4)
  have "read_ready False s' EventCase" "write_ready False s' EventCase" by (auto simp: write_ready_def)
  then show ?thesis using run by blast
qed

text \<open>The writer waits for the send window; \<^verbatim>\<open>SetWindowSize\<close> makes room and wakes nobody.\<close>

lemma window_size_wakes_nobody:
  assumes "\<not> chWriteEvent s" "\<not> s_die s" "WaitSnd (s_rudp s) = unat (sndWnd (s_rudp s))" "WaitSnd (s_rudp s) < unat (rmtWnd (s_rudp s))"
    and "int (unat (sndWnd (s_rudp s))) < n" "n < 2 ^ 32"
  shows "Write_poll bufs now now' s h = Some (deadline_wait (writeDdl s) now now', s, h) \<and>
    can_send (s_rudp (SetWindowSize n 0 s)) \<and> \<not> write_ready False (SetWindowSize n 0 s) EventCase \<and>
    \<not> write_ready False (SetWindowSize n 0 s) DieCase"
proof -
  have pos: "0 < n" "unat (sndWnd (s_rudp s)) < nat n" using assms(5) by linarith+
  then have n: "unat (word_of_int n :: u32) = nat n" using assms(6) by (intro unat_of_int_small) simp_all
  have eq: "s_rudp (SetWindowSize n 0 s) = (s_rudp s)\<lparr>sndWnd := word_of_int n\<rparr>"
    "chWriteEvent (SetWindowSize n 0 s) = chWriteEvent s" "s_die (SetWindowSize n 0 s) = s_die s"
    using pos(1) by (simp_all add: SetWindowSize_def WndSize_def Let_def)
  have "can_send (s_rudp (SetWindowSize n 0 s))" "\<not> can_send (s_rudp s)"
    using assms(3,4) pos(2) unfolding eq can_send_def WaitSnd_def by (simp_all add: n)
  then show ?thesis using assms(1,2) by (simp add: Write_poll_def write_ready_def eq(2,3))
qed

text \<open>
  Claim C37. One empty message blocks a session for good: when a segment without data is at the
  head of the receive queue, whatever happens afterwards every \<^verbatim>\<open>Read\<close> waits (or times out)
  and the messages behind it are never delivered; the same holds from the start for a
  session with a cipher, since its packets are dropped undecrypted.
\<close>

theorem empty_message_blocks_reads:
  assumes "session_ok s" and "batches_ok h" and "s_bufPtr s = []"
    and "rcvQueue (s_rudp s) = x # q \<and> seg_frg x = 0 \<and> seg_data x = [] \<or> rcvQueue (s_rudp s) = [] \<and> s_block s"
    and "run_events evs s h = Some (s', h')"
  shows "Read_poll b now now' s' h' = Some (deadline_wait (readDdl s') now now', b, s', h')"
  by (rule deaf_Read, rule deaf_events [OF assms(1,2) _ assms(5)]) (use assms(3,4) in \<open>auto simp: deaf_def\<close>)

theorem empty_message_blocks_reads_witness:
  "\<exists>s0 s' h'. rcvQueue (s_rudp s0) = [zero_segment, zero_segment\<lparr>seg_data := [65]\<rparr>] \<and>
     run_events [Ev_Packet [9], Ev_Update 7] s0 (demo_host (\<lambda>_ l. Inr l)) = Some (s', h') \<and>
     Read_poll [0] 1 1 s' h' = Some (deadline_wait (readDdl s') 1 1, [0], s', h')"
proof -
  let ?s = "demo_session\<lparr>s_rudp := (s_rudp demo_session)\<lparr>rcvQueue := [zero_segment, zero_segment\<lparr>seg_data := [65]\<rparr>]\<rparr>\<rparr>"
  have ok: "session_ok ?s"
    by (rule session_ok_cong [OF demo_ok(1)]) (use safe_cong [OF session_ok_safe [OF demo_ok(1)]] in simp_all)
  obtain s' h' where run: "run_events [Ev_Packet [9], Ev_Update 7] ?s (demo_host (\<lambda>_ l. Inr l)) = Some (s', h')"
    using run_events_total [OF ok demo_ok(2)] by blast
  have "Read_poll [0] 1 1 s' h' = Some (deadline_wait (readDdl s') 1 1, [0], s', h')"
    by (rule empty_message_blocks_reads [OF ok demo_ok(2) _ _ run, of zero_segment "[zero_segment\<lparr>seg_data := [65]\<rparr>]"]) (simp_all add: demo_session_def zero_segment_def)
  then show ?thesis using run by (intro exI [of _ ?s] exI [of _ s'] exI [of _ h']) simp
qed

text \<open>\<^verbatim>\<open>ReadBatch\<close>, up to its first error, against \<^verbatim>\<open>ReadFrom\<close>.\<close>

lemma readLoop_batches:
  "readLoop (map Inr bs @ Inl err # later) singles (s\<lparr>s_xconn := True\<rparr>) h =
     (if err = OpSyscall ''recvmmsg''
      then do { (s, h) \<leftarrow> defaultReadLoop (map Inr (concat bs)) '''' (s\<lparr>s_xconn := True\<rparr>) h; defaultReadLoop singles '''' s h }
      else defaultReadLoop (map Inr (concat bs) @ Inl err # later') '''' (s\<lparr>s_xconn := True\<rparr>) h)"
  using defaultReadLoop_prefix [of "concat bs" "[]"]
  by (auto simp: readLoop_def read_batches_prefix defaultReadLoop_prefix split: bind_splits)

end
