(* ===== verification/Session_Loops.thy ===== *)
theory Session_Loops
  imports Session Session_Tx_Spec
begin

text \<open>
  The two loops of a session whose end is not a matter of their form: the one of
  \<^verbatim>\<open>WriteBuffers\<close> that cuts each buffer at \<^verbatim>\<open>mss\<close>, and the batch loop of \<^verbatim>\<open>tx\<close>.
\<close>

section \<open>Cutting buffers\<close>

lemma send_loop_mss: "send_loop n b r = Some r' \<Longrightarrow> mss r' = mss r"
  by (induction n b r rule: send_loop.induct) (auto simp: bind_eq_Some_conv Let_def)

lemma Send_mss: "Send b r = Some (c, r') \<Longrightarrow> mss r' = mss r"
  by (auto simp: Send_def send_fill_def bind_eq_Some_conv Let_def dest!: send_loop_mss split: if_splits prod.splits)

lemma write_buf_nil: "write_buf [] r = Some r"
  by (simp add: write_buf.simps Send_def)

lemma write_buf_ends:
  assumes "0 < mss r" "unat (mss r) \<le> mtuLimit"
  shows "\<exists>r'. write_buf buf r = Some r' \<and> mss r' = mss r"
  using assms
proof (induction "length buf" arbitrary: buf r rule: less_induct)
  case less
  have pos: "0 < unat (mss r)" using less.prems(1) by (simp add: unat_gt_0 word_gt_0)
  have send: "\<exists>c r'. Send b r = Some (c, r') \<and> mss r' = mss r" for b
    using Send_results [OF pos less.prems(2), of b] Send_mss by blast
  show ?case
  proof (cases "length buf \<le> unat (mss r)")
    case True
    then show ?thesis using send [of buf] by (auto simp: write_buf.simps)
  next
    case False
    obtain c r1 where 1: "Send (take (unat (mss r)) buf) r = Some (c, r1)" "mss r1 = mss r" using send by blast
    have "length (drop (unat (mss r)) buf) < length buf" using False pos by simp
    from less.hyps [OF this, of r1] obtain r' where "write_buf (drop (unat (mss r)) buf) r1 = Some r'" "mss r' = mss r"
      using 1(2) less.prems by auto
    then show ?thesis using False 1 by (simp add: write_buf.simps [of buf])
  qed
qed

lemma write_buf_stuck:
  assumes "write_buf buf r = Some r'"
  shows "mss r = 0 \<longrightarrow> buf = []"
proof (rule write_buf.raw_induct [of "\<lambda>buf r _. mss r = 0 \<longrightarrow> buf = []", OF _ assms], intro impI)
  fix f buf r y
  assume IH: "\<And>buf r y. f buf r = Some y \<Longrightarrow> mss r = 0 \<longrightarrow> buf = []" and mss: "mss r = 0"
    and body: "(if length buf \<le> unat (mss r) then Send buf r \<bind> (\<lambda>(_, r). Some r)
      else Send (take (unat (mss r)) buf) r \<bind> (\<lambda>(_, r). f (drop (unat (mss r)) buf) r)) = Some y"
  show "buf = []"
  proof (rule ccontr)
    assume "buf \<noteq> []"
    then have "f buf r = Some y" using body mss by (simp add: Send_def)
    then show False using IH mss \<open>buf \<noteq> []\<close> by blast
  qed
qed

section \<open>Properties\<close>

text \<open>
  Claim C38. The cutting loop of \<^verbatim>\<open>WriteBuffers\<close> ends exactly when there is room for a payload:
  for an MSS of at most 1500 bytes the loop over all buffers returns if \<^verbatim>\<open>mss\<close> is positive or
  there is nothing to write, and in no other case (with \<^verbatim>\<open>mss = 0\<close> it runs for ever, holding
  the session's lock).
\<close>

theorem write_loop_ends_iff:
  assumes "unat (mss r) \<le> mtuLimit"
  shows "(\<exists>n' r'. write_bufs bufs n r = Some (n', r')) \<longleftrightarrow> 0 < mss r \<or> concat bufs = []"
proof (cases "0 < mss r")
  case True
  then have "\<exists>n' r'. write_bufs bufs n r = Some (n', r')"
    using assms
  proof (induction bufs arbitrary: n r)
    case (Cons b bufs)
    then show ?case using write_buf_ends [of r b] by fastforce
  qed simp
  then show ?thesis using True by blast
next
  case False
  then have mss: "mss r = 0" by (simp add: word_gt_0)
  have "(\<exists>n' r'. write_bufs bufs n r = Some (n', r')) \<longleftrightarrow> concat bufs = []"
  proof (induction bufs arbitrary: n)
    case (Cons b bufs)
    show ?case
    proof (cases "b = []")
      case True
      then show ?thesis using Cons.IH by (simp add: write_buf_nil)
    next
      case False
      then have "write_buf b r = None" using write_buf_stuck [of b r] mss by (cases "write_buf b r") auto
      then show ?thesis using False by simp
    qed
  qed simp
  then show ?thesis using False by simp
qed

text \<open>A payload size of 0 as \<^verbatim>\<open>SetMtu\<close> leaves it after 26 reserved bytes and an MTU of 50.\<close>

theorem write_loop_ends_iff_witness:
  "fst (SetMtu 50 (snd (ReserveBytes 26 (NewRudp 7)))) = 0 \<and>
   (\<nexists>n' r'. write_bufs [[], [1]] 0 (snd (SetMtu 50 (snd (ReserveBytes 26 (NewRudp 7))))) = Some (n', r'))"
proof -
  let ?r = "snd (SetMtu 50 (snd (ReserveBytes 26 (NewRudp 7))))"
  have "fst (SetMtu 50 (snd (ReserveBytes 26 (NewRudp 7)))) = 0" "mss ?r = 0"
    by (simp_all add: SetMtu_def ReserveBytes_def NewRudp_def zero_RUDP_def Let_def)
  then show ?thesis using write_loop_ends_iff [of ?r "[[], [1]]" 0] by simp
qed

section \<open>Sending batches\<close>

text \<open>A socket that keeps reporting 0 messages sent keeps \<^verbatim>\<open>tx\<close> in its loop for ever.\<close>

lemma tx_loop_stuck:
  assumes "tx_loop q nbytes npkts s h = Some y"
  shows "(\<forall>i l. h_batches h i l = Inr 0) \<longrightarrow> q = []"
proof (rule tx_loop.raw_induct [of "\<lambda>q _ _ _ h _. (\<forall>i l. h_batches h i l = Inr 0) \<longrightarrow> q = []", OF _ assms], intro impI)
  fix f q nbytes npkts s h y
  assume IH: "\<And>q nbytes npkts s h y. f q nbytes npkts s h = Some y \<Longrightarrow> (\<forall>i l. h_batches h i l = Inr 0) \<longrightarrow> q = []"
    and h: "\<forall>i l. h_batches h i l = Inr 0"
    and body: "(if q = [] then Some (s, add_stat OutBytes_update (of_nat nbytes) (add_stat OutPkts_update (of_nat npkts) h))
     else case WriteBatch q h of
       (Inr n, h) \<Rightarrow>
         if n > length q then None
         else f (drop n q) (nbytes + sum_list (map (length \<circ> fst) (take n q))) (npkts + n) s h
     | (Inl err, h) \<Rightarrow>
         if err = OpSyscall ''sendmmsg''
         then defaultTx q (s\<lparr>xconnWriteError := Some err\<rparr>) h
         else Some (notifyWriteError err s,
                add_stat OutBytes_update (of_nat nbytes) (add_stat OutPkts_update (of_nat npkts) h))) = Some y"
  show "q = []"
  proof (rule ccontr)
    assume "q \<noteq> []"
    then have "f q nbytes npkts s (snd (WriteBatch q h)) = Some y" using body h by (simp add: WriteBatch_def Let_def)
    moreover have "\<forall>i l. h_batches (snd (WriteBatch q h)) i l = Inr 0" using h by (simp add: WriteBatch_def Let_def)
    ultimately show False using IH \<open>q \<noteq> []\<close> by blast
  qed
qed

lemma tx_stuck:
  assumes "\<forall>i l. h_batches h i l = Inr 0" "s_xconn s" "xconnWriteError s = None" "q \<noteq> []"
  shows "tx q s h = None"
  using tx_loop_stuck [of q 0 0 s h] assms by (cases "tx_loop q 0 0 s h") (auto simp: tx_def)

end
