(* ===== verification/Rudp_Timeout.thy ===== *)
theory Rudp_Timeout
  imports Rudp_Flush_Spec
begin

text \<open>
  A segment whose timer has run out is sent again by the next full \<^verbatim>\<open>flush\<close>. The statement is
  about a \<^verbatim>\<open>flush\<close> during which the clock stands still; a call takes far less than a
  millisecond.
\<close>

section \<open>A clock that stands still\<close>

definition stands :: "u32 \<Rightarrow> world \<Rightarrow> bool" where
  "stands t w \<longleftrightarrow> (\<forall>n. word_of_int (clock w n sdiv 1000000) = t)"

lemma stands_currentMs: "stands t w \<Longrightarrow> fst (currentMs w) = t \<and> stands t (snd (currentMs w))"
  by (simp add: stands_def currentMs_def)

lemma stands_clock: "clock w' = clock w \<Longrightarrow> stands t w' \<longleftrightarrow> stands t w"
  by (simp add: stands_def)

definition stopped_clock :: "u32 \<Rightarrow> nat \<Rightarrow> int" where
  "stopped_clock t n = 1000000 * uint t"

lemma stands_stopped: "stands t (w\<lparr>clock := stopped_clock t\<rparr>)"
proof -
  have "(1000000 * x) sdiv 1000000 = x" for x :: int
    by (simp add: signed_divide_int_def sgn_mult abs_mult mult_sgn_abs)
  then show ?thesis by (simp add: stands_def stopped_clock_def)
qed

section \<open>The steps of flush keep the clock\<close>

lemma makeSpace_clock: "makeSpace r n ptr w = Some (ptr', w') \<Longrightarrow> clock w' = clock w"
  by (cases ptr) (auto simp: makeSpace_def bind_eq_Some_conv split: if_splits)

lemma encodeOverHead_clock: "encodeOverHead s ptr w = Some (ptr', w') \<Longrightarrow> clock w' = clock w"
  by (auto simp: encodeOverHead_def bind_eq_Some_conv)

lemma flush_acks_clock: "flush_acks r seg q ptr w = Some (seg', ptr', w') \<Longrightarrow> clock w' = clock w"
  by (induction q arbitrary: seg ptr w)
     (auto simp: bind_eq_Some_conv Let_def dest!: makeSpace_clock encodeOverHead_clock split: if_splits)

lemma flush_ask_clock: "flush_ask bits cmd r seg ptr w = Some (seg', ptr', w') \<Longrightarrow> clock w' = clock w"
  by (auto simp: flush_ask_def bind_eq_Some_conv Let_def dest!: makeSpace_clock encodeOverHead_clock split: if_splits)

lemma probe_timer_stands: "stands t w \<Longrightarrow> probe_timer r w = (r', w') \<Longrightarrow> stands t w'"
  using stands_currentMs [of t w] by (auto simp: probe_timer_def Let_def split_def split: if_splits)

section \<open>The loop over sndBuf\<close>

abbreviation overdue :: "u32 \<Rightarrow> segment \<Rightarrow> bool" where
  "overdue t s \<equiv> seg_acked s \<noteq> 1 \<and> 0 \<le> sint (timeDiff t (seg_resendts s))"

lemma resend_put_stands:
  assumes "resend_put r seg s st = Some (s', st')" "stands t (rs_world st)"
  shows "seg_xmit s' = seg_xmit s + 1 \<and> stands t (rs_world st') \<and> rs_current st' = t"
proof -
  obtain w where w: "currentMs (rs_world st) = (t, w)" "stands t w"
    using stands_currentMs [OF assms(2)] by (cases "currentMs (rs_world st)") simp
  then show ?thesis
    using assms(1) by (auto simp: resend_put_def Let_def bind_eq_Some_conv stands_def dest!: makeSpace_clock encodeOverHead_clock)
qed

lemma resend_one_stands:
  assumes "resend_one r seg resent n s st = Some (s', st')" "stands t (rs_world st)" "rs_current st = t"
  shows "stands t (rs_world st') \<and> rs_current st' = t \<and> (overdue t s \<longrightarrow> seg_xmit s' = seg_xmit s + 1)"
proof (cases "seg_acked s = 1")
  case True
  then show ?thesis using assms by (simp add: resend_one_def)
next
  case False
  obtain b s1 st1 where d: "resend_decide r resent n s st = (b, s1, st1)" by (cases "resend_decide r resent n s st") auto
  note f = resend_decide_frame [OF d]
  have b: "overdue t s \<longrightarrow> b" using d assms(3) by (auto simp: resend_decide_def Let_def split: if_splits)
  show ?thesis
  proof (cases b)
    case True
    then obtain st2 where "resend_put r seg s1 st1 = Some (s', st2)" "rs_world st' = rs_world st2" "rs_current st' = rs_current st2"
      using assms(1) False d by (auto simp: resend_one_def bind_eq_Some_conv Let_def split: if_splits)
    then show ?thesis using resend_put_stands [of r seg s1 st1 s' st2 t] f assms(2) by simp
  next
    case no: False
    then show ?thesis using assms False d f b by (auto simp: resend_one_def Let_def)
  qed
qed

lemma resend_loop_stands:
  assumes "resend_loop r seg resent n q st = Some (q', st')" "stands t (rs_world st)" "rs_current st = t"
  shows "\<forall>i < length q. overdue t (q ! i) \<longrightarrow> seg_xmit (q' ! i) = seg_xmit (q ! i) + 1"
  using assms
proof (induction q arbitrary: st q')
  case (Cons s q)
  obtain s1 st1 q1 where 1: "resend_one r seg resent n s st = Some (s1, st1)"
      "resend_loop r seg resent n q st1 = Some (q1, st')" "q' = s1 # q1"
    using Cons.prems(1) by (auto simp: bind_eq_Some_conv)
  note one = resend_one_stands [OF 1(1) Cons.prems(2,3)]
  then have "\<forall>i < length q. overdue t (q ! i) \<longrightarrow> seg_xmit (q1 ! i) = seg_xmit (q ! i) + 1"
    by (intro Cons.IH [OF 1(2)]) simp_all
  then show ?case using one 1(3) by (auto simp: less_Suc_eq_0_disj)
qed simp

section \<open>The whole call\<close>

lemma flush_due:
  assumes run: "flush False r w = Some (v, r', w')" and t: "stands t w" and i: "i < length (sndBuf r)" and due: "overdue t (sndBuf r ! i)"
  shows "seg_xmit (sndBuf r' ! i) = seg_xmit (sndBuf r ! i) + 1"
proof -
  obtain ptr seg1 ptr1 w1 where 1: "flush_acks r (ack_template r) (ackList r) ptr w = Some (seg1, ptr1, w1)"
      "flush_data (r\<lparr>ackList := []\<rparr>) seg1 ptr1 w1 = Some (v, r', w')"
    using run by (auto simp: flush_def bind_eq_Some_conv Let_def)
  have t1: "stands t w1" using t flush_acks_clock [OF 1(1)] stands_clock by blast
  obtain r2 w2 where 2: "probe_timer (r\<lparr>ackList := []\<rparr>) w1 = (r2, w2)" by (cases "probe_timer (r\<lparr>ackList := []\<rparr>) w1")
  have t2: "stands t w2" by (rule probe_timer_stands [OF t1 2])
  have buf: "sndBuf r2 = sndBuf r" using probe_timer_frame [OF 2] by simp
  obtain k r3 where adm: "admit (send_window r2) (r2\<lparr>probe := 0\<rparr>) = (k, r3)"
    by (cases "admit (send_window r2) (r2\<lparr>probe := 0\<rparr>)")
  then obtain xs where xs: "sndBuf r3 = sndBuf r @ xs" by (auto simp: admit_eq buf)
  obtain seg3 ptr3 w3 seg4 ptr4 w4 where 3: "flush_ask IRUDP_ASK_SEND IRUDP_CMD_WASK r2 seg1 ptr1 w2 = Some (seg3, ptr3, w3)"
      "flush_ask IRUDP_ASK_TELL IRUDP_CMD_WINS r2 seg3 ptr3 w3 = Some (seg4, ptr4, w4)"
    using 1(2) by (auto simp: flush_data_def 2 bind_eq_Some_conv)
  have t4: "stands t w4" using t2 flush_ask_clock [OF 3(1)] flush_ask_clock [OF 3(2)] stands_clock by metis
  obtain w5 where 5: "currentMs w4 = (t, w5)" "stands t w5"
    using stands_currentMs [OF t4] by (cases "currentMs w4") simp
  obtain q st st' where 6: "resend_loop r3 seg4 (resent_limit r3) k (sndBuf r3) st = Some (q, st')"
      "rs_world st = w5" "rs_current st = t" and buf': "sndBuf r' = q"
    using 1(2) by (auto simp: flush_data_def 2 3 adm 5(1) bind_eq_Some_conv Let_def update_cwnd_frame)
  have "stands t (rs_world st)" using 5(2) 6(2) by simp
  from resend_loop_stands [OF 6(1) this 6(3)] i due show ?thesis
    by (simp add: xs buf' nth_append)
qed

lemma due_pushed:
  assumes run: "flush False r w = Some (v, r', w')" and post: "flush_data_post r r' pushes"
    and t: "stands t w" and i: "i < length (sndBuf r)" and due: "overdue t (sndBuf r ! i)"
  shows "sndBuf r' ! i \<in> set pushes \<and> seg_key (sndBuf r' ! i) = seg_key (sndBuf r ! i)"
proof -
  define k where "k = admitted (send_window r) r"
  let ?before = "sndBuf r @ admit_segs (rudp_conv r) (sndNxt r) (take k (sndQueue r))"
  have keys: "map seg_key (sndBuf r') = map seg_key ?before"
    and sent: "\<forall>i < length ?before. seg_xmit (sndBuf r' ! i) \<noteq> seg_xmit (?before ! i) \<longrightarrow> sndBuf r' ! i \<in> set pushes"
    using post unfolding flush_data_post_def Let_def k_def [symmetric] by blast+
  have at: "?before ! i = sndBuf r ! i" "i < length ?before" using i by (simp_all add: nth_append)
  have len: "length (sndBuf r') = length ?before" using arg_cong [OF keys, of length] by simp
  have "seg_key (sndBuf r' ! i) = map seg_key (sndBuf r') ! i" using at(2) len by simp
  also have "\<dots> = seg_key (sndBuf r ! i)" unfolding keys using at by (simp del: map_append)
  finally show ?thesis using flush_due [OF run t i due] sent at by simp
qed

section \<open>Properties\<close>

text \<open>
  Claim C4. A timeout retransmits: when the timer of an unacknowledged segment of \<^verbatim>\<open>sndBuf\<close> has
  run out, the next full \<^verbatim>\<open>flush\<close> puts it, with the same number and payload, into one of the
  packets it outputs.
\<close>

theorem timeout_retransmits:
  assumes "sizes_ok r" and "fits_mss r" and "stands t w" and "i < length (sndBuf r)"
    and "seg_acked (sndBuf r ! i) \<noteq> 1" and "0 \<le> sint (timeDiff t (seg_resendts (sndBuf r ! i)))"
  shows "\<exists>v r' w' gs s. flush False r w = Some (v, r', w') \<and>
     packets w' = packets w @ map (frame_packet (reserved_bytes r)) gs \<and> (\<exists>g \<in> set gs. s \<in> set g) \<and>
     seg_cmd s = seg_cmd (sndBuf r ! i) \<and> seg_sn s = seg_sn (sndBuf r ! i) \<and> seg_data s = seg_data (sndBuf r ! i)"
proof -
  obtain v r' w' gs probes pushes where 1: "flush False r w = Some (v, r', w')"
     "packets w' = packets w @ map (frame_packet (reserved_bytes r)) gs"
     "concat gs = ack_segs r (ack_template r) (ackList r) @ probes @ pushes" "flush_data_post r r' pushes"
    using flush_full [OF assms(1,2), of w] by blast
  have s: "sndBuf r' ! i \<in> set pushes" "seg_key (sndBuf r' ! i) = seg_key (sndBuf r ! i)"
    using due_pushed [OF 1(1,4) assms(3,4)] assms(5,6) by blast+
  then obtain g where "g \<in> set gs" "sndBuf r' ! i \<in> set g" using 1(3) by (metis UnCI set_append UN_E set_concat)
  then show ?thesis
    using 1(1,2) s(2) unfolding seg_key_simps by blast
qed

text \<open>Two segments sent once, due at 200; the call is made at 250.\<close>

definition demo_overdue :: RUDP where
  "demo_overdue = (demo_snd 5 2)\<lparr>sndBuf := map (\<lambda>s. s\<lparr>seg_xmit := 1, seg_resendts := 200\<rparr>) (sndBuf (demo_snd 5 2))\<rparr>"

theorem timeout_retransmits_witness:
  "\<exists>v r' w' gs s. flush False demo_overdue ((new_world [])\<lparr>clock := stopped_clock 250\<rparr>) = Some (v, r', w') \<and>
     packets w' = map (frame_packet []) gs \<and> (\<exists>g \<in> set gs. s \<in> set g) \<and> seg_sn s = 6 \<and> seg_data s = [1]"
proof -
  let ?w = "(new_world [])\<lparr>clock := stopped_clock 250\<rparr>"
  have seg: "seg_acked (sndBuf demo_overdue ! 1) = 0" "seg_resendts (sndBuf demo_overdue ! 1) = 200" "length (sndBuf demo_overdue) = 2"
    "seg_sn (sndBuf demo_overdue ! 1) = 6" "seg_data (sndBuf demo_overdue ! 1) = [1]"
    by (simp_all add: demo_overdue_def demo_snd_def zero_segment_def)
  have so: "sizes_ok demo_overdue" "fits_mss demo_overdue"
    using sizes_ok_NewRudp [of 7]
    by (auto simp: demo_overdue_def demo_snd_def sizes_ok_def fits_mss_def NewRudp_def zero_RUDP_def)
  have none: "reserved_bytes demo_overdue = []" "packets ?w = []"
    by (simp_all add: demo_overdue_def demo_snd_def reserved_bytes_def NewRudp_def zero_RUDP_def new_world_def packets_def)
  have "0 \<le> sint (timeDiff 250 200)" by (simp add: timeDiff_def)
  then have "1 < length (sndBuf demo_overdue)" "seg_acked (sndBuf demo_overdue ! 1) \<noteq> 1"
    "0 \<le> sint (timeDiff 250 (seg_resendts (sndBuf demo_overdue ! 1)))" unfolding seg by simp_all
  from timeout_retransmits [OF so stands_stopped [of 250 "new_world []"] this] show ?thesis
    unfolding seg none append_Nil by blast
qed

end
