(* ===== verification/Progress.thy ===== *)
theory Progress
  imports Acked Rudp_Timeout
begin

text \<open>
  The protocol never wedges on a lost packet: while a numbered payload that fits the receive
  window is missing at the other end, time passes until its timer runs out, the sender's next
  \<^verbatim>\<open>flush\<close> repeats the segment, and the new packet arrives. Also the relation of what goes on
  when no user calls and every packet already under way is lost.
\<close>

section \<open>A PUSH in the window is stored\<close>

interpretation wnd_kept: segment_contract "\<lambda>r _. rcvWnd r = x" "\<lambda>_ _. True" for x
proof
  fix r :: RUDP and h :: header and body conv b r'
  show "rcvWnd r = x \<Longrightarrow> parseData (push_segment conv h body) r = Some (b, r') \<Longrightarrow> rcvWnd r' = x"
    by (auto dest!: parseData_frame)
qed (simp_all add: ack_una_def parseUna_def updateSndUna_def pushAck_def parseAck_def parseFastAck_def Let_def)

text \<open>The number \<open>n\<close> is in the window of \<open>r\<close>, which stays clear of the end of the number space.\<close>

definition fits_window :: "RUDP \<Rightarrow> u32 \<Rightarrow> bool" where
  "fits_window r n \<longleftrightarrow> unat n < unat (rcvNxt r) + unat (rcvWnd r) \<and> unat n + unat (rcvWnd r) < 2 ^ 32"

lemma window_or_received:
  assumes "fits_window r0 n" "knows_more r0 r" "rcvWnd r = rcvWnd r0" "\<not> received r n"
  shows "in_window n r"
proof -
  have ge: "rcvNxt r \<le> n" using assms(4) by (auto simp: received_def)
  have "unat (rcvNxt r0) \<le> unat (rcvNxt r)" using assms(2) by (simp add: knows_more_def word_le_nat_alt)
  moreover have "unat (rcvNxt r + rcvWnd r) = unat (rcvNxt r) + unat (rcvWnd r)"
    using ge assms(1,3) by (simp add: fits_window_def unat_word_ariths word_le_nat_alt)
  ultimately show ?thesis using ge assms(1,3) by (simp add: fits_window_def word_less_nat_alt)
qed

abbreviation from_peer :: "(nat \<Rightarrow> payload) \<Rightarrow> nat \<Rightarrow> header \<Rightarrow> u8 list \<Rightarrow> bool" where
  "from_peer src N h body \<equiv> hd_cmd h = IRUDP_CMD_PUSH \<longrightarrow> (hd_frg h, body) = src (unat (hd_sn h)) \<and> unat (hd_sn h) < N"

lemma segment_stores:
  assumes inv: "link_in src N got r" "acks_from c r0 r w" and wnd: "fits_window r0 (hd_sn h)" "rcvWnd r = rcvWnd r0"
    and Q: "from_peer src N h body" and push: "hd_cmd h = IRUDP_CMD_PUSH"
    and run: "input_segment regular conv h body iv r w = Some (iv', r', w')"
  shows "received r' (hd_sn h)"
proof -
  define r1 where "r1 = ack_una (hd_una h) (if regular then r\<lparr>rmtWnd := ucast (hd_wnd h)\<rparr> else r)"
  have P1: "link_in src N got r1 \<and> acks_from c r0 r1 w"
  proof -
    let ?r = "if regular then r\<lparr>rmtWnd := ucast (hd_wnd h)\<rparr> else r"
    have "link_in src N got ?r \<and> acks_from c r0 ?r w" using inv acking.hdr_wnd [of src N got r c r0 w] by auto
    then show ?thesis unfolding r1_def
      by (rule acking.hdr_una [where src = src and N = N and h = h and body = body]) (rule Q)
  qed
  have wnd1: "rcvWnd r1 = rcvWnd r0" using wnd(2) by (simp add: r1_def ack_una_def parseUna_def updateSndUna_def Let_def)
  have put: "input_push regular conv h body r1 w = Some (r', w')"
    using run [unfolded input_segment_eq Let_def, folded r1_def] push by (auto simp: map_option_case split: option.splits)
  have "rcv_inv src r1" "(hd_frg h, body) = src (unat (hd_sn h))" using P1 Q push by (simp_all add: link_in_def)
  note step = received_input_push(1,3) [OF this put]
  show ?thesis
    using window_or_received [OF wnd(1) _ wnd1] P1 step knows_moreD [OF step(1)] by (auto simp: acks_from_def)
qed

lemma segments_store:
  assumes "link_in src N got r" "acks_from c r0 r w" "rcvWnd r = rcvWnd r0" "\<forall>(h, body) \<in> set q. from_peer src N h body"
    and "(h, body) \<in> set q" "hd_cmd h = IRUDP_CMD_PUSH" "fits_window r0 (hd_sn h)"
    and "input_segments regular conv q iv r w = Some (iv', r', w')"
  shows "received r' (hd_sn h)"
  using assms
proof (induction q arbitrary: iv r w)
  case (Cons a q)
  obtain h1 body1 where a: "a = (h1, body1)" by (cases a)
  obtain iv1 r1 w1 where 1: "input_segment regular conv h1 body1 iv r w = Some (iv1, r1, w1)"
      "input_segments regular conv q iv1 r1 w1 = Some (iv', r', w')"
    using Cons.prems(8) by (auto simp: a bind_eq_Some_conv)
  have Q: "from_peer src N h1 body1" "\<forall>(h, body) \<in> set q. from_peer src N h body" using Cons.prems(4) by (auto simp: a)
  have P1: "link_in src N got r1 \<and> acks_from c r0 r1 w1"
    using acking.keep_segment [OF conjI [OF Cons.prems(1,2)] Q(1) 1(1)] .
  have wnd1: "rcvWnd r1 = rcvWnd r0" using wnd_kept.keep_segment [OF Cons.prems(3) _ 1(1)] by simp
  show ?case
  proof (cases "(h, body) \<in> set q")
    case True
    then show ?thesis using Cons.IH [OF _ _ wnd1 Q(2) True Cons.prems(6,7) 1(2)] P1 by blast
  next
    case False
    then have h: "h1 = h" "body1 = body" using Cons.prems(5) a by auto
    have got: "received r1 (hd_sn h)"
      using segment_stores [OF Cons.prems(1,2) _ Cons.prems(3) Q(1) _ 1(1)] Cons.prems(6,7) h by simp
    have "acks_from c r1 r1 w1" using P1 by (simp add: acks_from_def knows_more_same)
    with P1 have "acks_from c r1 r' w'" using acking.keep_segments [OF _ Q(2) 1(2), of got c r1] by blast
    then show ?thesis using got knows_moreD by (auto simp: acks_from_def)
  qed
qed simp

lemma Input_stores:
  assumes inv: "link_in src N got r" "acks_sound c r w"
    and Q: "\<forall>(h, body) \<in> set (snd (parse_packet (rudp_conv r) data)). from_peer src N h body"
    and seg: "(h, body) \<in> set (snd (parse_packet (rudp_conv r) data))" "hd_cmd h = IRUDP_CMD_PUSH" "fits_window r (hd_sn h)"
    and run: "Input data regular ackNoDelay r w = Some (code, r', w')"
  shows "received r' (hd_sn h)"
proof -
  have long: "\<not> length data < 24" using parse_lengths [OF seg(1)] by simp
  obtain e q where q: "parse_packet (rudp_conv r) data = (e, q)" by (cases "parse_packet (rudp_conv r) data")
  then obtain iv r1 w1 where 1: "input_segments regular (rudp_conv r) q iv_start r w = Some (iv, r1, w1)"
      "(if e = 0 then input_tail regular ackNoDelay (sndUna r) iv r1 w1 else Some (e, r1, w1)) = Some (code, r', w')"
    using run long by (auto simp: Input_eq bind_eq_Some_conv)
  have from_: "acks_from c r r w" using inv(2) by (simp add: acks_from_def knows_more_same)
  have Qs: "\<forall>(h, body) \<in> set q. from_peer src N h body" using Q q by simp
  have got: "received r1 (hd_sn h)"
    using segments_store [OF inv(1) from_ refl Qs _ seg(2,3) 1(1)] seg(1) q by simp
  have P1: "link_in src N got r1 \<and> acks_from c r r1 w1" by (rule acking.keep_segments [OF conjI [OF inv(1) from_] Qs 1(1)])
  then have P1': "link_in src N got r1 \<and> acks_from c r1 r1 w1" by (simp add: acks_from_def knows_more_same)
  show ?thesis
  proof (cases "e = 0")
    case True
    then have "acks_from c r1 r' w'" using acking.keep_tail [OF P1'] 1(2) by simp
    then show ?thesis using got knows_moreD by (auto simp: acks_from_def)
  next
    case False
    then show ?thesis using 1(2) got by simp
  qed
qed

section \<open>A lost segment can always be repeated\<close>

lemma net_run_small:
  assumes "net_step\<^sup>*\<^sup>* (new_endpoint c wa, new_endpoint c wb) (a, b)" "out_calls wa = []" "out_calls wb = []"
    and "length (ep_app a) < 2 ^ 32"
  shows "length (ep_sent a) < 2 ^ 32"
proof -
  have empty: "no_empty (new_endpoint c w)" for w by (simp add: no_empty_def new_endpoint_def NewRudp_def zero_RUDP_def)
  have "no_empty a" using no_empty_run [OF assms(1) net_inv_start [OF assms(2,3)]] empty by simp
  then have "length (ep_sent a) \<le> length (ep_app a)"
    using sent_le_bytes net_run_invs(1) [OF assms(1-3)] by (fastforce simp: net_inv_def)
  then show ?thesis using assms(4) by linarith
qed

text \<open>
  What goes on without the users when everything under way is lost: time passes (the millisecond
  clock is a \<^verbatim>\<open>uint32\<close> that wraps around, so any reading lies ahead), the periodic \<^verbatim>\<open>flush\<close> of
  either end runs, and packets arrive that were output after the first \<open>na\<close> and \<open>nb\<close>. No user
  sends, reads or changes a setting, and no older packet is delivered.
\<close>

inductive alone_step :: "endpoint \<Rightarrow> endpoint \<Rightarrow> bool" where
  time: "alone_step e (e\<lparr>ep_world := (ep_world e)\<lparr>clock := stopped_clock t\<rparr>\<rparr>)"
| update: "flush False (ep_rudp e) (ep_world e) = Some (v, r, w) \<Longrightarrow> alone_step e (ran e r w)"

inductive unaided_step :: "nat \<Rightarrow> nat \<Rightarrow> endpoint \<times> endpoint \<Rightarrow> endpoint \<times> endpoint \<Rightarrow> bool" for na nb :: nat where
  alone_left: "alone_step a a' \<Longrightarrow> unaided_step na nb (a, b) (a', b)"
| alone_right: "alone_step b b' \<Longrightarrow> unaided_step na nb (a, b) (a, b')"
| arrive_left: "p \<in> new_packets nb b \<Longrightarrow> Input p True False (ep_rudp a) (ep_world a) = Some (code, r, w) \<Longrightarrow>
    unaided_step na nb (a, b) (ran a r w, b)"
| arrive_right: "p \<in> new_packets na a \<Longrightarrow> Input p True False (ep_rudp b) (ep_world b) = Some (code, r, w) \<Longrightarrow>
    unaided_step na nb (a, b) (a, ran b r w)"

lemma alone_ep_step: "alone_step e e' \<Longrightarrow> ep_step I e e'"
  by (induction rule: alone_step.induct) (auto intro: ep_step.timer ep_step.others)

lemma unaided_net_step: "unaided_step na nb ab ab' \<Longrightarrow> net_step ab ab'"
  by (induction rule: unaided_step.induct)
    (auto intro: net_step.intros alone_ep_step ep_step.packet dest: new_packets_all)

lemma unaided_net_run: "(unaided_step na nb)\<^sup>*\<^sup>* ab ab' \<Longrightarrow> net_step\<^sup>*\<^sup>* ab ab'"
  using rtranclp_mono [of "unaided_step na nb" net_step] unaided_net_step by blast

lemma alone_runs:
  assumes "alone_step\<^sup>*\<^sup>* e e'"
  shows "(unaided_step na nb)\<^sup>*\<^sup>* (e, b) (e', b)" "(unaided_step na nb)\<^sup>*\<^sup>* (a, e) (a, e')"
  using assms by (induction rule: rtranclp_induct) (auto intro: unaided_step.intros rtranclp.rtrancl_into_rtrancl)

lemma alone_users: "alone_step e e' \<Longrightarrow> ep_app e' = ep_app e \<and> ep_got e' = ep_got e"
  by (induction rule: alone_step.induct) simp_all

lemma alone_sent: "alone_step\<^sup>*\<^sup>* e e' \<Longrightarrow> \<exists>xs. ep_sent e' = ep_sent e @ xs"
proof (induction rule: rtranclp_induct)
  case (step e1 e2)
  obtain xs ys where "ep_sent e1 = ep_sent e @ xs" "ep_sent e2 = ep_sent e1 @ ys"
    using step.IH sent_grows [OF alone_ep_step [OF step.hyps(2)]] by blast
  then show ?case by simp
qed simp

text \<open>The users see nothing of it.\<close>

lemma unaided_users:
  assumes "(unaided_step na nb)\<^sup>*\<^sup>* (a, b) (a', b')"
  shows "ep_app a' = ep_app a" "ep_got a' = ep_got a" "ep_app b' = ep_app b" "ep_got b' = ep_got b"
proof -
  have "ep_app a' = ep_app a \<and> ep_got a' = ep_got a \<and> ep_app b' = ep_app b \<and> ep_got b' = ep_got b"
    using assms
  proof (induction "(a, b)" "(a', b')" arbitrary: a' b' rule: rtranclp.induct)
    case (rtrancl_into_rtrancl y a2 b2)
    obtain a1 b1 where y: "y = (a1, b1)" by (cases y)
    note IH = rtrancl_into_rtrancl.hyps(2) [OF y]
    show ?case using rtrancl_into_rtrancl.hyps(3) IH unfolding y
      by (cases rule: unaided_step.cases) (auto dest: alone_users)
  qed simp
  then show "ep_app a' = ep_app a" "ep_got a' = ep_got a" "ep_app b' = ep_app b" "ep_got b' = ep_got b" by simp_all
qed

text \<open>The sender's part: the timer of \<open>s\<close> runs out and a \<^verbatim>\<open>flush\<close> sends it in a new packet.\<close>

lemma sender_repeats:
  assumes side: "side_inv c a" and acks: "acks_sound c (ep_rudp a) (ep_world a)"
    and s: "s \<in> set (sndBuf (ep_rudp a))" "seg_acked s \<noteq> 1"
  obtains a' p body where "alone_step\<^sup>*\<^sup>* a a'" "p \<in> new_packets (length (packets (ep_world a))) a'" "length p \<le> 24 + mtuLimit"
    "(header_of body, seg_data body) \<in> set (snd (parse_packet c p))" "seg_cmd body = IRUDP_CMD_PUSH" "seg_sn body = seg_sn s"
proof -
  let ?r = "ep_rudp a" and ?w = "(ep_world a)\<lparr>clock := stopped_clock (seg_resendts s)\<rparr>"
  have link: "sender_ok ?r" "reserved ?r = 0" using side by (simp_all add: side_inv_def link_out_def)
  have so: "sizes_ok ?r" "fits_mss ?r" using link(1) by (simp_all add: sender_ok_def)
  have acks': "acks_sound c ?r ?w" using acks by (simp add: acks_sound_def packets_def)
  obtain v r w where run: "flush False ?r ?w = Some (v, r, w)" using flush_total_keeps [OF so, of False ?w] by blast
  obtain gs pushes where gs: "packets w = packets ?w @ map (frame_packet []) gs" "\<forall>s \<in> set (concat gs). ack_seg c r s"
      "\<forall>g \<in> set gs. length (frame_packet [] g) \<le> unat (mtu ?r)" "flush_data_post ?r r pushes" "set pushes \<subseteq> set (concat gs)"
  proof (rule flush_segs [OF acks' link(1) run])
    fix gs pushes
    assume "packets w = packets ?w @ map (frame_packet []) gs" "\<forall>s \<in> set (concat gs). ack_seg c r s"
      "\<forall>g \<in> set gs. length (frame_packet [] g) \<le> unat (mtu ?r)"
      "\<not> False \<Longrightarrow> flush_data_post ?r r pushes \<and> set pushes \<subseteq> set (concat gs) \<and> probes_post ?r ?w r (concat gs)"
    then show thesis using that [of gs pushes] by simp
  qed
  obtain i where i: "i < length (sndBuf ?r)" "sndBuf ?r ! i = s" using s(1) by (auto simp: in_set_conv_nth)
  have "overdue (seg_resendts s) (sndBuf ?r ! i)" using s(2) i(2) by (simp add: timeDiff_def)
  from due_pushed [OF run gs(4) stands_stopped i(1) this]
  have body: "sndBuf r ! i \<in> set pushes" "seg_key (sndBuf r ! i) = seg_key s" using i(2) by simp_all
  then obtain g where g: "g \<in> set gs" "sndBuf r ! i \<in> set g" using gs(5) by auto
  have parse: "parse_packet c (frame_packet [] g) = (0, map (\<lambda>s. (header_of s, seg_data s)) g)"
    using gs(2) g(1) parse_wires [of g c] by (auto simp: frame_packet_def)
  let ?a1 = "a\<lparr>ep_world := ?w\<rparr>"
  have "alone_step ?a1 (ran ?a1 r w)" by (rule alone_step.update) (use run in simp)
  with alone_step.time have reach: "alone_step\<^sup>*\<^sup>* a (ran ?a1 r w)" by (meson converse_rtranclp_into_rtranclp r_into_rtranclp)
  show thesis
  proof (rule that [OF reach])
    have "packets ?w = packets (ep_world a)" by (simp add: packets_def)
    then show "frame_packet [] g \<in> new_packets (length (packets (ep_world a))) (ran ?a1 r w)"
      using gs(1) g(1) by (simp add: new_packets_def)
    have "int (unat (mtu ?r)) = 24 + int (unat (mss ?r))" using so(1) link(2) by (simp add: sizes_ok_def)
    moreover have "unat (mss ?r) \<le> mtuLimit" using so(1) by (simp add: sizes_ok_def)
    ultimately have "unat (mtu ?r) \<le> 24 + mtuLimit" by linarith
    then show "length (frame_packet [] g) \<le> 24 + mtuLimit" using gs(3) g(1) by (meson order_trans)
    show "(header_of (sndBuf r ! i), seg_data (sndBuf r ! i)) \<in> set (snd (parse_packet c (frame_packet [] g)))"
      using g(2) by (simp add: parse)
    show "seg_cmd (sndBuf r ! i) = IRUDP_CMD_PUSH" "seg_sn (sndBuf r ! i) = seg_sn s"
      using body(2) acks s(1) by (simp_all add: seg_key_simps acks_sound_def)
  qed
qed

lemma net_left_run: "(ep_step (set (packets (ep_world b))))\<^sup>*\<^sup>* a a' \<Longrightarrow> net_step\<^sup>*\<^sup>* (a, b) (a', b)"
  by (induction rule: rtranclp_induct) (auto intro: net_step.left rtranclp.rtrancl_into_rtrancl)

lemma run_swap: "net_step\<^sup>*\<^sup>* (a, b) (a', b') \<Longrightarrow> net_step\<^sup>*\<^sup>* (b, a) (b', a')"
proof (induction "(a, b)" "(a', b')" arbitrary: a' b' rule: rtranclp.induct)
  case (rtrancl_into_rtrancl y a' b')
  obtain a1 b1 where y: "y = (a1, b1)" by (cases y)
  have "net_step\<^sup>*\<^sup>* (b, a) (b1, a1)" using rtrancl_into_rtrancl.hyps(2) y by blast
  moreover have "net_step (b1, a1) (b', a')"
    using rtrancl_into_rtrancl.hyps(3) unfolding y by (auto elim!: net_stepE intro: net_step.intros)
  ultimately show ?case by simp
qed simp

section \<open>Properties\<close>

text \<open>
  Claim C3. The protocol never wedges on losses. In every reachable state of two ends over a
  lossy network, with fewer than \<open>2^32\<close> bytes sent, each numbered payload that the receiver
  misses and that fits its window (clear of the end of the number space) can still arrive even
  when every packet output so far is lost: without any call of the users, only by time passing
  and its periodic \<^verbatim>\<open>flush\<close>, the sender outputs a new packet that holds the segment again, with
  its number, fragment number and bytes, and the arrival of such a packet stores the segment.
\<close>

theorem missing_segment_can_arrive:
  assumes run: "net_step\<^sup>*\<^sup>* (new_endpoint conv wa, new_endpoint conv wb) (a, b)"
    and fresh: "out_calls wa = []" "out_calls wb = []" and small: "length (ep_app a) < 2 ^ 32" "length (ep_app b) < 2 ^ 32"
    and n: "n < length (ep_sent a)" "\<not> received (ep_rudp b) (word_of_nat n)" "fits_window (ep_rudp b) (word_of_nat n)"
    and counts: "na = length (packets (ep_world a))" "nb = length (packets (ep_world b))"
  shows "\<exists>a' p h body code r w. alone_step\<^sup>*\<^sup>* a a' \<and> p \<in> new_packets na a' \<and>
    (h, body) \<in> set (snd (parse_packet conv p)) \<and> hd_cmd h = IRUDP_CMD_PUSH \<and> hd_sn h = word_of_nat n \<and>
    (hd_frg h, body) = ep_sent a ! n \<and>
    Input p True False (ep_rudp b) (ep_world b) = Some (code, r, w) \<and> received r (word_of_nat n) \<and>
    (unaided_step na nb)\<^sup>*\<^sup>* (a, b) (a', ran b r w) \<and> ep_app a' = ep_app a \<and> ep_got a' = ep_got a"
proof -
  note invs = net_run_invs [OF run fresh]
  have inv: "side_inv conv a" "side_inv conv b" "flow_inv a b" using invs(1) by (simp_all add: net_inv_def)
  obtain s where s: "s \<in> set (sndBuf (ep_rudp a))" "seg_sn s = word_of_nat n" "seg_acked s \<noteq> 1"
    using nothing_lost_inv(1) [OF inv(1,3) invs(2) net_run_small [OF run fresh small(1)]] n(1,2) by blast
  have "length (ep_sent b) < 2 ^ 32" by (rule net_run_small [OF run_swap [OF run] fresh(2,1) small(2)])
  then have "acks_sound conv (ep_rudp a) (ep_world a)" using invs(3) by (simp add: ack_inv_def)
  from sender_repeats [OF inv(1) this s(1,3)]
  obtain a' p t where a': "alone_step\<^sup>*\<^sup>* a a'" "p \<in> new_packets na a'" "length p \<le> 24 + mtuLimit"
    "(header_of t, seg_data t) \<in> set (snd (parse_packet conv p))" "seg_cmd t = IRUDP_CMD_PUSH" "seg_sn t = seg_sn s"
    unfolding counts by metis
  note p = new_packets_all [OF a'(2)]
  have left: "(unaided_step na nb)\<^sup>*\<^sup>* (a, b) (a', b)" by (rule alone_runs(1) [OF a'(1)])
  have run': "net_step\<^sup>*\<^sup>* (new_endpoint conv wa, new_endpoint conv wb) (a', b)"
    by (rule rtranclp_trans [OF run unaided_net_run [OF left]])
  note invs' = net_run_invs [OF run' fresh]
  have inv': "side_inv conv a'" "flow_inv a' b" using invs'(1) by (simp_all add: net_inv_def)
  have small': "length (ep_sent a') < 2 ^ 32" using net_run_small [OF run' fresh] small(1) unaided_users(1) [OF left] by simp
  let ?r = "ep_rudp b" and ?src = "nth_src (ep_sent a')" and ?N = "length (ep_sent a')"
  have in_: "link_in ?src ?N (ep_got b) ?r" "acks_sound conv ?r (ep_world b)"
    using inv'(2) invs'(2) small' by (simp_all add: flow_inv_def ack_inv_def)
  have conv: "rudp_conv ?r = conv" by (rule side_inv_conv [OF inv(2)])
  obtain code r w where put: "Input p True False ?r (ep_world b) = Some (code, r, w)"
  proof -
    have "\<forall>(h, body) \<in> set (snd (parse_packet (rudp_conv ?r) p)). length body \<le> mtuLimit"
      using a'(3) parse_lengths [of _ _ conv p] unfolding conv by fastforce
    from sender.Input_total [OF _ this, of True False "ep_world b"] in_(1) that show thesis by (auto simp: link_in_def)
  qed
  have h: "hd_cmd (header_of t) = IRUDP_CMD_PUSH" "hd_sn (header_of t) = word_of_nat n"
    using a'(5,6) s(2) by (simp_all add: header_of_def)
  note pushes = side_inv_pushes [OF inv'(1) small' p]
  from Input_stores [OF in_ _ _ h(1) _ put, of "seg_data t"] pushes a'(4) n(3) h(2)
  have got: "received r (word_of_nat n)" unfolding conv by simp
  have "unat (word_of_nat n :: u32) = n" using n(1) net_run_small [OF run fresh small(1)] by (simp add: take_bit_nat_eq_self unat_of_nat)
  then have "(hd_frg (header_of t), seg_data t) = ?src n" using pushes a'(4) h by auto
  also have "\<dots> = ep_sent a ! n" using alone_sent [OF a'(1)] n(1) by (auto simp: nth_src_def nth_append)
  finally have pay: "(hd_frg (header_of t), seg_data t) = ep_sent a ! n" .
  have "(unaided_step na nb)\<^sup>*\<^sup>* (a, b) (a', ran b r w)"
    by (rule rtranclp.rtrancl_into_rtrancl [OF left], rule unaided_step.arrive_right [OF a'(2) put])
  then show ?thesis using a'(1,2,4) h pay put got unaided_users(1,2) [OF left] by blast
qed

text \<open>The sender has numbered one segment and the receiver knows nothing yet.\<close>

theorem missing_segment_can_arrive_witness:
  "\<exists>a b a' p h body code r w. net_step\<^sup>*\<^sup>* (new_endpoint 7 (new_world []), new_endpoint 7 (new_world [])) (a, b) \<and>
     \<not> received (ep_rudp b) 0 \<and> alone_step\<^sup>*\<^sup>* a a' \<and> p \<in> new_packets (length (packets (ep_world a))) a' \<and>
     (h, body) \<in> set (snd (parse_packet 7 p)) \<and> hd_sn h = 0 \<and> body = [1, 2, 3] \<and>
     Input p True False (ep_rudp b) (ep_world b) = Some (code, r, w) \<and> received r 0"
proof -
  obtain a b where run: "net_step\<^sup>*\<^sup>* (new_endpoint 7 (new_world []), new_endpoint 7 (new_world [])) (a, b)"
      "ep_app a = [1, 2, 3]" "ep_sent a = [(0, [1, 2, 3])]" "b = new_endpoint 7 (new_world [])"
    using demo_run by blast
  have none: "\<not> received (ep_rudp b) 0" and win: "fits_window (ep_rudp b) (word_of_nat 0)" and app: "ep_app b = []"
    by (simp_all add: run(4) received_def fits_window_def new_endpoint_def NewRudp_def zero_RUDP_def)
  have out: "out_calls (new_world []) = []" by (simp add: new_world_def)
  have small: "length (ep_app a) < 2 ^ 32" "length (ep_app b) < 2 ^ 32" "0 < length (ep_sent a)" "\<not> received (ep_rudp b) (word_of_nat 0)"
    using none by (simp_all add: run(2,3) app)
  from missing_segment_can_arrive [OF run(1) out out small win refl refl]
  obtain a' p h body code r w where "alone_step\<^sup>*\<^sup>* a a'" "p \<in> new_packets (length (packets (ep_world a))) a'"
    "(h, body) \<in> set (snd (parse_packet 7 p))" "hd_sn h = word_of_nat 0" "(hd_frg h, body) = ep_sent a ! 0"
    "Input p True False (ep_rudp b) (ep_world b) = Some (code, r, w)" "received r (word_of_nat 0)" by blast
  then show ?thesis using run(1) none
    by (intro exI [of _ a] exI [of _ b] exI [of _ a'] exI [of _ p] exI [of _ h] exI [of _ body] exI [of _ code] exI [of _ r] exI [of _ w])
      (simp add: run(3))
qed

end
