(* ===== verification/Long_Message.thy ===== *)
theory Long_Message
  imports Rudp_Parse
begin

text \<open>
  Messages longer than the window. \<^verbatim>\<open>Send\<close> cuts a message into up to 255 fragments, and
  \<^verbatim>\<open>PeekSize\<close> reports a message only when all of its fragments are in \<^verbatim>\<open>rcvQueue\<close>, which takes
  at most \<^verbatim>\<open>rcvWnd\<close> segments. A message of more fragments is never complete there, and it
  blocks everything behind it.
\<close>

text \<open>Nothing has been read yet, and the queue is within the window.\<close>

definition unread :: "RUDP \<Rightarrow> bool" where
  "unread r \<longleftrightarrow> length (rcvQueue r) = unat (rcvNxt r) \<and> length (rcvQueue r) \<le> unat (rcvWnd r)"

text \<open>The first message of the source has more fragments than the window.\<close>

definition too_long :: "(nat \<Rightarrow> payload) \<Rightarrow> RUDP \<Rightarrow> bool" where
  "too_long src r \<longleftrightarrow> rcv_inv src r \<and> unat (rcvWnd r) \<le> unat (fst (src 0)) \<and> fst (src 0) < - 1"

lemma unat_Suc_u8: "(x :: u8) < - 1 \<Longrightarrow> unat (x + 1) = Suc (unat x)"
  by unat_arith

lemma unread_queue:
  assumes "too_long src r" "unread r"
  shows "map pay (rcvQueue r) = map src [0..<unat (rcvNxt r)]"
  using assms by (simp add: too_long_def unread_def rcv_inv_def)

lemma unread_blocks:
  assumes "too_long src r" "unread r"
  shows "peekSize r = -1"
proof (cases "rcvQueue r")
  case Nil
  then show ?thesis by (simp add: peekSize_def)
next
  case (Cons s q)
  have "map pay (rcvQueue r) ! 0 = src 0"
    unfolding unread_queue [OF assms] using assms(2) Cons by (simp add: unread_def)
  then have "seg_frg s = fst (src 0)" using Cons by (simp add: pay_def) (metis fst_conv)
  then have "length (rcvQueue r) \<le> unat (seg_frg s)" using assms by (simp add: too_long_def unread_def)
  moreover from this have "seg_frg s \<noteq> 0" using Cons by auto
  moreover have "unat (seg_frg s + 1) = Suc (unat (seg_frg s))"
    using assms(1) \<open>seg_frg s = fst (src 0)\<close> by (simp add: too_long_def unat_Suc_u8)
  ultimately show ?thesis using Cons by (simp add: peekSize_def)
qed

lemma unread_move:
  assumes "rcv_inv src r" "unread r"
  shows "unread (move_to_queue r)"
proof -
  obtain k where "k \<le> length (rcvBuf r)"
      "move_to_queue r = r\<lparr>rcvNxt := rcvNxt r + word_of_nat k,
       rcvQueue := rcvQueue r @ take k (rcvBuf r), rcvBuf := drop k (rcvBuf r)\<rparr>"
      "unat (rcvNxt r + word_of_nat k) = unat (rcvNxt r) + k"
      "0 < k \<Longrightarrow> length (rcvQueue r) + k \<le> unat (rcvWnd r)"
    using move_to_queue_inv [OF assms(1)] by metis
  then show ?thesis using assms(2) by (cases "k = 0") (simp_all add: unread_def)
qed

lemma arrive_long:
  assumes inv: "too_long src r" and src: "pay m = src (unat (seg_sn m))" and run: "arrive_seg m r = Some r'"
  shows "too_long src r'" "unread r \<Longrightarrow> unread r'"
proof -
  have rcv: "rcv_inv src r" using inv by (simp add: too_long_def)
  obtain b where b: "parseData m r = Some (b, r')" using run by (auto simp: arrive_seg_def)
  have "rcvWnd r' = rcvWnd r" using parseData_frame [OF b] by auto
  then show "too_long src r'" using inv rcv_inv_parseData [OF rcv src b] by (simp add: too_long_def)
  show "unread r'" if "unread r"
  proof -
    have "sorted_wrt (<) (map seg_sn (rcvBuf r))" using rcv by (simp add: rcv_inv_def)
    from parseData_eq [OF this, of m] b consider "r' = r"
      | "in_window (seg_sn m) r" "r' = move_to_queue (r\<lparr>rcvBuf := rcv_insert m (rcvBuf r)\<rparr>)"
      by (auto split: if_splits)
    then show ?thesis
    proof cases
      case 2
      have "unread (r\<lparr>rcvBuf := rcv_insert m (rcvBuf r)\<rparr>)" using that by (simp add: unread_def)
      then show ?thesis unfolding 2(2) by (rule unread_move [OF rcv_inv_insert [OF rcv 2(1) src]])
    qed (use that in simp)
  qed
qed

interpretation long: bounded_receiver
  arrive_seg fetch_bytes "\<lambda>src seg. pay seg = src (unat (seg_sn seg))" "\<lambda>src n. snd (src n)"
  "\<lambda>r. unat (rcvNxt r)" "\<lambda>r. concat (map seg_data (rcvQueue r))" "\<lambda>src r. too_long src r \<and> unread r" "\<lambda>_. True"
proof
  fix src s m s'
  assume inv: "too_long src s \<and> unread s" and src: "pay m = src (unat (seg_sn m))" and step: "arrive_seg m s = Some s'"
  show "too_long src s' \<and> unread s'" using arrive_long [where m = m and src = src and r = s and r' = s'] src step inv by blast
  show "unat (rcvNxt s) \<le> unat (rcvNxt s') \<and> concat (map seg_data (rcvQueue s')) =
      concat (map seg_data (rcvQueue s)) @ src_bytes (\<lambda>n. snd (src n)) (unat (rcvNxt s)) (unat (rcvNxt s'))"
    using rudp_rcv.arrive_queued [where m = m and p = src and s = s and s' = s'] src step inv by (simp add: too_long_def)
next
  fix src s c bs s'
  assume inv: "too_long src s \<and> unread s" and step: "fetch_bytes c s = Some (bs, s')"
  have "peekSize s = -1" using unread_blocks inv by blast
  then have "s' = s \<and> bs = []" using step by (simp add: fetch_bytes_eq)
  then show "too_long src s' \<and> unread s'"
    and "unat (rcvNxt s) \<le> unat (rcvNxt s') \<and> bs @ concat (map seg_data (rcvQueue s')) =
      concat (map seg_data (rcvQueue s)) @ src_bytes (\<lambda>n. snd (src n)) (unat (rcvNxt s)) (unat (rcvNxt s'))"
    using inv by (simp_all add: src_bytes_def)
qed simp_all

text \<open>A buffer of more than 32 segments gives more than 32 fragments.\<close>

lemma long_fragments:
  assumes "Send buffer r = Some (0, s)" "stream r = 0" "sndQueue r = []" "0 < unat (mss r)" "unat (mss r) \<le> mtuLimit"
    and "32 * unat (mss r) < length buffer"
  shows "sndQueue s \<noteq> [] \<and> 32 \<le> unat (fst (pay (sndQueue s ! 0))) \<and> fst (pay (sndQueue s ! 0)) < - 1"
proof -
  have ne: "buffer \<noteq> []" using assms(6) by auto
  then have rest: "Send buffer r = send_rest buffer r" using assms(2) by (simp add: Send_unfold)
  then have len: "length buffer \<le> 255 * unat (mss r)"
    using send_rest_too_long [of r buffer] assms(1,4) by (cases "length buffer \<le> 255 * unat (mss r)") auto
  obtain cs where cs: "s = r\<lparr>sndQueue := numbered 0 cs\<rparr>" "concat cs = buffer" "length cs \<le> 255"
      "\<forall>c \<in> set cs. c \<noteq> [] \<and> length c \<le> unat (mss r)"
    using send_rest_ok [OF assms(4,5) ne len] rest assms(1-3) by auto
  have "length (concat cs) \<le> length cs * unat (mss r)"
    using cs(4) by (induction cs) (auto simp: add_mono)
  then have "32 * unat (mss r) < length cs * unat (mss r)" using assms(6) unfolding cs(2) by linarith
  then have long: "32 < length cs" by (metis mult_less_cancel2)
  then obtain c cs' where c: "cs = c # cs'" by (cases cs) auto
  then have "seg_frg (sndQueue s ! 0) = word_of_nat (length cs')" by (simp add: cs(1) numbered_Cons)
  moreover have "unat (word_of_nat (length cs') :: u8) = length cs'" using c cs(3) by (simp add: unat_of_nat)
  moreover have "unat (- 1 :: u8) = 255" by (simp add: unsigned_minus_1_eq_mask mask_eq_exp_minus_1)
  ultimately show ?thesis using c long cs(1,3) by (auto simp: pay_def word_less_nat_alt numbered_Cons)
qed

section \<open>Properties\<close>

text \<open>
  Claim C39. Messages that never arrive. \<^verbatim>\<open>Send\<close> of a new connection accepts, in message mode, a
  buffer of more than 32 full segments; a peer with the default receive window never returns
  it, nor anything sent after it, whatever arrives in whatever order and however often it
  reads: \<^verbatim>\<open>PeekSize\<close> stays at -1.
\<close>

theorem long_message_never_arrives:
  assumes "Send buffer (NewRudp conv) = Some (0, s)" and "32 * 1376 < length buffer"
    and "\<forall>n < length (sndQueue s). src n = pay (sndQueue s ! n)"
    and "\<And>m. Arrive m \<in> set es \<Longrightarrow> pay m = src (unat (seg_sn m))"
    and "rcv_run arrive_seg fetch_bytes es (NewRudp conv, []) = Some (r, log)"
  shows "log = [] \<and> peekSize r = -1"
proof -
  have new: "unat (mss (NewRudp conv)) = 1376" "stream (NewRudp conv) = 0" "sndQueue (NewRudp conv) = []"
    "unat (rcvWnd (NewRudp conv)) = 32" "rcvNxt (NewRudp conv) = 0" "rcvQueue (NewRudp conv) = []"
    by (simp_all add: NewRudp_def zero_RUDP_def)
  have frg: "sndQueue s \<noteq> [] \<and> 32 \<le> unat (fst (pay (sndQueue s ! 0))) \<and> fst (pay (sndQueue s ! 0)) < - 1"
    by (rule long_fragments [OF assms(1) new(2,3)]) (use assms(2) new(1) in simp_all)
  then have "src 0 = pay (sndQueue s ! 0)" using assms(3) by simp
  then have inv: "too_long src (NewRudp conv) \<and> unread (NewRudp conv)"
    using frg rcv_inv_NewRudp [of src conv] by (simp add: too_long_def unread_def new)
  have "\<forall>m. Arrive m \<in> set es \<longrightarrow> pay m = src (unat (seg_sn m))" using assms(4) by blast
  note run = long.run_stream [OF inv this assms(5)]
  then have end_: "too_long src r" "unread r" "log @ concat (map seg_data (rcvQueue r)) = src_bytes (\<lambda>n. snd (src n)) 0 (unat (rcvNxt r))"
    by (simp_all add: new)
  have "concat (map seg_data (rcvQueue r)) = src_bytes (\<lambda>n. snd (src n)) 0 (unat (rcvNxt r))"
    unfolding src_bytes_def by (rule concat_pay [OF unread_queue [OF end_(1,2)]])
  then show ?thesis using end_(3) unread_blocks [OF end_(1,2)] by simp
qed

text \<open>The first fragments of a message of 33 segments arrive, one of them twice.\<close>

theorem long_message_never_arrives_witness:
  "\<exists>s r log. Send (replicate (33 * 1376) 7) (NewRudp 5) = Some (0, s) \<and>
     rcv_run arrive_seg fetch_bytes [Arrive (sndQueue s ! 0), Fetch []] (NewRudp 5, []) = Some (r, log) \<and>
     log = [] \<and> peekSize r = -1"
proof -
  let ?m = "replicate (33 * 1376) 7 :: u8 list" and ?n = "NewRudp 5"
  have new: "unat (mss ?n) = 1376" "stream ?n = 0" "sndQueue ?n = []" "rcvBuf ?n = []"
    by (simp_all add: NewRudp_def zero_RUDP_def)
  have "Send ?m ?n = send_rest ?m ?n" using new(2) by (simp add: Send_unfold)
  then obtain cs where cs: "Send ?m ?n = Some (0, ?n\<lparr>sndQueue := numbered 0 cs\<rparr>)" "concat cs = ?m" "\<forall>c \<in> set cs. length c \<le> 1376"
    using send_rest_ok [of ?n ?m] by (auto simp: new)
  let ?fs = "numbered 0 cs" and ?f = "numbered 0 cs ! 0"
  have "cs \<noteq> []" using cs(2) by (auto dest: arg_cong [where f = length])
  then have f: "?f \<in> set ?fs" by (auto simp: numbered_Cons neq_Nil_conv)
  have sn: "seg_sn ?f = 0" using arg_cong [OF numbered_fragment [OF f], of seg_sn] by (simp add: fragment_def zero_segment_def)
  have dat: "length (seg_data ?f) \<le> mtuLimit" using set_numbered_data [OF f] cs(3) by fastforce
  have "parseData ?f ?n \<noteq> None" using parseData_eq [of ?n ?f] dat by (auto simp: new)
  then obtain r1 where "arrive_seg ?f ?n = Some r1" by (auto simp: arrive_seg_def)
  moreover obtain bs r where "fetch_bytes [] r1 = Some (bs, r)" by (cases "fetch_bytes [] r1") (auto simp: fetch_bytes_eq split: if_splits)
  ultimately have run: "rcv_run arrive_seg fetch_bytes [Arrive ?f, Fetch []] (?n, []) = Some (r, bs)" by simp
  have "bs = [] \<and> peekSize r = -1"
    by (rule long_message_never_arrives [OF cs(1), of "\<lambda>n. pay (?fs ! n)", OF _ _ _ run]) (use sn in auto)
  then show ?thesis using cs(1) run by (intro exI [of _ "?n\<lparr>sndQueue := ?fs\<rparr>"] exI [of _ r] exI [of _ bs]) simp
qed

end
