(* ===== verification/Listener.thy ===== *)
theory Listener
  imports Session_Frame "HOL-Library.AList"
begin

text \<open>
  The listener of \<^verbatim>\<open>listener.go\<close>, its monitor loops, and the sessions it serves. A pointer to
  a session is its index in a heap to which new sessions are appended; the table of sessions is
  an association list because \<^verbatim>\<open>notifyReadError\<close> ranges over it.
\<close>

section \<open>State\<close>

record Listener =
  l_block :: bool
  l_ownConn :: bool
  l_sessions :: "(addr \<times> nat) list"
  l_chAccepts :: "nat list"
  l_die :: bool
  l_socketReadError :: "sock_error option"
  l_readDdl :: "int option"

abbreviation (input) acceptBacklog :: nat where "acceptBacklog \<equiv> 128"

record server =
  sv_listener :: Listener
  sv_heap :: "UDPSession list"
  sv_host :: host

definition serveConn :: "bool \<Rightarrow> bool \<Rightarrow> Listener" where
  "serveConn block ownConn =
    \<lparr>l_block = block, l_ownConn = ownConn, l_sessions = [], l_chAccepts = [], l_die = False,
     l_socketReadError = None, l_readDdl = None\<rparr>"

text \<open>A call of a session's method through its pointer.\<close>

definition on_session :: "(UDPSession \<Rightarrow> host \<Rightarrow> (UDPSession \<times> host) option) \<Rightarrow> nat \<Rightarrow> server \<Rightarrow> server option" where
  "on_session f p sv =
    do { (s, h) \<leftarrow> f (sv_heap sv ! p) (sv_host sv); Some (sv\<lparr>sv_heap := (sv_heap sv)[p := s], sv_host := h\<rparr>) }"

section \<open>Closing\<close>

definition closeSession :: "addr \<Rightarrow> Listener \<Rightarrow> bool \<times> Listener" where
  "closeSession remote l =
    (if map_of (l_sessions l) remote \<noteq> None then (True, l\<lparr>l_sessions := AList.delete remote (l_sessions l)\<rparr>) else (False, l))"

text \<open>
  \<^verbatim>\<open>Close\<close> of a session that belongs to the listener: under the session's lock it dies and
  flushes, then, under the listener's lock, it leaves the table. \<open>close_served\<close> runs both halves
  without anything in between; \<open>close_race_orphans_session\<close> shows what can happen in between.
\<close>

definition close_locked :: "nat \<Rightarrow> server \<Rightarrow> (close_result \<times> server) option" where
  "close_locked p sv =
    do {
      (c, s, h) \<leftarrow> sess_Close (sv_heap sv ! p) (sv_host sv);
      Some (c, sv\<lparr>sv_heap := (sv_heap sv)[p := s], sv_host := h\<rparr>)
    }"

definition close_unlist :: "close_result \<Rightarrow> server \<Rightarrow> server" where
  "close_unlist c sv =
    (case c of
      CloseSession remote \<Rightarrow> sv\<lparr>sv_listener := snd (closeSession remote (sv_listener sv))\<rparr>
    | _ \<Rightarrow> sv)"

definition close_served :: "nat \<Rightarrow> server \<Rightarrow> server option" where
  "close_served p sv = do { (c, sv) \<leftarrow> close_locked p sv; Some (close_unlist c sv) }"

definition Listener_Close :: "Listener \<Rightarrow> close_result \<times> Listener" where
  "Listener_Close l =
    (if l_die l then (ClosedTwice, l)
     else (if l_ownConn l then CloseConn else CloseNil, l\<lparr>l_die := True\<rparr>))"

text \<open>The first read error is kept and passed on to every session of the table.\<close>

definition Listener_notifyReadError :: "sock_error \<Rightarrow> server \<Rightarrow> server" where
  "Listener_notifyReadError err sv =
    (if l_socketReadError (sv_listener sv) = None
     then sv\<lparr>sv_listener := (sv_listener sv)\<lparr>l_socketReadError := Some err\<rparr>,
             sv_heap := fold (\<lambda>(_, p) heap. heap[p := notifyReadError err (heap ! p)]) (l_sessions (sv_listener sv)) (sv_heap sv)\<rparr>
     else sv)"

section \<open>Accepting\<close>

text \<open>
  The \<^verbatim>\<open>select\<close> of \<^verbatim>\<open>AcceptRUDP\<close>, with \<^const>\<open>EventCase\<close> for a session in the channel, and the
  delay of its timer.
\<close>

definition accept_delay :: "int \<Rightarrow> Listener \<Rightarrow> int option" where
  "accept_delay now l = map_option (\<lambda>d. d - now) (l_readDdl l)"

definition accept_ready :: "bool \<Rightarrow> Listener \<Rightarrow> select_case \<Rightarrow> bool" where
  "accept_ready fired l c = (case c of
     EventCase \<Rightarrow> l_chAccepts l \<noteq> [] | TimerCase \<Rightarrow> fired
   | ErrorCase \<Rightarrow> l_socketReadError l \<noteq> None | DieCase \<Rightarrow> l_die l)"

definition AcceptRUDP :: "select_case \<Rightarrow> Listener \<Rightarrow> (rudp_error + nat) \<times> Listener" where
  "AcceptRUDP c l = (case c of
     EventCase \<Rightarrow> (Inr (hd (l_chAccepts l)), l\<lparr>l_chAccepts := tl (l_chAccepts l)\<rparr>)
   | TimerCase \<Rightarrow> (Inl errTimeout, l)
   | ErrorCase \<Rightarrow> (Inl (SocketError (the (l_socketReadError l))), l)
   | DieCase \<Rightarrow> (Inl ErrClosedPipe, l))"

section \<open>Packets\<close>

text \<open>A session for a new peer; it is fed its first packet before it is entered.\<close>

definition open_session :: "bool \<Rightarrow> int \<Rightarrow> u32 \<Rightarrow> u8 list \<Rightarrow> addr \<Rightarrow> server \<Rightarrow> server option" where
  "open_session xconn now conv data from sv =
    (let (s, h) = newUDPSession conv (l_block (sv_listener sv)) True False from xconn now (sv_host sv);
         p = length (sv_heap sv);
         sv = sv\<lparr>sv_heap := sv_heap sv @ [s], sv_host := h\<rparr>
     in do {
       sv \<leftarrow> on_session (rudpInput data) p sv;
       let l = sv_listener sv;
       let l = l\<lparr>l_sessions := AList.update from p (l_sessions l)\<rparr>;
       let l = l\<lparr>l_chAccepts := l_chAccepts l @ [p]\<rparr>;
       Some (sv\<lparr>sv_listener := l\<rparr>)
     })"

text \<open>The code opens a session only while the channel has room, so the send to it never blocks.\<close>

definition admit_peer :: "bool \<Rightarrow> int \<Rightarrow> u32 \<Rightarrow> u8 list \<Rightarrow> addr \<Rightarrow> server \<Rightarrow> server option" where
  "admit_peer xconn now conv data from sv =
    (if length (l_chAccepts (sv_listener sv)) < acceptBacklog then open_session xconn now conv data from sv else Some sv)"

definition listener_input :: "bool \<Rightarrow> int \<Rightarrow> u8 list \<Rightarrow> addr \<Rightarrow> server \<Rightarrow> server option" where
  "listener_input xconn now data from sv =
    (let decrypted = (if l_block (sv_listener sv) \<and> length data \<ge> cryptHeaderSize then False else \<not> l_block (sv_listener sv))
     in if decrypted \<and> length data \<ge> IRUDP_OVERHEAD
     then do {
       let s = map_of (l_sessions (sv_listener sv)) from;
       (conv, _) \<leftarrow> decodeUint32 (take 4 data);
       (sn, _) \<leftarrow> decodeUint32 (drop IRUDP_SN_OFFSET data);
       (s, sv) \<leftarrow> (case s of
           Some p \<Rightarrow>
             if conv = rudp_conv (s_rudp (sv_heap sv ! p)) then do { sv \<leftarrow> on_session (rudpInput data) p sv; Some (s, sv) }
             else if sn = 0 then do { sv \<leftarrow> close_served p sv; Some (None, sv) }
             else Some (s, sv)
         | None \<Rightarrow> Some (s, sv));
       if s = None then admit_peer xconn now conv data from sv else Some sv
     }
     else Some sv)"

section \<open>Monitor loops\<close>

text \<open>As for the read loops, on the results the socket gives; each datagram comes with the time.\<close>

fun defaultMonitor :: "bool \<Rightarrow> (sock_error + (int \<times> datagram)) list \<Rightarrow> server \<Rightarrow> server option" where
  "defaultMonitor xconn [] sv = Some sv"
| "defaultMonitor xconn (Inl err # q) sv = Some (Listener_notifyReadError err sv)"
| "defaultMonitor xconn (Inr (now, data, from) # q) sv =
    do { sv \<leftarrow> listener_input xconn now data from sv; defaultMonitor xconn q sv }"

fun monitor_batch :: "bool \<Rightarrow> (int \<times> datagram) list \<Rightarrow> server \<Rightarrow> server option" where
  "monitor_batch xconn [] sv = Some sv"
| "monitor_batch xconn ((now, data, from) # q) sv =
    do { sv \<leftarrow> listener_input xconn now data from sv; monitor_batch xconn q sv }"

fun monitor_batches :: "bool \<Rightarrow> (sock_error + (int \<times> datagram) list) list \<Rightarrow> (sock_error + (int \<times> datagram)) list \<Rightarrow>
    server \<Rightarrow> server option" where
  "monitor_batches xconn [] singles sv = Some sv"
| "monitor_batches xconn (Inl err # q) singles sv =
    (if err = OpSyscall ''recvmmsg'' then defaultMonitor xconn singles sv
     else Some (Listener_notifyReadError err sv))"
| "monitor_batches xconn (Inr msgs # q) singles sv =
    do { sv \<leftarrow> monitor_batch xconn msgs sv; monitor_batches xconn q singles sv }"

text \<open>A connection that is a \<^verbatim>\<open>*net.UDPConn\<close> (\<open>xconn\<close>) is read in batches.\<close>

definition monitor :: "bool \<Rightarrow> (sock_error + (int \<times> datagram) list) list \<Rightarrow> (sock_error + (int \<times> datagram)) list \<Rightarrow>
    server \<Rightarrow> server option" where
  "monitor xconn batches singles sv =
    (if \<not> xconn then defaultMonitor xconn singles sv else monitor_batches xconn batches singles sv)"

end
