(* ===== verification/Listener_Spec.thy ===== *)
theory Listener_Spec
  imports Listener
begin

text \<open>
  The invariant of a server: exactly the live sessions are in the table, each under its own
  peer, and no operation panics.
\<close>

section \<open>The invariant\<close>

definition served_ok :: "bool \<Rightarrow> UDPSession \<Rightarrow> bool" where
  "served_ok block s \<longleftrightarrow> session_ok s \<and> s_listener s \<and> s_block s = block"

definition table_ok :: "(addr \<times> nat) list \<Rightarrow> UDPSession list \<Rightarrow> bool" where
  "table_ok t heap \<longleftrightarrow> (\<forall>a p. map_of t a = Some p \<longleftrightarrow> p < length heap \<and> \<not> s_die (heap ! p) \<and> s_remote (heap ! p) = a)"

definition backlog_ok :: "nat list \<Rightarrow> UDPSession list \<Rightarrow> bool" where
  "backlog_ok ps heap \<longleftrightarrow> length ps \<le> acceptBacklog \<and> distinct ps \<and> set ps \<subseteq> {..<length heap}"

definition server_ok :: "server \<Rightarrow> bool" where
  "server_ok sv \<longleftrightarrow> batches_ok (sv_host sv) \<and> (\<forall>s \<in> set (sv_heap sv). served_ok (l_block (sv_listener sv)) s) \<and>
     table_ok (l_sessions (sv_listener sv)) (sv_heap sv) \<and> backlog_ok (l_chAccepts (sv_listener sv)) (sv_heap sv)"

lemma table_okD:
  "table_ok t heap \<Longrightarrow> map_of t a = Some p \<Longrightarrow> p < length heap \<and> \<not> s_die (heap ! p) \<and> s_remote (heap ! p) = a"
  by (simp add: table_ok_def)

lemma table_ok_same:
  assumes "table_ok t heap" "p < length heap" "same_id (heap ! p) s"
  shows "table_ok t (heap[p := s])"
  using assms unfolding table_ok_def same_id_def by (auto simp: nth_list_update)

lemma table_ok_add:
  assumes "table_ok t heap" "map_of t (s_remote s) = None" "\<not> s_die s"
  shows "table_ok (AList.update (s_remote s) (length heap) t) (heap @ [s])"
  unfolding table_ok_def
proof (intro allI)
  fix a p
  have free: "\<not> (q < length heap \<and> \<not> s_die (heap ! q) \<and> s_remote (heap ! q) = s_remote s)" for q
    using assms(1,2) by (metis option.distinct(1) table_ok_def)
  show "map_of (AList.update (s_remote s) (length heap) t) a = Some p \<longleftrightarrow>
      p < length (heap @ [s]) \<and> \<not> s_die ((heap @ [s]) ! p) \<and> s_remote ((heap @ [s]) ! p) = a"
  proof (cases "a = s_remote s")
    case True
    then show ?thesis using free [of p] assms(3) by (auto simp: update_conv' nth_append less_Suc_eq)
  next
    case False
    then show ?thesis using assms(1) by (auto simp: update_conv' table_ok_def nth_append less_Suc_eq)
  qed
qed

lemma table_ok_delete:
  assumes "table_ok t heap" "p < length heap" "s_remote s = s_remote (heap ! p)" "s_die s" "\<not> s_die (heap ! p)"
  shows "table_ok (AList.delete (s_remote (heap ! p)) t) (heap[p := s])"
  unfolding table_ok_def
proof (intro allI)
  fix a q
  have unique: "q = p" if "q < length heap" "\<not> s_die (heap ! q)" "s_remote (heap ! q) = s_remote (heap ! p)" for q
    using assms(1,2,5) that by (metis option.inject table_ok_def)
  show "map_of (AList.delete (s_remote (heap ! p)) t) a = Some q \<longleftrightarrow>
      q < length (heap[p := s]) \<and> \<not> s_die (heap[p := s] ! q) \<and> s_remote (heap[p := s] ! q) = a"
    using assms unique [of q] by (auto simp: delete_conv' table_ok_def nth_list_update)
qed

text \<open>A step of one session that keeps its identity.\<close>

lemma server_ok_step:
  assumes "server_ok sv" "p < length (sv_heap sv)" "session_ok s" "same_id (sv_heap sv ! p) s" "batches_ok h"
  shows "server_ok (sv\<lparr>sv_heap := (sv_heap sv)[p := s], sv_host := h\<rparr>)"
proof -
  have "served_ok (l_block (sv_listener sv)) (sv_heap sv ! p)" using assms(1,2) by (simp add: server_ok_def)
  then have "served_ok (l_block (sv_listener sv)) s" using assms(3,4) by (simp add: served_ok_def same_id_def)
  then have "\<forall>x \<in> set ((sv_heap sv)[p := s]). served_ok (l_block (sv_listener sv)) x"
    using assms(1) set_update_subset_insert [of "sv_heap sv" p s] by (auto simp: server_ok_def)
  then show ?thesis using assms table_ok_same [of _ "sv_heap sv" p s] by (simp add: server_ok_def backlog_ok_def)
qed

lemma server_ok_session: "server_ok sv \<Longrightarrow> p < length (sv_heap sv) \<Longrightarrow> served_ok (l_block (sv_listener sv)) (sv_heap sv ! p)"
  by (simp add: server_ok_def)

lemma rudpInput_same_id:
  assumes "session_ok s" "batches_ok h" "length data \<le> mtuLimit"
  shows "\<exists>s' h'. rudpInput data s h = Some (s', h') \<and> session_ok s' \<and> batches_ok h' \<and> same_id s s'"
proof -
  obtain r w s' h' where run: "rudpInput data s h = Some (s', h')" and t: "transmitted s h r w s' h'"
    using rudpInput_total [OF assms] by blast
  have "session_ok s'" "batches_ok h'" "same_id s s'" using t by (simp_all add: transmitted_def same_settings_def same_id_def)
  then show ?thesis using run by blast
qed

lemma on_session_input:
  assumes "server_ok sv" "p < length (sv_heap sv)" "length data \<le> mtuLimit"
  shows "\<exists>s h. on_session (rudpInput data) p sv = Some (sv\<lparr>sv_heap := (sv_heap sv)[p := s], sv_host := h\<rparr>) \<and>
    server_ok (sv\<lparr>sv_heap := (sv_heap sv)[p := s], sv_host := h\<rparr>)"
proof -
  have "session_ok (sv_heap sv ! p)" "batches_ok (sv_host sv)"
    using server_ok_session [OF assms(1,2)] assms(1) by (simp_all add: served_ok_def server_ok_def)
  from rudpInput_same_id [OF this assms(3)] obtain s h where
    run: "rudpInput data (sv_heap sv ! p) (sv_host sv) = Some (s, h)" and "session_ok s" "batches_ok h" "same_id (sv_heap sv ! p) s"
    by blast
  then have "server_ok (sv\<lparr>sv_heap := (sv_heap sv)[p := s], sv_host := h\<rparr>)" using server_ok_step [OF assms(1,2)] by blast
  moreover have "on_session (rudpInput data) p sv = Some (sv\<lparr>sv_heap := (sv_heap sv)[p := s], sv_host := h\<rparr>)"
    using run by (simp add: on_session_def)
  ultimately show ?thesis by blast
qed

lemma sess_Close_result:
  assumes "session_ok s" "batches_ok h" "s_listener s" "\<not> s_die s"
  shows "\<exists>s' h'. sess_Close s h = Some (CloseSession (s_remote s), s', h') \<and> session_ok s' \<and> batches_ok h' \<and>
    same_id (s\<lparr>s_die := True\<rparr>) s'"
proof -
  obtain c s' h' where c: "sess_Close s h = Some (c, s', h')" "session_ok s'" "batches_ok h'"
    using Close_total [OF assms(1,2)] by blast
  have id: "same_id (s\<lparr>s_die := True\<rparr>) s'" using close_unread [OF assms(1,2) c(1)] by (simp add: unread_def)
  then have "c = CloseSession (s_remote s)"
    using c(1) assms(3,4) by (auto simp: sess_Close_def Let_def bind_eq_Some_conv same_id_def split: if_splits)
  then show ?thesis using c id by blast
qed

lemma close_served_ok:
  assumes "server_ok sv" "p < length (sv_heap sv)"
  shows "\<exists>s h. close_served p sv = Some (sv\<lparr>sv_heap := (sv_heap sv)[p := s], sv_host := h,
      sv_listener := (if s_die (sv_heap sv ! p) then sv_listener sv else snd (closeSession (s_remote (sv_heap sv ! p)) (sv_listener sv)))\<rparr>) \<and>
    s_die s \<and> server_ok (the (close_served p sv))"
proof -
  let ?s = "sv_heap sv ! p" and ?l = "sv_listener sv"
  have s: "session_ok ?s" "batches_ok (sv_host sv)" "s_listener ?s" "s_block ?s = l_block ?l"
    using server_ok_session [OF assms] assms(1) by (simp_all add: served_ok_def server_ok_def)
  show ?thesis
  proof (cases "s_die ?s")
    case True
    then have "close_served p sv = Some sv" by (simp add: close_served_def close_locked_def close_unlist_def sess_Close_def)
    moreover have "sv\<lparr>sv_heap := (sv_heap sv)[p := ?s], sv_host := sv_host sv, sv_listener := ?l\<rparr> = sv" by simp
    ultimately show ?thesis using True assms(1) by (intro exI [of _ ?s] exI [of _ "sv_host sv"]) simp
  next
    case False
    obtain s' h' where c: "sess_Close ?s (sv_host sv) = Some (CloseSession (s_remote ?s), s', h')" "session_ok s'" "batches_ok h'"
      and id: "same_id (?s\<lparr>s_die := True\<rparr>) s'" using sess_Close_result [OF s(1-3) False] by blast
    let ?sv = "sv\<lparr>sv_heap := (sv_heap sv)[p := s'], sv_host := h', sv_listener := snd (closeSession (s_remote ?s) ?l)\<rparr>"
    have run: "close_served p sv = Some ?sv" using c(1) by (simp add: close_served_def close_locked_def close_unlist_def)
    have "map_of (l_sessions ?l) (s_remote ?s) = Some p"
      using assms False by (simp add: server_ok_def table_ok_def)
    then have l: "snd (closeSession (s_remote ?s) ?l) = ?l\<lparr>l_sessions := AList.delete (s_remote ?s) (l_sessions ?l)\<rparr>"
      by (simp add: closeSession_def)
    have "served_ok (l_block ?l) s'" using s(3,4) c(2) id by (simp add: served_ok_def same_id_def)
    then have "\<forall>x \<in> set ((sv_heap sv)[p := s']). served_ok (l_block ?l) x"
      using assms(1) set_update_subset_insert [of "sv_heap sv" p s'] by (auto simp: server_ok_def)
    moreover have "table_ok (AList.delete (s_remote ?s) (l_sessions ?l)) ((sv_heap sv)[p := s'])"
      by (rule table_ok_delete) (use assms False id in \<open>simp_all add: server_ok_def same_id_def\<close>)
    ultimately have "server_ok ?sv" using assms(1) c(3) by (simp add: l server_ok_def backlog_ok_def)
    then show ?thesis using run False id by (intro exI [of _ s'] exI [of _ h']) (simp add: same_id_def)
  qed
qed

section \<open>What a packet leaves alone\<close>

text \<open>Sessions and table entries of other peers; the backlog only grows.\<close>

definition others_kept :: "addr \<Rightarrow> server \<Rightarrow> server \<Rightarrow> bool" where
  "others_kept a sv sv' \<longleftrightarrow> length (sv_heap sv) \<le> length (sv_heap sv') \<and>
     (\<forall>p < length (sv_heap sv). s_remote (sv_heap sv ! p) \<noteq> a \<longrightarrow> sv_heap sv' ! p = sv_heap sv ! p) \<and>
     (\<forall>b. b \<noteq> a \<longrightarrow> map_of (l_sessions (sv_listener sv')) b = map_of (l_sessions (sv_listener sv)) b) \<and>
     prefix (l_chAccepts (sv_listener sv)) (l_chAccepts (sv_listener sv'))"

lemma others_kept_refl: "others_kept a sv sv"
  by (simp add: others_kept_def)

lemma others_kept_trans: "others_kept a sv1 sv2 \<Longrightarrow> others_kept a sv2 sv3 \<Longrightarrow> others_kept a sv1 sv3"
  unfolding others_kept_def by (auto intro: prefix_order.trans)

lemma nth_update_other: "s_remote (xs ! p) = a \<Longrightarrow> s_remote (xs ! i) \<noteq> a \<Longrightarrow> xs[p := s] ! i = xs ! i"
  by (cases "i = p") simp_all

lemma others_kept_session:
  "s_remote (sv_heap sv ! p) = a \<Longrightarrow> others_kept a sv (sv\<lparr>sv_heap := (sv_heap sv)[p := s], sv_host := h\<rparr>)"
  by (auto simp: others_kept_def nth_update_other)

lemma others_kept_close:
  assumes "server_ok sv" "p < length (sv_heap sv)" "close_served p sv = Some sv'"
  shows "others_kept (s_remote (sv_heap sv ! p)) sv sv'"
proof -
  obtain s h where "sv' = sv\<lparr>sv_heap := (sv_heap sv)[p := s], sv_host := h,
      sv_listener := (if s_die (sv_heap sv ! p) then sv_listener sv else snd (closeSession (s_remote (sv_heap sv ! p)) (sv_listener sv)))\<rparr>"
    using close_served_ok [OF assms(1,2)] assms(3) by auto
  then show ?thesis by (auto simp: others_kept_def nth_update_other closeSession_def delete_conv')
qed

section \<open>A new session\<close>

lemma newUDPSession_id:
  fixes conv block listener own raddr xconn now h
  defines "s \<equiv> fst (newUDPSession conv block listener own raddr xconn now h)"
  shows "s_remote s = raddr" "s_listener s = listener" "s_block s = block" "\<not> s_die s"
  by (simp_all add: s_def newUDPSession_def Let_def)

lemma open_session_ok:
  assumes "server_ok sv" "map_of (l_sessions (sv_listener sv)) from = None" "length data \<le> mtuLimit"
    and "length (l_chAccepts (sv_listener sv)) < acceptBacklog"
  shows "\<exists>s h. rudpInput data (fst (newUDPSession conv (l_block (sv_listener sv)) True False from xconn now (sv_host sv)))
      (snd (newUDPSession conv (l_block (sv_listener sv)) True False from xconn now (sv_host sv))) = Some (s, h) \<and>
    open_session xconn now conv data from sv = Some (sv\<lparr>sv_heap := sv_heap sv @ [s], sv_host := h,
      sv_listener := (sv_listener sv)\<lparr>l_sessions := AList.update from (length (sv_heap sv)) (l_sessions (sv_listener sv)),
        l_chAccepts := l_chAccepts (sv_listener sv) @ [length (sv_heap sv)]\<rparr>\<rparr>) \<and>
    s_remote s = from \<and> \<not> s_die s \<and> server_ok (the (open_session xconn now conv data from sv))"
proof -
  let ?l = "sv_listener sv" and ?heap = "sv_heap sv"
  obtain s0 h0 where new: "newUDPSession conv (l_block ?l) True False from xconn now (sv_host sv) = (s0, h0)"
    by (cases "newUDPSession conv (l_block ?l) True False from xconn now (sv_host sv)")
  have "session_ok s0" "batches_ok h0"
    using session_ok_new [of conv "l_block ?l" True False "from" xconn now "sv_host sv"] new assms(1) by (simp_all add: server_ok_def)
  from rudpInput_same_id [OF this assms(3)] obtain s h where run: "rudpInput data s0 h0 = Some (s, h)"
    and s: "session_ok s" "batches_ok h" "same_id s0 s" by blast
  then have id: "s_remote s = from" "s_listener s" "s_block s = l_block ?l" "\<not> s_die s"
    using newUDPSession_id [of conv "l_block ?l" True False "from" xconn now "sv_host sv"] new by (simp_all add: same_id_def)
  let ?l' = "?l\<lparr>l_sessions := AList.update from (length ?heap) (l_sessions ?l), l_chAccepts := l_chAccepts ?l @ [length ?heap]\<rparr>"
  let ?sv = "sv\<lparr>sv_heap := ?heap @ [s], sv_host := h, sv_listener := ?l'\<rparr>"
  have open_eq: "open_session xconn now conv data from sv = Some ?sv"
    using run by (simp add: open_session_def new on_session_def Let_def)
  have "table_ok (AList.update from (length ?heap) (l_sessions ?l)) (?heap @ [s])"
    using table_ok_add [of "l_sessions ?l" ?heap s] assms(1,2) id by (simp add: server_ok_def)
  moreover have "backlog_ok (l_chAccepts ?l @ [length ?heap]) (?heap @ [s])"
    using assms(1,4) by (auto simp: server_ok_def backlog_ok_def)
  moreover have "\<forall>x \<in> set (?heap @ [s]). served_ok (l_block ?l) x"
    using assms(1) id s(1) by (auto simp: server_ok_def served_ok_def)
  ultimately have "server_ok ?sv" using s(2) by (simp add: server_ok_def)
  then show ?thesis using run open_eq id new by (intro exI [of _ s] exI [of _ h]) simp
qed

lemma others_kept_open:
  "others_kept from sv (sv\<lparr>sv_heap := sv_heap sv @ [s], sv_host := h,
      sv_listener := (sv_listener sv)\<lparr>l_sessions := AList.update from p (l_sessions (sv_listener sv)),
        l_chAccepts := l_chAccepts (sv_listener sv) @ ps\<rparr>\<rparr>)"
  by (auto simp: others_kept_def nth_append update_conv')

section \<open>One packet\<close>

text \<open>The conversation and sequence number the listener looks at.\<close>

lemma packet_fields:
  assumes "24 \<le> length data"
  obtains conv sn x y where "decodeUint32 (take 4 data) = Some (conv, x)" "decodeUint32 (drop 12 data) = Some (sn, y)"
proof -
  have "4 \<le> length (take 4 data)" "4 \<le> length (drop 12 data)" using assms by simp_all
  then show ?thesis using that u32c.dec_total by metis
qed

text \<open>What \<^verbatim>\<open>packetInput\<close> does with a packet it looks at.\<close>

lemma listener_input_eq:
  assumes "\<not> l_block (sv_listener sv)" "24 \<le> length data"
    and "decodeUint32 (take 4 data) = Some (conv, x)" "decodeUint32 (drop 12 data) = Some (sn, y)"
  shows "listener_input xconn now data from sv =
    (case map_of (l_sessions (sv_listener sv)) from of
       None \<Rightarrow> admit_peer xconn now conv data from sv
     | Some p \<Rightarrow>
         if conv = rudp_conv (s_rudp (sv_heap sv ! p)) then on_session (rudpInput data) p sv
         else if sn = 0 then do { sv \<leftarrow> close_served p sv; admit_peer xconn now conv data from sv }
         else Some sv)"
proof -
  have "do { (s, sv) \<leftarrow> do { sv \<leftarrow> f sv; Some (None :: nat option, sv) }; if s = None then g sv else Some sv } =
      do { sv \<leftarrow> f sv; g sv }" for f g :: "server \<Rightarrow> server option"
    by (cases "f sv") simp_all
  moreover have "do { (s, sv) \<leftarrow> do { sv \<leftarrow> f sv; Some (Some (p :: nat), sv) }; if s = None then g sv else Some sv } = f sv"
    for f g :: "server \<Rightarrow> server option" and p
    by (cases "f sv") simp_all
  ultimately show ?thesis using assms by (simp add: listener_input_def split: option.split)
qed

text \<open>
  A peer without a session: one is opened while the backlog has room.
\<close>

lemma admit_peer_ok:
  assumes "server_ok sv" "map_of (l_sessions (sv_listener sv)) from = None" "length data \<le> mtuLimit"
  shows "\<exists>sv'. admit_peer xconn now conv data from sv = Some sv' \<and> server_ok sv' \<and> others_kept from sv sv'"
proof (cases "length (l_chAccepts (sv_listener sv)) < acceptBacklog")
  case True
  obtain s h where o: "open_session xconn now conv data from sv = Some (sv\<lparr>sv_heap := sv_heap sv @ [s], sv_host := h,
      sv_listener := (sv_listener sv)\<lparr>l_sessions := AList.update from (length (sv_heap sv)) (l_sessions (sv_listener sv)),
        l_chAccepts := l_chAccepts (sv_listener sv) @ [length (sv_heap sv)]\<rparr>\<rparr>)" (is "_ = Some ?sv")
    and "server_ok (the (open_session xconn now conv data from sv))" using open_session_ok [OF assms True] by blast
  then have "server_ok ?sv" by simp
  moreover have "admit_peer xconn now conv data from sv = Some ?sv" using True o by (simp add: admit_peer_def)
  ultimately show ?thesis using others_kept_open by blast
next
  case False
  then show ?thesis using assms(1) others_kept_refl by (simp add: admit_peer_def)
qed

text \<open>A session that is replaced, and the two together.\<close>

lemma replace_peer_ok:
  assumes "server_ok sv" "map_of (l_sessions (sv_listener sv)) from = Some p" "length data \<le> mtuLimit"
  shows "\<exists>sv1 sv'. close_served p sv = Some sv1 \<and> admit_peer xconn now conv data from sv1 = Some sv' \<and> s_die (sv_heap sv1 ! p) \<and>
    server_ok sv' \<and> others_kept from sv sv'"
proof -
  have p: "p < length (sv_heap sv)" "\<not> s_die (sv_heap sv ! p)" "s_remote (sv_heap sv ! p) = from"
    using table_okD assms(1,2) by (auto simp: server_ok_def)
  obtain s h where c: "close_served p sv = Some (sv\<lparr>sv_heap := (sv_heap sv)[p := s], sv_host := h,
      sv_listener := snd (closeSession from (sv_listener sv))\<rparr>)" (is "_ = Some ?sv")
    and s: "s_die s" and ok: "server_ok (the (close_served p sv))" using close_served_ok [OF assms(1) p(1)] p(2,3) by auto
  have ok: "server_ok ?sv" using ok c by simp
  have k: "others_kept from sv ?sv" using others_kept_close [OF assms(1) p(1) c] p(3) by simp
  have none: "map_of (l_sessions (sv_listener ?sv)) from = None" using assms(2) by (simp add: closeSession_def delete_conv')
  obtain sv' where "admit_peer xconn now conv data from ?sv = Some sv'" "server_ok sv'" "others_kept from ?sv sv'"
    using admit_peer_ok [OF ok none assms(3), of xconn now conv] by blast
  moreover have "s_die (sv_heap ?sv ! p)" using s p(1) by simp
  ultimately show ?thesis using c others_kept_trans [OF k] by blast
qed

lemma listener_input_ignores:
  "l_block (sv_listener sv) \<or> length data < 24 \<Longrightarrow> listener_input xconn now data from sv = Some sv"
  by (elim disjE) (simp_all add: listener_input_def)

lemma listener_input_total:
  assumes "server_ok sv" "length data \<le> mtuLimit"
  shows "\<exists>sv'. listener_input xconn now data from sv = Some sv' \<and> server_ok sv' \<and> others_kept from sv sv'"
proof (cases "\<not> l_block (sv_listener sv) \<and> 24 \<le> length data")
  case False
  then have "l_block (sv_listener sv) \<or> length data < 24" by linarith
  from listener_input_ignores [OF this] have "listener_input xconn now data from sv = Some sv" .
  then show ?thesis using assms(1) others_kept_refl by blast
next
  case True
  obtain conv sn x y where "decodeUint32 (take 4 data) = Some (conv, x)" "decodeUint32 (drop 12 data) = Some (sn, y)"
    by (rule packet_fields [OF conjunct2 [OF True]])
  note eq = listener_input_eq [OF conjunct1 [OF True] conjunct2 [OF True] this, of xconn now "from"]
  show ?thesis
  proof (cases "map_of (l_sessions (sv_listener sv)) from")
    case None
    then show ?thesis using admit_peer_ok [OF assms(1) None assms(2), of xconn now conv] unfolding eq by (simp only: option.case)
  next
    case (Some p)
    then have p: "p < length (sv_heap sv)" "s_remote (sv_heap sv ! p) = from"
      using table_okD [OF _ Some] assms(1) unfolding server_ok_def by blast+
    obtain s h where "on_session (rudpInput data) p sv = Some (sv\<lparr>sv_heap := (sv_heap sv)[p := s], sv_host := h\<rparr>)"
      "server_ok (sv\<lparr>sv_heap := (sv_heap sv)[p := s], sv_host := h\<rparr>)"
      using on_session_input [OF assms(1) p(1) assms(2)] by blast
    then have "\<exists>sv'. on_session (rudpInput data) p sv = Some sv' \<and> server_ok sv' \<and> others_kept from sv sv'"
      using others_kept_session [OF p(2)] by blast
    moreover obtain sv1 sv' where "close_served p sv = Some sv1" "admit_peer xconn now conv data from sv1 = Some sv'"
        "server_ok sv'" "others_kept from sv sv'" using replace_peer_ok [OF assms(1) Some assms(2), of xconn now conv] by blast
    then have "\<exists>sv'. do { sv \<leftarrow> close_served p sv; admit_peer xconn now conv data from sv } = Some sv' \<and> server_ok sv' \<and> others_kept from sv sv'"
      by simp
    ultimately show ?thesis using assms(1) others_kept_refl unfolding eq Some option.case by (simp only: split: if_split) blast
  qed
qed

section \<open>Read errors\<close>

lemma notify_all:
  "length (fold (\<lambda>(_, p) heap. heap[p := notifyReadError err (heap ! p)]) ps heap) = length heap \<and>
   (\<forall>i < length heap. fold (\<lambda>(_, p) heap. heap[p := notifyReadError err (heap ! p)]) ps heap ! i =
      (if i \<in> snd ` set ps then notifyReadError err (heap ! i) else heap ! i))"
proof (induction ps arbitrary: heap)
  case (Cons a ps)
  obtain b p where a: "a = (b, p)" by (cases a)
  have idem: "notifyReadError err (notifyReadError err s) = notifyReadError err s" for s
    by (simp add: notifyReadError_def)
  have upd: "heap[p := notifyReadError err (heap ! p)] ! i = (if i = p then notifyReadError err (heap ! i) else heap ! i)"
    if "i < length heap" for i using that by (cases "i = p") simp_all
  show ?case using Cons.IH [of "heap[p := notifyReadError err (heap ! p)]"]
    by (auto simp: a upd idem)
qed simp

lemma notifyReadError_keeps:
  "session_ok s \<Longrightarrow> session_ok (notifyReadError err s)" "same_id s (notifyReadError err s)"
  by (simp_all add: notifyReadError_def session_ok_def same_id_def)

lemma server_ok_heap:
  assumes "server_ok sv" "length heap = length (sv_heap sv)"
    and "\<And>i. i < length heap \<Longrightarrow> session_ok (heap ! i) \<and> same_id (sv_heap sv ! i) (heap ! i)"
    and "l_block l = l_block (sv_listener sv)" "l_sessions l = l_sessions (sv_listener sv)" "l_chAccepts l = l_chAccepts (sv_listener sv)"
  shows "server_ok (sv\<lparr>sv_listener := l, sv_heap := heap\<rparr>)"
proof -
  have "served_ok (l_block l) (heap ! i)" if "i < length heap" for i
    using server_ok_session [OF assms(1), of i] assms(3) [OF that] that assms(2,4) by (simp add: served_ok_def same_id_def)
  then have "\<forall>s \<in> set heap. served_ok (l_block l) s" by (auto simp: in_set_conv_nth)
  moreover have "table_ok (l_sessions l) heap"
    using assms(1,2,3,5) unfolding server_ok_def table_ok_def same_id_def by (metis (no_types, lifting))
  ultimately show ?thesis using assms by (simp add: server_ok_def backlog_ok_def)
qed

lemma read_error_ok: "server_ok sv \<Longrightarrow> server_ok (Listener_notifyReadError err sv)"
proof -
  assume ok: "server_ok sv"
  let ?heap = "fold (\<lambda>(_, p) heap. heap[p := notifyReadError err (heap ! p)]) (l_sessions (sv_listener sv)) (sv_heap sv)"
  have len: "length ?heap = length (sv_heap sv)" using notify_all by blast
  have "session_ok (?heap ! i) \<and> same_id (sv_heap sv ! i) (?heap ! i)" if "i < length ?heap" for i
  proof -
    have "session_ok (sv_heap sv ! i)" using server_ok_session [OF ok, of i] that len by (simp add: served_ok_def)
    moreover have "?heap ! i = notifyReadError err (sv_heap sv ! i) \<or> ?heap ! i = sv_heap sv ! i"
      using notify_all [of err "l_sessions (sv_listener sv)" "sv_heap sv"] that len by auto
    ultimately show ?thesis using notifyReadError_keeps by (auto simp: same_id_def)
  qed
  from server_ok_heap [OF ok len this, of "(sv_listener sv)\<lparr>l_socketReadError := Some err\<rparr>"]
  show ?thesis using ok by (simp add: Listener_notifyReadError_def)
qed

section \<open>Histories of a server\<close>

text \<open>
  Packets the monitor reads, calls and timer events of the sessions, calls of \<^verbatim>\<open>Accept\<close>, the end
  of the monitor, and \<^verbatim>\<open>Close\<close>.
\<close>

datatype server_event =
    Sv_Packet int "u8 list" addr
  | Sv_Call nat sess_event
  | Sv_Accept select_case
  | Sv_ReadError sock_error
  | Sv_Close

fun run_server_event :: "bool \<Rightarrow> server_event \<Rightarrow> server \<Rightarrow> server option" where
  "run_server_event xconn (Sv_Packet now data from) sv = listener_input xconn now data from sv"
| "run_server_event xconn (Sv_Call p ev) sv = (if ev = Ev_Close then close_served p sv else on_session (run_event ev) p sv)"
| "run_server_event xconn (Sv_Accept c) sv = Some (sv\<lparr>sv_listener := snd (AcceptRUDP c (sv_listener sv))\<rparr>)"
| "run_server_event xconn (Sv_ReadError err) sv = Some (Listener_notifyReadError err sv)"
| "run_server_event xconn Sv_Close sv = Some (sv\<lparr>sv_listener := snd (Listener_Close (sv_listener sv))\<rparr>)"

fun can_serve :: "server_event \<Rightarrow> server \<Rightarrow> bool" where
  "can_serve (Sv_Packet now data from) sv = (length data \<le> mtuLimit)"
| "can_serve (Sv_Call p ev) sv = (p < length (sv_heap sv) \<and> can_happen ev (sv_heap sv ! p))"
| "can_serve (Sv_Accept c) sv = accept_ready True (sv_listener sv) c"
| "can_serve ev sv = True"

fun run_server :: "bool \<Rightarrow> server_event list \<Rightarrow> server \<Rightarrow> server option" where
  "run_server xconn [] sv = Some sv"
| "run_server xconn (ev # evs) sv =
    (if can_serve ev sv then do { sv \<leftarrow> run_server_event xconn ev sv; run_server xconn evs sv } else run_server xconn evs sv)"

lemma served_call_ok:
  assumes "server_ok sv" "p < length (sv_heap sv)" "can_happen ev (sv_heap sv ! p)" "ev \<noteq> Ev_Close"
  shows "\<exists>sv'. on_session (run_event ev) p sv = Some sv' \<and> server_ok sv'"
proof -
  have s: "session_ok (sv_heap sv ! p)" "batches_ok (sv_host sv)"
    using server_ok_session [OF assms(1,2)] assms(1) by (simp_all add: served_ok_def server_ok_def)
  obtain s' h' where r: "run_event ev (sv_heap sv ! p) (sv_host sv) = Some (s', h')" "session_ok s'" "batches_ok h'"
    using run_event_total [OF s assms(3)] by blast
  have "same_id (sv_heap sv ! p) s'" using event_same_id [OF s assms(3) r(1) assms(4)] .
  from server_ok_step [OF assms(1,2) r(2) this r(3)] show ?thesis using r(1) by (simp add: on_session_def)
qed

lemma server_event_ok:
  assumes "server_ok sv" "can_serve ev sv"
  shows "\<exists>sv'. run_server_event xconn ev sv = Some sv' \<and> server_ok sv'"
proof (cases ev)
  case (Sv_Packet now data "from")
  then show ?thesis using listener_input_total [OF assms(1), of data xconn now "from"] assms(2) by auto
next
  case (Sv_Call p e)
  then have p: "p < length (sv_heap sv)" "can_happen e (sv_heap sv ! p)" using assms(2) by simp_all
  show ?thesis
  proof (cases "e = Ev_Close")
    case True
    obtain sv' where "close_served p sv = Some sv'" "server_ok sv'" using close_served_ok [OF assms(1) p(1)] by force
    then show ?thesis using Sv_Call True by simp
  next
    case False
    then show ?thesis using served_call_ok [OF assms(1) p False] Sv_Call by simp
  qed
next
  case (Sv_Accept c)
  have "set (tl ps) \<subseteq> {..<n}" if "set ps \<subseteq> {..<n}" for ps and n :: nat
    using that by (cases ps) auto
  then have "server_ok (sv\<lparr>sv_listener := snd (AcceptRUDP c (sv_listener sv))\<rparr>)"
    using assms(1) by (cases c) (auto simp: AcceptRUDP_def server_ok_def backlog_ok_def distinct_tl)
  then show ?thesis using Sv_Accept by simp
next
  case (Sv_ReadError err)
  then show ?thesis using read_error_ok [OF assms(1)] by simp
next
  case Sv_Close
  then show ?thesis using assms(1) by (simp add: Listener_Close_def server_ok_def)
qed

lemma run_server_ok: "server_ok sv \<Longrightarrow> \<exists>sv'. run_server xconn evs sv = Some sv' \<and> server_ok sv'"
proof (induction evs arbitrary: sv)
  case (Cons ev evs)
  show ?case
  proof (cases "can_serve ev sv")
    case True
    then obtain sv1 where "run_server_event xconn ev sv = Some sv1" "server_ok sv1"
      using server_event_ok [OF Cons.prems True] by blast
    then show ?thesis using Cons.IH [of sv1] True by simp
  next
    case False
    then show ?thesis using Cons by simp
  qed
qed simp

lemma server_ok_new: "batches_ok h \<Longrightarrow> server_ok \<lparr>sv_listener = serveConn block own, sv_heap = [], sv_host = h\<rparr>"
  by (simp add: server_ok_def serveConn_def table_ok_def backlog_ok_def)

section \<open>Properties\<close>



text \<open>
  Claim C23. Sessions are isolated: a packet changes no session and no table entry of another
  peer, whatever it contains, and leaves the order of the sessions waiting to be accepted.
\<close>

theorem packet_touches_only_its_peer:
  assumes "server_ok sv" and "length data \<le> mtuLimit"
  shows "\<exists>sv'. listener_input xconn now data from sv = Some sv' \<and>
    (\<forall>p < length (sv_heap sv). s_remote (sv_heap sv ! p) \<noteq> from \<longrightarrow> sv_heap sv' ! p = sv_heap sv ! p) \<and>
    (\<forall>b. b \<noteq> from \<longrightarrow> map_of (l_sessions (sv_listener sv')) b = map_of (l_sessions (sv_listener sv)) b) \<and>
    prefix (l_chAccepts (sv_listener sv)) (l_chAccepts (sv_listener sv'))"
  using listener_input_total [OF assms, of xconn now "from"] unfolding others_kept_def by blast

lemma demo_server_ok:
  "server_ok \<lparr>sv_listener = serveConn False True, sv_heap = [], sv_host = demo_host (\<lambda>_ l. Inr l)\<rparr>"
  by (rule server_ok_new) (simp add: batches_ok_def demo_host_def)

theorem packet_touches_only_its_peer_witness:
  "\<exists>sv sv'. run_server True [Sv_Packet 0 (replicate 24 0) ''a''] \<lparr>sv_listener = serveConn False True, sv_heap = [],
      sv_host = demo_host (\<lambda>_ l. Inr l)\<rparr> = Some sv \<and>
    listener_input True 1 (replicate 30 7) ''b'' sv = Some sv' \<and>
    map_of (l_sessions (sv_listener sv')) ''a'' = map_of (l_sessions (sv_listener sv)) ''a''"
proof -
  obtain sv where run: "run_server True [Sv_Packet 0 (replicate 24 0) ''a''] \<lparr>sv_listener = serveConn False True, sv_heap = [],
      sv_host = demo_host (\<lambda>_ l. Inr l)\<rparr> = Some sv" and ok: "server_ok sv"
    using run_server_ok [OF demo_server_ok] by blast
  have "length (replicate 30 (7 :: u8)) \<le> mtuLimit" by simp
  from packet_touches_only_its_peer [OF ok this, of True 1 "''b''"] obtain sv' where
    "listener_input True 1 (replicate 30 7) ''b'' sv = Some sv'"
    "\<forall>b. b \<noteq> ''b'' \<longrightarrow> map_of (l_sessions (sv_listener sv')) b = map_of (l_sessions (sv_listener sv)) b" by blast
  then show ?thesis using run by (intro exI [of _ sv] exI [of _ sv']) simp
qed

text \<open>
  Claim C28. Every packet of at least 24 bytes from a peer without a session opens one while the
  backlog has room: a session with the packet's conversation number is created, fed the
  packet, entered under the peer and put at the end of the backlog, even if \<^verbatim>\<open>Input\<close> rejects
  the packet, such as one made of zero bytes.
\<close>

theorem unknown_peer_opens_session:
  assumes "server_ok sv" and "\<not> l_block (sv_listener sv)" and "24 \<le> length data" and "length data \<le> mtuLimit"
    and "map_of (l_sessions (sv_listener sv)) from = None" and "length (l_chAccepts (sv_listener sv)) < acceptBacklog"
    and "decodeUint32 (take 4 data) = Some (conv, rest)"
    and "newUDPSession conv False True False from xconn now (sv_host sv) = (s0, h0)"
  shows "\<exists>s h sv'. rudpInput data s0 h0 = Some (s, h) \<and> listener_input xconn now data from sv = Some sv' \<and>
    sv_heap sv' = sv_heap sv @ [s] \<and> map_of (l_sessions (sv_listener sv')) from = Some (length (sv_heap sv)) \<and>
    l_chAccepts (sv_listener sv') = l_chAccepts (sv_listener sv) @ [length (sv_heap sv)]"
proof -
  obtain conv' sn x y where d: "decodeUint32 (take 4 data) = Some (conv', x)" "decodeUint32 (drop 12 data) = Some (sn, y)"
    by (rule packet_fields [OF assms(3)])
  have "listener_input xconn now data from sv = admit_peer xconn now conv data from sv"
    using listener_input_eq [OF assms(2,3) d, of xconn now "from"] d(1) assms(5,7) by simp
  also have "\<dots> = open_session xconn now conv data from sv" using assms(6) by (simp add: admit_peer_def)
  finally show ?thesis
    using open_session_ok [OF assms(1,5,4,6), of conv xconn now] assms(2,8) by (auto simp: update_conv')
qed

theorem unknown_peer_opens_session_witness:
  "\<exists>s sv'. listener_input True 5 (replicate 24 0) ''x'' \<lparr>sv_listener = serveConn False True, sv_heap = [],
      sv_host = demo_host (\<lambda>_ l. Inr l)\<rparr> = Some sv' \<and> sv_heap sv' = [s] \<and> l_chAccepts (sv_listener sv') = [0]"
proof -
  let ?sv = "\<lparr>sv_listener = serveConn False True, sv_heap = [], sv_host = demo_host (\<lambda>_ l. Inr l)\<rparr>"
  obtain s0 h0 where new: "newUDPSession 0 False True False ''x'' True 5 (sv_host ?sv) = (s0, h0)" by fastforce
  have "decodeUint32 (take 4 (replicate 24 0)) = Some (0, [])" by (simp add: decodeUint32_def numeral_eq_Suc)
  from unknown_peer_opens_session [OF demo_server_ok _ _ _ _ _ this new]
  show ?thesis by (auto simp: serveConn_def)
qed

text \<open>
  Claim C29. A packet of a known peer with another conversation number is ignored unless its
  sequence number is 0; then the session is closed and leaves the table, and the packet is
  treated as one of a new peer.
\<close>

theorem other_conversation:
  assumes "server_ok sv" and "\<not> l_block (sv_listener sv)" and "24 \<le> length data" and "length data \<le> mtuLimit"
    and "map_of (l_sessions (sv_listener sv)) from = Some p"
    and "decodeUint32 (take 4 data) = Some (conv, rest)" and "conv \<noteq> rudp_conv (s_rudp (sv_heap sv ! p))"
    and "decodeUint32 (drop 12 data) = Some (sn, rest')"
  shows "(sn \<noteq> 0 \<longrightarrow> listener_input xconn now data from sv = Some sv) \<and>
    (sn = 0 \<longrightarrow> (\<exists>sv1 sv'. close_served p sv = Some sv1 \<and> s_die (sv_heap sv1 ! p) \<and>
       map_of (l_sessions (sv_listener sv1)) from = None \<and> admit_peer xconn now conv data from sv1 = Some sv' \<and>
       listener_input xconn now data from sv = Some sv'))"
proof -
  note eq = listener_input_eq [OF assms(2,3,6,8), of xconn now "from", unfolded assms(5) option.case]
  obtain sv1 sv' where 1: "close_served p sv = Some sv1" "admit_peer xconn now conv data from sv1 = Some sv'" "s_die (sv_heap sv1 ! p)"
    using replace_peer_ok [OF assms(1,5,4), of xconn now conv] by blast
  have p: "p < length (sv_heap sv)" "\<not> s_die (sv_heap sv ! p)" "s_remote (sv_heap sv ! p) = from"
    using table_okD [OF _ assms(5)] assms(1) unfolding server_ok_def by blast+
  have "map_of (l_sessions (sv_listener sv1)) from = None"
    using close_served_ok [OF assms(1) p(1)] p(2,3) 1(1) by (auto simp: closeSession_def delete_conv')
  then show ?thesis using 1 eq assms(7) by simp
qed

text \<open>A server with one session, of conversation 7.\<close>

definition demo_server :: server where
  "demo_server = \<lparr>sv_listener = (serveConn False True)\<lparr>l_sessions := [(''peer'', 0)]\<rparr>,
     sv_heap = [demo_session\<lparr>s_listener := True\<rparr>], sv_host = demo_host (\<lambda>_ l. Inr l)\<rparr>"

lemma demo_server_served: "server_ok demo_server"
proof -
  have "fits_mss (NewRudp 7)" "mtu (NewRudp 7) = 1400" "reserved (NewRudp 7) = 0"
    by (simp_all add: fits_mss_def NewRudp_def zero_RUDP_def)
  then have "served_ok False (demo_session\<lparr>s_listener := True\<rparr>)"
    using sizes_ok_NewRudp [of 7] by (simp add: served_ok_def session_ok_def safe_def demo_session_def)
  then show ?thesis
    by (auto simp: demo_server_def server_ok_def serveConn_def table_ok_def backlog_ok_def batches_ok_def demo_host_def demo_session_def)
qed

theorem other_conversation_witness:
  "\<exists>sv1 sv'. close_served 0 demo_server = Some sv1 \<and> s_die (sv_heap sv1 ! 0) \<and>
     listener_input True 5 (replicate 24 0) ''peer'' demo_server = Some sv'"
proof -
  let ?data = "replicate 24 0 :: u8 list"
  have "decodeUint32 (take 4 ?data) = Some (0, [])" "decodeUint32 (drop 12 ?data) = Some (0, replicate 8 0)"
    by (simp_all add: decodeUint32_def numeral_eq_Suc)
  moreover have "0 \<noteq> rudp_conv (s_rudp (sv_heap demo_server ! 0))"
    by (simp add: demo_server_def demo_session_def NewRudp_def zero_RUDP_def)
  ultimately show ?thesis
    using other_conversation [OF demo_server_served, of ?data "''peer''" 0 0 "[]" 0 "replicate 8 0" True 5]
    by (auto simp: demo_server_def serveConn_def)
qed

text \<open>
  Claim C36. The first read error of the listening socket reaches every live session and every
  waiting \<^verbatim>\<open>Accept\<close>: afterwards the error cases of their \<^verbatim>\<open>select\<close> statements are ready.
\<close>

theorem read_error_reaches_sessions:
  assumes "server_ok sv" and "l_socketReadError (sv_listener sv) = None"
  shows "accept_ready False (sv_listener (Listener_notifyReadError err sv)) ErrorCase \<and>
    (\<forall>p < length (sv_heap sv). \<not> s_die (sv_heap sv ! p) \<longrightarrow>
       read_ready False (sv_heap (Listener_notifyReadError err sv) ! p) ErrorCase)"
proof -
  have "p \<in> snd ` set (l_sessions (sv_listener sv))" if "p < length (sv_heap sv)" "\<not> s_die (sv_heap sv ! p)" for p
  proof -
    have "map_of (l_sessions (sv_listener sv)) (s_remote (sv_heap sv ! p)) = Some p"
      using assms(1) that by (simp add: server_ok_def table_ok_def)
    then show ?thesis using map_of_SomeD by force
  qed
  moreover have "socketReadError (notifyReadError err s) \<noteq> None" for s by (simp add: notifyReadError_def)
  ultimately show ?thesis using assms(2) notify_all [of err "l_sessions (sv_listener sv)" "sv_heap sv"]
    by (simp add: Listener_notifyReadError_def accept_ready_def read_ready_def)
qed

theorem read_error_reaches_sessions_witness:
  "accept_ready False (sv_listener (Listener_notifyReadError (OtherError ''closed'') demo_server)) ErrorCase \<and>
   read_ready False (sv_heap (Listener_notifyReadError (OtherError ''closed'') demo_server) ! 0) ErrorCase"
  using read_error_reaches_sessions [OF demo_server_served, of "OtherError ''closed''"]
  by (simp add: demo_server_def serveConn_def demo_session_def)

text \<open>
  The race of \<^verbatim>\<open>Close\<close> with the monitor. Between the two halves of a user's \<^verbatim>\<open>Close\<close> a packet of
  the same peer with a new conversation replaces the dying session; the second half then removes
  the table entry of the new session, which lives on but gets no packet any more.
\<close>

lemma close_race_orphans_session:
  "map_option (\<lambda>sv. length (sv_heap sv) = 2 \<and> \<not> s_die (sv_heap sv ! 1) \<and> s_remote (sv_heap sv ! 1) = ''peer'' \<and>
       l_chAccepts (sv_listener sv) = [1] \<and> l_sessions (sv_listener sv) = [])
     (do { (c, sv) \<leftarrow> close_locked 0 demo_server; sv \<leftarrow> listener_input True 5 (replicate 24 0) ''peer'' sv;
           Some (close_unlist c sv) }) = Some True"
  by code_simp

section \<open>The monitor loops\<close>

lemma monitor_batch_append:
  "monitor_batch x (ms @ ms') sv = do { sv \<leftarrow> monitor_batch x ms sv; monitor_batch x ms' sv }"
  by (induction x ms sv rule: monitor_batch.induct) (auto split: bind_splits)

lemma monitor_batches_prefix:
  "monitor_batches x (map Inr bs @ rest) singles sv =
    do { sv \<leftarrow> monitor_batch x (concat bs) sv; monitor_batches x rest singles sv }"
  by (induction bs arbitrary: sv) (auto simp: monitor_batch_append split: bind_splits)

lemma defaultMonitor_prefix:
  "defaultMonitor x (map Inr ms @ rest) sv = do { sv \<leftarrow> monitor_batch x ms sv; defaultMonitor x rest sv }"
  by (induction x ms sv rule: monitor_batch.induct) (auto split: bind_splits)

lemma monitor_agrees:
  "monitor True (map Inr bs @ Inl err # later) singles sv =
     (if err = OpSyscall ''recvmmsg''
      then do { sv \<leftarrow> defaultMonitor True (map Inr (concat bs)) sv; defaultMonitor True singles sv }
      else defaultMonitor True (map Inr (concat bs) @ Inl err # later') sv)"
  using defaultMonitor_prefix [of True "concat bs" "[]"]
  by (auto simp: monitor_def monitor_batches_prefix defaultMonitor_prefix split: bind_splits)

end
