(* ===== verification/Time_Heap.thy ===== *)
theory Time_Heap
  imports Rudp_Prelude "HOL-Library.Multiset"
begin

text \<open>
  The heap of timed functions of \<^verbatim>\<open>timesched.go\<close>: the five methods of \<^verbatim>\<open>timeFuncHeap\<close> and,
  on top of them, \<^verbatim>\<open>Push\<close> and \<^verbatim>\<open>Pop\<close> of the standard library's \<^verbatim>\<open>container/heap\<close>, as its
  source has them. A deadline (\<^verbatim>\<open>time.Time\<close>) is a number of nanoseconds; the function to
  execute is a value of a type parameter.
\<close>

record 'f timeFunc =
  tf_execute :: 'f
  tf_ts :: int

type_synonym 'f timeFuncHeap = "'f timeFunc list"

definition Less :: "'f timeFuncHeap \<Rightarrow> nat \<Rightarrow> nat \<Rightarrow> bool" where
  "Less h i j \<longleftrightarrow> tf_ts (h ! i) < tf_ts (h ! j)"

definition Swap :: "'f timeFuncHeap \<Rightarrow> nat \<Rightarrow> nat \<Rightarrow> 'f timeFuncHeap" where
  "Swap h i j = h[i := h ! j, j := h ! i]"

definition tfh_Push :: "'f timeFuncHeap \<Rightarrow> 'f timeFunc \<Rightarrow> 'f timeFuncHeap" where
  "tfh_Push h x = h @ [x]"

text \<open>\<^verbatim>\<open>Pop\<close> clears the function only in the slot that falls out of the slice.\<close>

definition tfh_Pop :: "'f timeFuncHeap \<Rightarrow> 'f timeFunc \<times> 'f timeFuncHeap" where
  "tfh_Pop h = (h ! (length h - 1), take (length h - 1) h)"

section \<open>The library's heap operations\<close>

function heap_up :: "'f timeFuncHeap \<Rightarrow> nat \<Rightarrow> 'f timeFuncHeap" where
  "heap_up h j =
    (let i = (j - 1) div 2
     in if i = j \<or> \<not> Less h j i then h else heap_up (Swap h i j) i)"
  by auto
termination by (relation "measure snd") auto

definition heap_child :: "'f timeFuncHeap \<Rightarrow> nat \<Rightarrow> nat \<Rightarrow> nat" where
  "heap_child h i n =
    (let j1 = 2 * i + 1; j2 = j1 + 1 in if j2 < n \<and> Less h j2 j1 then j2 else j1)"

lemma heap_child_bounds: "2 * i + 1 < n \<Longrightarrow> heap_child h i n < n \<and> i < heap_child h i n"
  by (simp add: heap_child_def Let_def)

lemma heap_child_less: "Suc (2 * i) < n \<Longrightarrow> n - heap_child h i n < n - i"
  using heap_child_bounds [of i n h] by (auto intro: diff_less_mono2)

function heap_down :: "'f timeFuncHeap \<Rightarrow> nat \<Rightarrow> nat \<Rightarrow> 'f timeFuncHeap" where
  "heap_down h i n =
    (if 2 * i + 1 \<ge> n then h
     else
       let j = heap_child h i n
       in if \<not> Less h j i then h else heap_down (Swap h i j) j n)"
  by auto
termination
  by (relation "measure (\<lambda>(h, i, n). n - i)") (auto simp: heap_child_less not_le)

declare heap_up.simps [simp del] heap_down.simps [simp del]

definition heap_Push :: "'f timeFuncHeap \<Rightarrow> 'f timeFunc \<Rightarrow> 'f timeFuncHeap" where
  "heap_Push h x = (let h = tfh_Push h x in heap_up h (length h - 1))"

definition heap_Pop :: "'f timeFuncHeap \<Rightarrow> 'f timeFunc \<times> 'f timeFuncHeap" where
  "heap_Pop h = (let n = length h - 1; h = Swap h 0 n; h = heap_down h 0 n in tfh_Pop h)"

section \<open>The heap order\<close>

abbreviation parent :: "nat \<Rightarrow> nat" where
  "parent k \<equiv> (k - 1) div 2"

definition is_heap :: "'f timeFuncHeap \<Rightarrow> bool" where
  "is_heap h \<longleftrightarrow> (\<forall>k. 0 < k \<and> k < length h \<longrightarrow> tf_ts (h ! parent k) \<le> tf_ts (h ! k))"

text \<open>In order except that the element at \<open>j\<close> may be too small for its place.\<close>

definition heap_but_up :: "'f timeFuncHeap \<Rightarrow> nat \<Rightarrow> bool" where
  "heap_but_up h j \<longleftrightarrow>
    (\<forall>k. 0 < k \<and> k < length h \<and> k \<noteq> j \<longrightarrow> tf_ts (h ! parent k) \<le> tf_ts (h ! k)) \<and>
    (\<forall>k. 0 < k \<and> k < length h \<and> parent k = j \<and> 0 < j \<longrightarrow> tf_ts (h ! parent j) \<le> tf_ts (h ! k))"

text \<open>The first \<open>n\<close> elements are in order except that the one at \<open>i\<close> may be too large.\<close>

definition heap_but_down :: "'f timeFuncHeap \<Rightarrow> nat \<Rightarrow> nat \<Rightarrow> bool" where
  "heap_but_down h i n \<longleftrightarrow> n \<le> length h \<and>
    (\<forall>k. 0 < k \<and> k < n \<and> parent k \<noteq> i \<longrightarrow> tf_ts (h ! parent k) \<le> tf_ts (h ! k)) \<and>
    (\<forall>k. 0 < k \<and> k < n \<and> parent k = i \<and> 0 < i \<longrightarrow> tf_ts (h ! parent i) \<le> tf_ts (h ! k))"

definition heap_upto :: "'f timeFuncHeap \<Rightarrow> nat \<Rightarrow> bool" where
  "heap_upto h n \<longleftrightarrow> (\<forall>k. 0 < k \<and> k < n \<longrightarrow> tf_ts (h ! parent k) \<le> tf_ts (h ! k))"

lemma length_Swap [simp]: "length (Swap h i j) = length h"
  by (simp add: Swap_def)

lemma mset_Swap: "i < length h \<Longrightarrow> j < length h \<Longrightarrow> mset (Swap h i j) = mset h"
  by (simp add: Swap_def mset_swap)

lemma nth_Swap:
  "i < length h \<Longrightarrow> j < length h \<Longrightarrow> Swap h i j ! k = (if k = i then h ! j else if k = j then h ! i else h ! k)"
  by (auto simp: Swap_def nth_list_update)

lemma heap_up_step:
  assumes "heap_but_up h j" "j < length h" "i = parent j" "i \<noteq> j" "Less h j i"
  shows "heap_but_up (Swap h i j) i"
proof -
  have ij: "i < j" "0 < j" using assms(3,4) by auto
  have below: "tf_ts (h ! parent k) \<le> tf_ts (h ! k)" if "0 < k" "k < length h" "k \<noteq> j" for k
    using assms(1) that by (simp add: heap_but_up_def)
  have kids: "tf_ts (h ! i) \<le> tf_ts (h ! k)" if "0 < k" "k < length h" "parent k = j" for k
    using assms(1,3) that ij by (simp add: heap_but_up_def)
  have less: "tf_ts (h ! j) < tf_ts (h ! i)" using assms(5) by (simp add: Less_def)
  have sw: "Swap h i j ! k = (if k = i then h ! j else if k = j then h ! i else h ! k)" for k
    using ij assms(2) by (intro nth_Swap) auto
  have up: "tf_ts (h ! parent i) \<le> tf_ts (h ! i)" if "0 < i" using below [of i] that ij assms(2) by auto
  have 1: "tf_ts (Swap h i j ! parent k) \<le> tf_ts (Swap h i j ! k)" if k: "0 < k" "k < length h" "k \<noteq> i" for k
  proof (cases "k = j")
    case True
    then show ?thesis using less assms(3) [symmetric] ij by (simp add: sw)
  next
    case False
    consider "parent k = i" | "parent k = j" | "parent k \<noteq> i" "parent k \<noteq> j" by blast
    then show ?thesis
    proof cases
      case 1
      then show ?thesis using below [OF k(1,2) False] less k(3) False by (simp add: sw)
    next
      case 2
      then show ?thesis using kids [OF k(1,2) 2] k(3) False ij by (simp add: sw)
    next
      case 3
      then show ?thesis using below [OF k(1,2) False] k(3) False by (simp add: sw)
    qed
  qed
  have 2: "tf_ts (Swap h i j ! parent i) \<le> tf_ts (Swap h i j ! k)"
    if k: "0 < k" "k < length h" "parent k = i" "0 < i" for k
  proof -
    have p: "parent i \<noteq> i" "parent i \<noteq> j" "k \<noteq> i" using k ij by auto
    then show ?thesis using up [OF k(4)] below [OF k(1,2)] k(3) by (cases "k = j") (auto simp: sw)
  qed
  show ?thesis unfolding heap_but_up_def using 1 2 by simp
qed

lemma heap_up_heap: "heap_but_up h j \<Longrightarrow> j < length h \<Longrightarrow> is_heap (heap_up h j) \<and> mset (heap_up h j) = mset h"
proof (induction h j rule: heap_up.induct)
  case (1 h j)
  show ?case
  proof (cases "parent j = j \<or> \<not> Less h j (parent j)")
    case True
    then have "heap_up h j = h" by (subst heap_up.simps) (simp add: Let_def)
    moreover have "is_heap h"
      using 1(2) True by (auto simp: is_heap_def heap_but_up_def Less_def not_less)
    ultimately show ?thesis by simp
  next
    case False
    then have "heap_up h j = heap_up (Swap h (parent j) j) (parent j)"
      by (subst heap_up.simps) (simp add: Let_def)
    then show ?thesis
      using 1(1) [OF refl False] heap_up_step [OF 1(2,3) refl] False 1(3) mset_Swap [of "parent j" h j] by auto
  qed
qed

lemma heap_down_step:
  assumes "heap_but_down h i n" "2 * i + 1 < n" "j = heap_child h i n" "Less h j i"
  shows "heap_but_down (Swap h i j) j n"
proof -
  have n: "n \<le> length h" and order: "\<And>k. 0 < k \<Longrightarrow> k < n \<Longrightarrow> parent k \<noteq> i \<Longrightarrow> tf_ts (h ! parent k) \<le> tf_ts (h ! k)"
    and kids: "\<And>k. 0 < k \<Longrightarrow> k < n \<Longrightarrow> parent k = i \<Longrightarrow> 0 < i \<Longrightarrow> tf_ts (h ! parent i) \<le> tf_ts (h ! k)"
    using assms(1) by (auto simp: heap_but_down_def)
  have j: "i < j" "j < n" "parent j = i"
    using assms(2,3) by (auto simp: heap_child_def Let_def)
  have smallest: "tf_ts (h ! j) \<le> tf_ts (h ! k)" if "0 < k" "k < n" "parent k = i" for k
  proof -
    have "k = 2 * i + 1 \<or> k = 2 * i + 2" using that by linarith
    then show ?thesis using assms(3) that(2) by (auto simp: heap_child_def Let_def Less_def)
  qed
  have less: "tf_ts (h ! j) < tf_ts (h ! i)" using assms(4) by (simp add: Less_def)
  have sw: "Swap h i j ! k = (if k = i then h ! j else if k = j then h ! i else h ! k)" for k
    using j n by (intro nth_Swap) auto
  have 1: "tf_ts (Swap h i j ! parent k) \<le> tf_ts (Swap h i j ! k)" if k: "0 < k" "k < n" "parent k \<noteq> j" for k
  proof (cases "parent k = i")
    case True
    then have "k \<noteq> i" using k(1) by auto
    then show ?thesis using True smallest [OF k(1,2) True] less by (simp add: sw)
  next
    case False
    have "k \<noteq> j" using False j(3) by auto
    then show ?thesis
      using order [OF k(1,2) False] False k kids [of j] j by (cases "k = i") (auto simp: sw)
  qed
  have 2: "tf_ts (Swap h i j ! parent j) \<le> tf_ts (Swap h i j ! k)" if k: "0 < k" "k < n" "parent k = j" for k
  proof -
    have "parent k \<noteq> i" "k \<noteq> i" "k \<noteq> j" using k j by auto
    then show ?thesis using order [OF k(1,2)] k(3) j by (simp add: sw)
  qed
  show ?thesis unfolding heap_but_down_def using 1 2 n by simp
qed

lemma heap_down_heap:
  "heap_but_down h i n \<Longrightarrow> i < n \<Longrightarrow> n < length h \<Longrightarrow>
   heap_upto (heap_down h i n) n \<and> mset (heap_down h i n) = mset h \<and> length (heap_down h i n) = length h \<and>
   heap_down h i n ! n = h ! n"
proof (induction h i n rule: heap_down.induct)
  case (1 h i n)
  show ?case
  proof (cases "2 * i + 1 \<ge> n \<or> \<not> Less h (heap_child h i n) i")
    case True
    then have eq: "heap_down h i n = h" by (subst heap_down.simps) (auto simp: Let_def)
    have "tf_ts (h ! parent k) \<le> tf_ts (h ! k)" if k: "0 < k" "k < n" for k
    proof (cases "parent k = i")
      case False
      then show ?thesis using 1(2) k by (simp add: heap_but_down_def)
    next
      case p: True
      then have "k = 2 * i + 1 \<or> k = 2 * i + 2" using k(1) by linarith
      moreover have "\<not> Less h (heap_child h i n) i" using True p k by auto
      ultimately show ?thesis using k(2) p
        by (auto simp: heap_child_def Let_def Less_def not_less split: if_splits)
    qed
    then show ?thesis by (simp add: eq heap_upto_def)
  next
    case False
    let ?j = "heap_child h i n"
    have j: "?j < n" "i < ?j" using False heap_child_bounds [of i n h] by auto
    have "heap_down h i n = heap_down (Swap h i ?j) ?j n"
      using False by (subst heap_down.simps) (simp add: Let_def)
    moreover have "heap_but_down (Swap h i ?j) ?j n"
      using False by (intro heap_down_step [OF 1(2)]) auto
    ultimately show ?thesis
      using 1(1) [of ?j] False j 1(3,4) mset_Swap [of i h ?j] nth_Swap [of i h ?j n] by auto
  qed
qed

lemma heap_root_least:
  assumes "is_heap h" "k < length h"
  shows "tf_ts (h ! 0) \<le> tf_ts (h ! k)"
  using assms(2)
proof (induction k rule: less_induct)
  case (less k)
  show ?case
  proof (cases "k = 0")
    case False
    then have "tf_ts (h ! 0) \<le> tf_ts (h ! parent k)" using less by auto
    also have "\<dots> \<le> tf_ts (h ! k)" using False less(2) assms(1) by (simp add: is_heap_def)
    finally show ?thesis .
  qed simp
qed

section \<open>A queue ordered by deadline\<close>

text \<open>
  What the scheduler relies on: an interface over the multiset of waiting elements, whose
  front has the least key.
\<close>

locale deadline_queue =
  fixes key :: "'x \<Rightarrow> int"
    and inv :: "'q \<Rightarrow> bool"
    and elems :: "'q \<Rightarrow> 'x multiset"
    and push :: "'q \<Rightarrow> 'x \<Rightarrow> 'q"
    and pop :: "'q \<Rightarrow> 'x \<times> 'q"
    and front :: "'q \<Rightarrow> 'x"
  assumes push: "inv q \<Longrightarrow> inv (push q x) \<and> elems (push q x) = add_mset x (elems q)"
    and pop: "inv q \<Longrightarrow> elems q \<noteq> {#} \<Longrightarrow> pop q = (x, q') \<Longrightarrow> x = front q \<and> inv q' \<and> elems q = add_mset x (elems q')"
    and front: "inv q \<Longrightarrow> elems q \<noteq> {#} \<Longrightarrow> front q \<in># elems q \<and> (\<forall>x \<in># elems q. key (front q) \<le> key x)"
begin

lemma push_inv: "inv q \<Longrightarrow> inv (push q x)"
  by (simp add: push)

lemma elems_push: "inv q \<Longrightarrow> elems (push q x) = add_mset x (elems q)"
  by (simp add: push)

lemma pop_E:
  assumes "inv q" "elems q \<noteq> {#}"
  obtains q' where "pop q = (front q, q')" "inv q'" "elems q = add_mset (front q) (elems q')"
    "\<forall>x \<in># elems q'. key (front q) \<le> key x"
proof -
  obtain x q' where "pop q = (x, q')" by (cases "pop q")
  moreover from pop [OF assms this] have "x = front q" "inv q'" "elems q = add_mset x (elems q')" by simp_all
  ultimately show ?thesis using front [OF assms] that by simp
qed

text \<open>
  Any loop that pops while the front satisfies a test closed under smaller keys takes out
  exactly the elements that satisfy it, in the order of their keys.
\<close>

lemma pop_loop:
  fixes run :: "'q \<Rightarrow> 'x list \<times> 'q"
  assumes step: "\<And>q. inv q \<Longrightarrow> run q = (if elems q \<noteq> {#} \<and> P (front q)
      then (case pop q of (x, q') \<Rightarrow> case run q' of (xs, q'') \<Rightarrow> (x # xs, q'')) else ([], q))"
    and closed: "\<And>x y. P y \<Longrightarrow> key x \<le> key y \<Longrightarrow> P x"
  shows "inv q \<Longrightarrow> run q = (xs, q') \<Longrightarrow>
    inv q' \<and> elems q = mset xs + elems q' \<and> mset xs = filter_mset P (elems q) \<and> sorted (map key xs)"
proof (induction "size (elems q)" arbitrary: q xs q')
  case 0
  then have "xs = []" "q' = q" using step [OF 0(2)] by auto
  then show ?case using 0 by simp
next
  case (Suc n)
  then have ne: "elems q \<noteq> {#}" by auto
  show ?case
  proof (cases "P (front q)")
    case False
    then have "xs = []" "q' = q" using step [OF Suc(3)] Suc(4) by auto
    moreover have "filter_mset P (elems q) = {#}"
    proof (rule ccontr)
      assume "filter_mset P (elems q) \<noteq> {#}"
      then obtain x where "x \<in># elems q" "P x" by (auto elim: multiset_nonemptyE)
      then show False using front [OF Suc(3) ne] False closed [of x "front q"] by blast
    qed
    ultimately show ?thesis using Suc(3) by simp
  next
    case True
    obtain q1 where q1: "pop q = (front q, q1)" "inv q1" "elems q = add_mset (front q) (elems q1)"
      "\<forall>x \<in># elems q1. key (front q) \<le> key x" using pop_E [OF Suc(3) ne] .
    have "run q = (case run q1 of (xs, q'') \<Rightarrow> (front q # xs, q''))"
      by (subst step [OF Suc(3)]) (simp add: ne True q1(1))
    then obtain ys where ys: "run q1 = (ys, q')" "xs = front q # ys"
      using Suc(4) by (cases "run q1") simp
    have "n = size (elems q1)" using Suc(2) q1(3) by simp
    note IH = Suc(1) [OF this q1(2) ys(1)]
    have inv': "inv q'" and all: "elems q1 = mset ys + elems q'" and due: "mset ys = filter_mset P (elems q1)"
      and srt: "sorted (map key ys)" using IH by blast+
    have "set ys \<subseteq> set_mset (elems q1)" by (simp add: all)
    then have sub: "\<forall>y \<in> set ys. key (front q) \<le> key y" using q1(4) by blast
    have "elems q = mset xs + elems q'" by (simp add: q1(3) ys(2) all)
    moreover have "mset xs = filter_mset P (elems q)" by (simp add: q1(3) ys(2) True due)
    moreover have "sorted (map key xs)" by (simp add: ys(2) srt sub)
    ultimately show ?thesis using inv' by blast
  qed
qed

end

lemma heap_Push_heap:
  assumes "is_heap h"
  shows "is_heap (heap_Push h x)" "mset (heap_Push h x) = add_mset x (mset h)"
proof -
  have "heap_but_up (h @ [x]) (length h)"
    unfolding heap_but_up_def
  proof (intro conjI allI impI; elim conjE)
    fix k assume k: "0 < k" "k < length (h @ [x])" "k \<noteq> length h"
    then have "k < length h" "parent k < length h" by simp_all
    then show "tf_ts ((h @ [x]) ! parent k) \<le> tf_ts ((h @ [x]) ! k)"
      using assms k(1) by (simp add: nth_append is_heap_def)
  next
    fix k assume k: "0 < k" "k < length (h @ [x])" "parent k = length h" "0 < length h"
    then have "k < Suc (length h)" "k \<le> 2 * k - 1 - (k - 1)" by simp_all
    then show "tf_ts ((h @ [x]) ! parent (length h)) \<le> tf_ts ((h @ [x]) ! k)" using k(1,3,4) by linarith
  qed
  from heap_up_heap [OF this] show "is_heap (heap_Push h x)" "mset (heap_Push h x) = add_mset x (mset h)"
    by (simp_all add: heap_Push_def tfh_Push_def)
qed

lemma heap_Pop_heap:
  assumes "is_heap h" "h \<noteq> []" "heap_Pop h = (x, h')"
  shows "x = h ! 0 \<and> is_heap h' \<and> mset h = add_mset x (mset h')"
proof -
  obtain n where len: "length h = Suc n" using assms(2) by (cases h) auto
  let ?s = "Swap h 0 n"
  let ?d = "heap_down ?s 0 n"
  have s: "?s ! k = (if k = 0 then h ! n else if k = n then h ! 0 else h ! k)" for k
    using len by (intro nth_Swap) auto
  have d: "heap_upto ?d n \<and> mset ?d = mset h \<and> length ?d = length h \<and> ?d ! n = h ! 0"
  proof (cases "n = 0")
    case True
    then have "?d = ?s" by (subst heap_down.simps) simp
    moreover have "?s ! n = h ! 0" using s [of n] True by simp
    ultimately show ?thesis using True assms(2) mset_Swap [of 0 h 0] by (simp add: heap_upto_def)
  next
    case False
    have "heap_but_down ?s 0 n"
      unfolding heap_but_down_def
    proof (intro conjI allI impI; (elim conjE)?)
      fix k assume k: "0 < k" "k < n" "parent k \<noteq> 0"
      have "parent k < n" using k by linarith
      then show "tf_ts (?s ! parent k) \<le> tf_ts (?s ! k)"
        using assms(1) len k by (simp add: s is_heap_def)
    qed (use len in simp_all)
    from heap_down_heap [OF this] show ?thesis
      using False len mset_Swap [of 0 h n] s [of n] by simp
  qed
  have x: "x = ?d ! n" "h' = take n ?d"
    using assms(3) d len by (auto simp: heap_Pop_def tfh_Pop_def Let_def)
  have "?d = h' @ [x]" using d len unfolding x by (metis lessI order_refl take_Suc_conv_app_nth take_all)
  then have "mset h = add_mset x (mset h')" using d by (metis add.commute add_mset_add_single mset.simps mset_append)
  moreover have "is_heap h'"
    unfolding is_heap_def
  proof (intro allI impI; elim conjE)
    fix k assume k: "0 < k" "k < length h'"
    then have "parent k < n" "k < n" using d len unfolding x by simp_all
    then show "tf_ts (h' ! parent k) \<le> tf_ts (h' ! k)" using d k(1) unfolding x by (simp add: heap_upto_def)
  qed
  ultimately show ?thesis using d x(1) by simp
qed

interpretation tfh: deadline_queue tf_ts is_heap mset heap_Push heap_Pop "\<lambda>h. h ! 0"
proof
  show "is_heap q \<Longrightarrow> is_heap (heap_Push q x) \<and> mset (heap_Push q x) = add_mset x (mset q)"
    for q :: "'b timeFuncHeap" and x by (simp add: heap_Push_heap)
  show "is_heap q \<Longrightarrow> mset q \<noteq> {#} \<Longrightarrow> heap_Pop q = (x, q') \<Longrightarrow> x = q ! 0 \<and> is_heap q' \<and> mset q = add_mset x (mset q')"
    for q q' :: "'b timeFuncHeap" and x by (intro heap_Pop_heap) auto
  show "is_heap q \<Longrightarrow> mset q \<noteq> {#} \<Longrightarrow> q ! 0 \<in># mset q \<and> (\<forall>x \<in># mset q. tf_ts (q ! 0) \<le> tf_ts x)"
    for q :: "'b timeFuncHeap" by (auto simp: in_set_conv_nth heap_root_least)
qed

end
