(* ===== verification/Timesched.thy ===== *)
theory Timesched
  imports Time_Heap
begin

text \<open>
  The scheduler of \<^verbatim>\<open>timesched.go\<close>: \<^verbatim>\<open>Put\<close> appends to a shared list and raises a notification,
  the goroutine \<^verbatim>\<open>prepend\<close> takes the list over and hands its tasks one by one to the
  goroutines \<^verbatim>\<open>sched\<close>, each of which keeps a heap and one timer. The state collects the
  shared variables and the locals of every goroutine; a step is one case of a \<^verbatim>\<open>select\<close>, one
  half of \<^verbatim>\<open>Put\<close>, the expiry of a timer or the passing of time, and steps interleave freely.
\<close>

section \<open>Timers\<close>

text \<open>
  A \<^verbatim>\<open>time.Timer\<close> of the language version in \<^verbatim>\<open>go.mod\<close>: the time it will fire at, if it is
  running, and the value waiting in its channel, which holds one.
\<close>

record timer =
  tm_armed :: "int option"
  tm_C :: "int option"

definition NewTimer :: "int \<Rightarrow> int \<Rightarrow> timer" where
  "NewTimer at d = \<lparr>tm_armed = Some (at + d), tm_C = None\<rparr>"

definition timer_Stop :: "timer \<Rightarrow> bool \<times> timer" where
  "timer_Stop t = (tm_armed t \<noteq> None, t\<lparr>tm_armed := None\<rparr>)"

definition timer_Reset :: "int \<Rightarrow> int \<Rightarrow> timer \<Rightarrow> timer" where
  "timer_Reset at d t = t\<lparr>tm_armed := Some (at + d)\<rparr>"

definition timer_fire :: "int \<Rightarrow> timer \<Rightarrow> timer" where
  "timer_fire now t = \<lparr>tm_armed = None, tm_C = (case tm_C t of None \<Rightarrow> Some now | Some c \<Rightarrow> Some c)\<rparr>"

section \<open>One scheduling goroutine\<close>

record 'f sched_state =
  ss_tasks :: "'f timeFuncHeap"
  ss_timer :: timer
  ss_allDone :: bool
  ss_alive :: bool

definition new_sched :: "int \<Rightarrow> 'f sched_state" where
  "new_sched at = \<lparr>ss_tasks = [], ss_timer = NewTimer at 0, ss_allDone = False, ss_alive = True\<rparr>"

text \<open>
  \<^verbatim>\<open>case task := <-ts.chTask\<close>; \<open>now\<close> is the reading of the clock, \<open>at\<close> the time of the
  \<^verbatim>\<open>Reset\<close>. The result holds the executed tasks; it is \<^term>\<open>None\<close> when the goroutine waits
  for ever in \<^verbatim>\<open><-timer.C\<close>, because a stopped timer with an empty channel never sends.
\<close>

definition sched_task :: "'f timeFunc \<Rightarrow> int \<Rightarrow> int \<Rightarrow> 'f sched_state \<Rightarrow> ('f timeFunc list \<times> 'f sched_state) option" where
  "sched_task task now at st =
    (if now > tf_ts task then Some ([task], st)
     else
       let tasks = heap_Push (ss_tasks st) task;
           (stopped, t) = timer_Stop (ss_timer st)
       in do {
            t \<leftarrow> (if \<not> stopped \<and> \<not> ss_allDone st
                  then (case tm_C t of None \<Rightarrow> None | Some _ \<Rightarrow> Some (t\<lparr>tm_C := None\<rparr>))
                  else Some t);
            Some ([], st\<lparr>ss_tasks := tasks, ss_timer := timer_Reset at (tf_ts (tasks ! 0) - now) t,
                         ss_allDone := False\<rparr>)
          })"

lemma heap_up_length [simp]: "length (heap_up h j) = length h"
  by (induction h j rule: heap_up.induct) (subst heap_up.simps, simp add: Let_def)

lemma heap_down_length [simp]: "length (heap_down h i n) = length h"
  by (induction h i n rule: heap_down.induct) (subst heap_down.simps, simp add: Let_def)

lemma heap_Pop_length: "heap_Pop h = (x, h') \<Longrightarrow> length h' = length h - 1"
  by (auto simp: heap_Pop_def tfh_Pop_def Let_def)

function run_due :: "int \<Rightarrow> 'f timeFuncHeap \<Rightarrow> 'f timeFunc list \<times> 'f timeFuncHeap" where
  "run_due now tasks =
    (if tasks \<noteq> [] \<and> now > tf_ts (tasks ! 0)
     then (case heap_Pop tasks of (x, tasks) \<Rightarrow> case run_due now tasks of (xs, tasks) \<Rightarrow> (x # xs, tasks))
     else ([], tasks))"
  by auto
termination
  by (relation "measure (\<lambda>(_, h). length h)") (auto dest!: sym [THEN heap_Pop_length])

declare run_due.simps [simp del]

text \<open>\<^verbatim>\<open>case now := <-timer.C\<close>.\<close>

definition sched_timer :: "int \<Rightarrow> 'f sched_state \<Rightarrow> ('f timeFunc list \<times> 'f sched_state) option" where
  "sched_timer at st = (case tm_C (ss_timer st) of
     None \<Rightarrow> None
   | Some now \<Rightarrow>
       let t = (ss_timer st)\<lparr>tm_C := None\<rparr>;
           (xs, tasks) = run_due now (ss_tasks st)
       in Some (xs,
            if tasks = [] then st\<lparr>ss_tasks := tasks, ss_timer := t, ss_allDone := True\<rparr>
            else st\<lparr>ss_tasks := tasks, ss_timer := timer_Reset at (tf_ts (tasks ! 0) - now) t, ss_allDone := False\<rparr>))"

section \<open>The scheduler\<close>

text \<open>
  \<open>ts_batch\<close> is the local list of \<^verbatim>\<open>prepend\<close>, \<open>ts_putting\<close> counts the \<^verbatim>\<open>Put\<close> calls that have
  appended but not yet notified. \<open>ts_put\<close> and \<open>ts_ran\<close> record the tasks accepted and the
  tasks executed with the time used for the decision.
\<close>

record 'f TimedSched =
  prependTasks :: "'f timeFunc list"
  chPrependNotify :: bool
  ts_die :: bool
  ts_batch :: "'f timeFunc list"
  ts_scheds :: "'f sched_state list"
  ts_putting :: nat
  ts_now :: int
  ts_put :: "'f timeFunc list"
  ts_ran :: "(int \<times> 'f timeFunc) list"

definition NewTimedSched :: "nat \<Rightarrow> int \<Rightarrow> 'f TimedSched" where
  "NewTimedSched parallel at = \<lparr>prependTasks = [], chPrependNotify = False, ts_die = False, ts_batch = [],
     ts_scheds = replicate parallel (new_sched at), ts_putting = 0, ts_now = at, ts_put = [], ts_ran = []\<rparr>"

text \<open>The two halves of \<^verbatim>\<open>Put\<close>: the append under the lock, and the notification.\<close>

definition Put_append :: "'f \<Rightarrow> int \<Rightarrow> 'f TimedSched \<Rightarrow> 'f TimedSched" where
  "Put_append f ddl s = s\<lparr>prependTasks := prependTasks s @ [\<lparr>tf_execute = f, tf_ts = ddl\<rparr>],
     ts_put := ts_put s @ [\<lparr>tf_execute = f, tf_ts = ddl\<rparr>], ts_putting := Suc (ts_putting s)\<rparr>"

definition Put_notify :: "'f TimedSched \<Rightarrow> 'f TimedSched" where
  "Put_notify s = s\<lparr>chPrependNotify := True, ts_putting := ts_putting s - 1\<rparr>"

definition prepend_take :: "'f TimedSched \<Rightarrow> 'f TimedSched" where
  "prepend_take s = s\<lparr>chPrependNotify := False, ts_batch := prependTasks s, prependTasks := []\<rparr>"

definition sched_Close :: "'f TimedSched \<Rightarrow> 'f TimedSched" where
  "sched_Close s = s\<lparr>ts_die := True\<rparr>"

definition set_sched :: "nat \<Rightarrow> 'f sched_state \<Rightarrow> int \<Rightarrow> (int \<times> 'f timeFunc) list \<Rightarrow> 'f TimedSched \<Rightarrow> 'f TimedSched" where
  "set_sched i st at xs s = s\<lparr>ts_scheds := (ts_scheds s)[i := st], ts_now := at, ts_ran := ts_ran s @ xs\<rparr>"

inductive sched_step :: "'f TimedSched \<Rightarrow> 'f TimedSched \<Rightarrow> bool" where
  put: "sched_step s (Put_append f ddl s)"
| notify: "0 < ts_putting s \<Longrightarrow> sched_step s (Put_notify s)"
| take: "chPrependNotify s \<Longrightarrow> ts_batch s = [] \<Longrightarrow> sched_step s (prepend_take s)"
| hand: "ts_batch s = task # q \<Longrightarrow> i < length (ts_scheds s) \<Longrightarrow> ss_alive (ts_scheds s ! i) \<Longrightarrow> ts_now s \<le> at \<Longrightarrow>
    sched_task task (ts_now s) at (ts_scheds s ! i) = Some (xs, st) \<Longrightarrow>
    sched_step s (set_sched i st at (map (Pair (ts_now s)) xs) (s\<lparr>ts_batch := q\<rparr>))"
| timer: "i < length (ts_scheds s) \<Longrightarrow> ss_alive (ts_scheds s ! i) \<Longrightarrow> ts_now s \<le> at \<Longrightarrow>
    tm_C (ss_timer (ts_scheds s ! i)) = Some now \<Longrightarrow> sched_timer at (ts_scheds s ! i) = Some (xs, st) \<Longrightarrow>
    sched_step s (set_sched i st at (map (Pair now) xs) s)"
| fire: "i < length (ts_scheds s) \<Longrightarrow> tm_armed (ss_timer (ts_scheds s ! i)) = Some d \<Longrightarrow> d \<le> ts_now s \<Longrightarrow>
    sched_step s (set_sched i ((ts_scheds s ! i)\<lparr>ss_timer := timer_fire (ts_now s) (ss_timer (ts_scheds s ! i))\<rparr>) (ts_now s) [] s)"
| tick: "ts_now s \<le> at \<Longrightarrow> sched_step s (s\<lparr>ts_now := at\<rparr>)"
| close: "sched_step s (sched_Close s)"
| return: "ts_die s \<Longrightarrow> i < length (ts_scheds s) \<Longrightarrow>
    sched_step s (set_sched i ((ts_scheds s ! i)\<lparr>ss_alive := False\<rparr>) (ts_now s) [] s)"

section \<open>The invariant\<close>

text \<open>
  The timer of a goroutine is running, or has fired and waits to be read, or, exactly when
  \<^verbatim>\<open>allDone\<close>, neither; then no task waits.
\<close>

definition sched_ok :: "'f sched_state \<Rightarrow> bool" where
  "sched_ok st \<longleftrightarrow> is_heap (ss_tasks st) \<and>
    (if ss_allDone st then tm_armed (ss_timer st) = None \<and> tm_C (ss_timer st) = None \<and> ss_tasks st = []
     else (tm_armed (ss_timer st) = None) \<noteq> (tm_C (ss_timer st) = None))"

definition waiting :: "'f TimedSched \<Rightarrow> 'f timeFunc multiset" where
  "waiting s = mset (prependTasks s) + mset (ts_batch s) + (\<Sum>st\<leftarrow>ts_scheds s. mset (ss_tasks st))"

definition TimedSched_inv :: "'f TimedSched \<Rightarrow> bool" where
  "TimedSched_inv s \<longleftrightarrow> (\<forall>st \<in> set (ts_scheds s). sched_ok st) \<and>
     mset (ts_put s) = waiting s + mset (map snd (ts_ran s)) \<and>
     (\<forall>(now, t) \<in> set (ts_ran s). tf_ts t < now) \<and>
     (prependTasks s \<noteq> [] \<longrightarrow> chPrependNotify s \<or> 0 < ts_putting s)"

lemma sched_ok_new: "sched_ok (new_sched at)"
  by (simp add: sched_ok_def new_sched_def is_heap_def NewTimer_def)

lemma run_due_heap:
  assumes "is_heap h" "run_due now h = (xs, h')"
  shows "is_heap h' \<and> mset h = mset xs + mset h' \<and> mset xs = filter_mset (\<lambda>t. tf_ts t < now) (mset h) \<and>
    sorted (map tf_ts xs)"
proof (rule tfh.pop_loop [where run = "run_due now" and P = "\<lambda>t. tf_ts t < now" and q = h])
  show "run_due now q = (if mset q \<noteq> {#} \<and> tf_ts (q ! 0) < now
      then (case heap_Pop q of (x, q') \<Rightarrow> case run_due now q' of (xs, q'') \<Rightarrow> (x # xs, q'')) else ([], q))" for q
    by (subst run_due.simps) simp
qed (use assms in auto)

lemma heap_Push_not_empty: "heap_Push h x \<noteq> []"
  using heap_up_length by (metis Zero_not_Suc heap_Push_def length_append_singleton list.size(3) tfh_Push_def)

lemma sched_task_total: "sched_ok st \<Longrightarrow> \<exists>xs st'. sched_task task now at st = Some (xs, st')"
  by (auto simp: sched_task_def timer_Stop_def sched_ok_def Let_def split: option.splits if_splits)

lemma sched_task_ok:
  assumes "sched_ok st" "sched_task task now at st = Some (xs, st')"
  shows "sched_ok st' \<and> add_mset task (mset (ss_tasks st)) = mset xs + mset (ss_tasks st') \<and> (\<forall>t \<in> set xs. tf_ts t < now)"
proof (cases "now > tf_ts task")
  case True
  then show ?thesis using assms by (auto simp: sched_task_def)
next
  case False
  have "is_heap (ss_tasks st)" using assms(1) by (simp add: sched_ok_def)
  note push = tfh.push [OF this, of task]
  show ?thesis
    using assms False push
    by (auto simp: sched_task_def timer_Stop_def timer_Reset_def sched_ok_def Let_def split: option.splits if_splits)
qed

lemma sched_timer_ok:
  assumes "sched_ok st" "tm_C (ss_timer st) = Some now" "sched_timer at st = Some (xs, st')"
  shows "sched_ok st' \<and> mset (ss_tasks st) = mset xs + mset (ss_tasks st') \<and> (\<forall>t \<in> set xs. tf_ts t < now)"
proof -
  obtain h' where run: "run_due now (ss_tasks st) = (xs, h')" "ss_tasks st' = h'"
    using assms(2,3) by (auto simp: sched_timer_def Let_def split: prod.splits)
  have "is_heap (ss_tasks st)" "tm_armed (ss_timer st) = None" using assms(1,2) by (auto simp: sched_ok_def split: if_splits)
  note due = run_due_heap [OF this(1) run(1)] and idle = this(2)
  have "set xs = {t \<in> set (ss_tasks st). tf_ts t < now}" using due by (metis set_mset_filter set_mset_mset)
  moreover have "sched_ok st'"
    using assms(2,3) conjunct1 [OF due] idle run(1)
    by (cases "h' = []") (auto simp: sched_timer_def sched_ok_def timer_Reset_def Let_def)
  ultimately show ?thesis unfolding run(2) using due by blast
qed

lemma TimedSched_inv_new: "TimedSched_inv (NewTimedSched n at)"
  by (auto simp: TimedSched_inv_def NewTimedSched_def waiting_def sched_ok_new) (induction n, simp_all add: new_sched_def)

lemma sum_list_set_sched:
  fixes sts :: "'f sched_state list"
  assumes "i < length sts" "M + mset (ss_tasks (sts ! i)) = N + mset (ss_tasks st)"
  shows "M + (\<Sum>st\<leftarrow>sts. mset (ss_tasks st)) = N + (\<Sum>st\<leftarrow>sts[i := st]. mset (ss_tasks st))"
  using assms
proof (induction sts arbitrary: i)
  case (Cons s sts)
  show ?case
  proof (cases i)
    case 0
    then show ?thesis using Cons.prems by (simp flip: add.assoc)
  next
    case (Suc k)
    then show ?thesis using Cons.IH [of k] Cons.prems by (simp add: add.left_commute)
  qed
qed simp

lemma set_sched_inv:
  assumes "TimedSched_inv s" "i < length (ts_scheds s)" "sched_ok st"
    and "M + mset (ss_tasks (ts_scheds s ! i)) = mset (map snd exs) + mset (ss_tasks st)"
    and "mset (ts_batch s) = M + mset q" and "\<forall>(now, t) \<in> set exs. tf_ts t < now"
  shows "TimedSched_inv (set_sched i st at exs (s\<lparr>ts_batch := q\<rparr>))"
proof -
  have "M + (\<Sum>st\<leftarrow>ts_scheds s. mset (ss_tasks st)) =
      mset (map snd exs) + (\<Sum>st\<leftarrow>(ts_scheds s)[i := st]. mset (ss_tasks st))"
    by (rule sum_list_set_sched [OF assms(2,4)])
  then have "waiting s + mset (map snd (ts_ran s)) =
      waiting (set_sched i st at exs (s\<lparr>ts_batch := q\<rparr>)) + mset (map snd (ts_ran s @ exs))"
    using assms(5) by (simp add: waiting_def set_sched_def ac_simps)
  then show ?thesis
    using assms(1,3,6) set_update_subset_insert [of "ts_scheds s" i st]
    unfolding TimedSched_inv_def by (auto simp: set_sched_def)
qed

lemma set_sched_inv_same:
  assumes "TimedSched_inv s" "i < length (ts_scheds s)" "sched_ok st"
    and "mset (ss_tasks (ts_scheds s ! i)) = mset (map snd exs) + mset (ss_tasks st)" and "\<forall>(now, t) \<in> set exs. tf_ts t < now"
  shows "TimedSched_inv (set_sched i st at exs s)"
  using set_sched_inv [OF assms(1-3), of "{#}" exs "ts_batch s" at] assms(4,5) by simp

lemma TimedSched_inv_step: "sched_step s s' \<Longrightarrow> TimedSched_inv s \<Longrightarrow> TimedSched_inv s'"
proof (induction rule: sched_step.induct)
  case (put s f ddl)
  then show ?case by (simp add: TimedSched_inv_def Put_append_def waiting_def)
next
  case (hand s task q i at xs st)
  then have "sched_ok (ts_scheds s ! i)" by (simp add: TimedSched_inv_def)
  note ok = sched_task_ok [OF this hand.hyps(5)]
  show ?case
    by (rule set_sched_inv [where M = "{#task#}"]) (use hand ok in \<open>auto simp: comp_def\<close>)
next
  case (timer i s at now xs st)
  then have "sched_ok (ts_scheds s ! i)" by (simp add: TimedSched_inv_def)
  note ok = sched_timer_ok [OF this timer.hyps(4,5)]
  show ?case
    by (rule set_sched_inv_same) (use timer ok in \<open>auto simp: comp_def\<close>)
next
  case (fire i s d)
  then have "sched_ok (ts_scheds s ! i)" by (simp add: TimedSched_inv_def)
  then show ?case
    using fire by (intro set_sched_inv_same) (auto simp: sched_ok_def timer_fire_def split: if_splits)
next
  case (return s i)
  then have "sched_ok (ts_scheds s ! i)" by (simp add: TimedSched_inv_def)
  then show ?case
    using return by (intro set_sched_inv_same) (auto simp: sched_ok_def)
qed (auto simp: TimedSched_inv_def Put_notify_def prepend_take_def sched_Close_def waiting_def)

lemma TimedSched_inv_run: "sched_step\<^sup>*\<^sup>* (NewTimedSched n at) s \<Longrightarrow> TimedSched_inv s"
  by (induction rule: rtranclp_induct) (auto intro: TimedSched_inv_new TimedSched_inv_step)

section \<open>Properties\<close>

text \<open>
  Claim C16. In every run of the scheduler, with any number of goroutines and any interleaving
  of \<^verbatim>\<open>Put\<close>, hand-overs and timers, each task that was put is exactly once either waiting or
  executed, and no task was executed before its deadline had passed.
\<close>

theorem tasks_run_once_never_early:
  assumes "sched_step\<^sup>*\<^sup>* (NewTimedSched n at) s"
  shows "mset (ts_put s) = waiting s + mset (map snd (ts_ran s)) \<and> (\<forall>(now, t) \<in> set (ts_ran s). tf_ts t < now)"
  using TimedSched_inv_run [OF assms] by (simp add: TimedSched_inv_def)

text \<open>A task put after its deadline runs as soon as it is handed over.\<close>

definition demo_sched :: "nat TimedSched" where
  "demo_sched = prepend_take (Put_notify (Put_append 7 3 (NewTimedSched 1 5)))"

lemma demo_sched_run: "sched_step\<^sup>*\<^sup>* (NewTimedSched 1 5) demo_sched"
  unfolding demo_sched_def
  by (rule rtranclp.rtrancl_into_rtrancl, rule rtranclp.rtrancl_into_rtrancl, rule r_into_rtranclp,
      rule sched_step.put, rule sched_step.notify, simp add: Put_append_def, rule sched_step.take)
     (simp_all add: Put_notify_def Put_append_def NewTimedSched_def)

theorem tasks_run_once_never_early_witness:
  "\<exists>s. sched_step\<^sup>*\<^sup>* (NewTimedSched 1 5) s \<and> ts_ran s = [(5, \<lparr>tf_execute = 7, tf_ts = 3\<rparr> :: nat timeFunc)] \<and> waiting s = {#}"
proof -
  let ?t = "\<lparr>tf_execute = 7, tf_ts = 3\<rparr> :: nat timeFunc"
  have d: "ts_batch demo_sched = [?t]" "ts_scheds demo_sched = [new_sched 5]" "ts_now demo_sched = 5"
    "ts_ran demo_sched = []" "ts_put demo_sched = [?t]"
    by (simp_all add: demo_sched_def prepend_take_def Put_notify_def Put_append_def NewTimedSched_def)
  let ?s = "set_sched 0 (new_sched 5) 5 (map (Pair (ts_now demo_sched)) [?t]) (demo_sched\<lparr>ts_batch := []\<rparr>)"
  have "sched_step demo_sched ?s"
    by (rule sched_step.hand [where task = ?t]) (simp_all add: d sched_task_def, simp add: new_sched_def)
  with demo_sched_run have run: "sched_step\<^sup>*\<^sup>* (NewTimedSched 1 5) ?s" by (rule rtranclp.rtrancl_into_rtrancl)
  have ran: "ts_ran ?s = [(5, ?t)]" "ts_put ?s = [?t]" by (simp_all add: set_sched_def d)
  then have "waiting ?s = {#}" using tasks_run_once_never_early [OF run] by simp
  then show ?thesis using run ran by blast
qed

text \<open>
  Claim C24. The scheduler never gets stuck and never forgets a task: in every reachable state a
  goroutine that receives a task completes the handling (it never waits for ever for its
  stopped timer), tasks in a heap have a running or expired timer, and tasks not yet taken over
  by \<^verbatim>\<open>prepend\<close> have a notification pending or on its way.
\<close>

theorem scheduler_never_stuck:
  assumes "sched_step\<^sup>*\<^sup>* (NewTimedSched n at) s"
  shows "(\<forall>st \<in> set (ts_scheds s). \<forall>task now at. sched_task task now at st \<noteq> None) \<and>
    (\<forall>st \<in> set (ts_scheds s). ss_tasks st \<noteq> [] \<longrightarrow> tm_armed (ss_timer st) \<noteq> None \<or> tm_C (ss_timer st) \<noteq> None) \<and>
    (prependTasks s \<noteq> [] \<longrightarrow> chPrependNotify s \<or> 0 < ts_putting s)"
proof -
  have inv: "TimedSched_inv s" using TimedSched_inv_run [OF assms] .
  then have ok: "\<And>st. st \<in> set (ts_scheds s) \<Longrightarrow> sched_ok st" by (simp add: TimedSched_inv_def)
  have "sched_task task now at st \<noteq> None" if "st \<in> set (ts_scheds s)" for st task now at
    using sched_task_total [OF ok [OF that], of task now at] by auto
  moreover have "tm_armed (ss_timer st) \<noteq> None \<or> tm_C (ss_timer st) \<noteq> None"
    if "st \<in> set (ts_scheds s)" "ss_tasks st \<noteq> []" for st
    using ok [OF that(1)] that(2) by (auto simp: sched_ok_def split: if_splits)
  ultimately show ?thesis using inv by (simp add: TimedSched_inv_def)
qed

theorem scheduler_never_stuck_witness:
  "\<exists>xs st'. sched_task (\<lparr>tf_execute = 7, tf_ts = 9\<rparr> :: nat timeFunc) 5 6 (ts_scheds demo_sched ! 0) = Some (xs, st')"
proof -
  have "ts_scheds demo_sched = [new_sched 5]"
    by (simp add: demo_sched_def prepend_take_def Put_notify_def Put_append_def NewTimedSched_def)
  then show ?thesis using scheduler_never_stuck [OF demo_sched_run] by simp
qed

text \<open>
  When a goroutine's timer has fired at \<open>now\<close>, it executes exactly its tasks whose
  deadline lies before \<open>now\<close>, earliest first; if tasks remain, none of them is due and the timer
  is set for the earliest one, otherwise \<^verbatim>\<open>allDone\<close> is set.
\<close>

lemma timer_runs_due_tasks:
  assumes "is_heap (ss_tasks st)" and "tm_C (ss_timer st) = Some now"
  shows "\<exists>xs st'. sched_timer at st = Some (xs, st') \<and>
    mset xs = filter_mset (\<lambda>t. tf_ts t < now) (mset (ss_tasks st)) \<and> sorted (map tf_ts xs) \<and>
    mset (ss_tasks st') = filter_mset (\<lambda>t. now \<le> tf_ts t) (mset (ss_tasks st)) \<and>
    (ss_allDone st' \<longleftrightarrow> ss_tasks st' = []) \<and>
    (\<forall>t \<in> set (ss_tasks st'). \<exists>e \<in> set (ss_tasks st'). tf_ts e \<le> tf_ts t \<and>
       tm_armed (ss_timer st') = Some (at + (tf_ts e - now)))"
proof -
  obtain xs h where run: "run_due now (ss_tasks st) = (xs, h)" by (cases "run_due now (ss_tasks st)")
  note due = run_due_heap [OF assms(1) run]
  have heap: "is_heap h" and all: "mset (ss_tasks st) = mset xs + mset h"
    and xs: "mset xs = filter_mset (\<lambda>t. tf_ts t < now) (mset (ss_tasks st))" and srt: "sorted (map tf_ts xs)"
    using due by blast+
  have "mset xs + mset h = filter_mset (\<lambda>t. tf_ts t < now) (mset (ss_tasks st)) +
      filter_mset (\<lambda>t. \<not> tf_ts t < now) (mset (ss_tasks st))"
    by (simp flip: all)
  then have rest: "mset h = filter_mset (\<lambda>t. now \<le> tf_ts t) (mset (ss_tasks st))"
    unfolding xs by (simp add: not_less)
  have least: "\<forall>t \<in> set h. tf_ts (h ! 0) \<le> tf_ts t" using heap heap_root_least by (auto simp: in_set_conv_nth)
  show ?thesis
  proof (cases "h = []")
    case True
    then show ?thesis using run assms(2) rest xs srt by (auto simp: sched_timer_def)
  next
    case False
    then have "h ! 0 \<in> set h" by simp
    with False run assms(2) rest least xs srt show ?thesis by (auto simp: sched_timer_def timer_Reset_def)
  qed
qed

lemma timer_runs_due_tasks_witness:
  "\<exists>xs st'. sched_timer 20 \<lparr>ss_tasks = [\<lparr>tf_execute = (1 :: nat), tf_ts = 4\<rparr>, \<lparr>tf_execute = 2, tf_ts = 30\<rparr>],
      ss_timer = \<lparr>tm_armed = None, tm_C = Some 12\<rparr>, ss_allDone = False, ss_alive = True\<rparr> = Some (xs, st') \<and>
    map tf_execute xs = [1] \<and> tm_armed (ss_timer st') = Some 38"
proof -
  let ?st = "\<lparr>ss_tasks = [\<lparr>tf_execute = (1 :: nat), tf_ts = 4\<rparr>, \<lparr>tf_execute = 2, tf_ts = 30\<rparr>],
      ss_timer = \<lparr>tm_armed = None, tm_C = Some 12\<rparr>, ss_allDone = False, ss_alive = True\<rparr> :: nat sched_state"
  have heap: "is_heap (ss_tasks ?st)"
    by (auto simp: is_heap_def less_Suc_eq)
  have c: "tm_C (ss_timer ?st) = Some 12" by simp
  obtain xs st' where r: "sched_timer 20 ?st = Some (xs, st')" "mset xs = {#\<lparr>tf_execute = 1, tf_ts = 4\<rparr>#}"
    "mset (ss_tasks st') = {#\<lparr>tf_execute = 2, tf_ts = 30\<rparr>#}"
    "\<forall>t \<in> set (ss_tasks st'). \<exists>e \<in> set (ss_tasks st'). tf_ts e \<le> tf_ts t \<and> tm_armed (ss_timer st') = Some (20 + (tf_ts e - 12))"
    using timer_runs_due_tasks [OF heap c, of 20] by auto
  have "xs = [\<lparr>tf_execute = 1, tf_ts = 4\<rparr>]" "ss_tasks st' = [\<lparr>tf_execute = 2, tf_ts = 30\<rparr>]"
    using r(2,3) by (auto simp: mset_single_iff)
  then show ?thesis using r(1,4) by auto
qed

end
