(* ===== verification/Socket_Setup.thy ===== *)
theory Socket_Setup
  imports Listener Session_Safety
begin

text \<open>
  Making and tuning connections: \<^verbatim>\<open>Listen\<close>, \<^verbatim>\<open>ServeConn\<close>, \<^verbatim>\<open>Dial\<close>, the \<^verbatim>\<open>NewConn\<close> functions, the
  socket options of sessions and listeners, and the variants of the loops for systems without
  batched system calls (\<^verbatim>\<open>tx_generic.go\<close>, \<^verbatim>\<open>readloop_generic.go\<close>). The package \<^verbatim>\<open>net\<close> is a
  parameter: a name service, the sockets it opens, and what a socket can do and answers.
\<close>

section \<open>The network library\<close>

text \<open>The calls the options make, with their argument.\<close>

datatype sock_call = Call_SetDSCP "64 word" | Call_SetTOS "64 word" | Call_SetTrafficClass "64 word"
  | Call_SetReadBuffer int | Call_SetWriteBuffer int

text \<open>
  A \<^verbatim>\<open>net.PacketConn\<close>: its address, whether it is a \<^verbatim>\<open>*net.UDPConn\<close> or a \<^verbatim>\<open>net.Conn\<close>, which of
  the three option interfaces of \<^verbatim>\<open>sess.go\<close> it implements, and the error each call returns.
\<close>

record pconn =
  pc_local :: addr
  is_UDPConn :: bool
  is_netConn :: bool
  has_setDSCP :: bool
  has_setReadBuffer :: bool
  has_setWriteBuffer :: bool
  pc_result :: "sock_call \<Rightarrow> sock_error option"

text \<open>
  \<open>ne_resolve\<close> is \<^verbatim>\<open>net.ResolveUDPAddr("udp", _)\<close>, \<open>ne_listen\<close> is \<^verbatim>\<open>net.ListenUDP\<close>, \<open>ne_To4\<close> tells
  an IPv4 address, and \<open>ne_random\<close> is what \<^verbatim>\<open>rand.Reader\<close> delivers.
\<close>

record net_env =
  ne_resolve :: "string \<Rightarrow> sock_error + addr"
  ne_To4 :: "addr \<Rightarrow> bool"
  ne_listen :: "string \<Rightarrow> addr option \<Rightarrow> sock_error + pconn"
  ne_random :: u32

section \<open>Listening and dialling\<close>

definition ListenWithOptions :: "net_env \<Rightarrow> string \<Rightarrow> bool \<Rightarrow> rudp_error + pconn \<times> Listener" where
  "ListenWithOptions env laddr block =
    (case ne_resolve env laddr of
       Inl err \<Rightarrow> Inl (SocketError err)
     | Inr udpAddr \<Rightarrow>
         (case ne_listen env ''udp'' (Some udpAddr) of
            Inl err \<Rightarrow> Inl (SocketError err)
          | Inr conn \<Rightarrow> Inr (conn, serveConn block True)))"

definition Listen :: "net_env \<Rightarrow> string \<Rightarrow> rudp_error + pconn \<times> Listener" where
  "Listen env laddr = ListenWithOptions env laddr False"

definition ServeConn :: "bool \<Rightarrow> pconn \<Rightarrow> rudp_error + pconn \<times> Listener" where
  "ServeConn block conn = Inr (conn, serveConn block False)"

text \<open>When \<^verbatim>\<open>newUDPSession\<close> sets \<^verbatim>\<open>xconn\<close>, so that batches can be used.\<close>

definition batch_conn :: "net_env \<Rightarrow> pconn \<Rightarrow> bool" where
  "batch_conn env conn \<longleftrightarrow>
    is_UDPConn conn \<and> (case ne_resolve env (pc_local conn) of Inl _ \<Rightarrow> False | Inr _ \<Rightarrow> True)"

definition DialWithOptions ::
    "net_env \<Rightarrow> string \<Rightarrow> bool \<Rightarrow> int \<Rightarrow> host \<Rightarrow> rudp_error + pconn \<times> UDPSession \<times> host" where
  "DialWithOptions env raddr block now h =
    (case ne_resolve env raddr of
       Inl err \<Rightarrow> Inl (SocketError err)
     | Inr udpAddr \<Rightarrow>
         let network = (if \<not> ne_To4 env udpAddr then ''udp'' else ''udp4'')
         in (case ne_listen env network None of
               Inl err \<Rightarrow> Inl (SocketError err)
             | Inr conn \<Rightarrow>
                 Inr (conn, newUDPSession (ne_random env) block False True udpAddr (batch_conn env conn) now h)))"

definition Dial :: "net_env \<Rightarrow> string \<Rightarrow> int \<Rightarrow> host \<Rightarrow> rudp_error + pconn \<times> UDPSession \<times> host" where
  "Dial env raddr now h = DialWithOptions env raddr False now h"

definition NewConn3 :: "net_env \<Rightarrow> u32 \<Rightarrow> addr \<Rightarrow> bool \<Rightarrow> pconn \<Rightarrow> int \<Rightarrow> host \<Rightarrow> rudp_error + UDPSession \<times> host" where
  "NewConn3 env convid raddr block conn now h =
    Inr (newUDPSession convid block False False raddr (batch_conn env conn) now h)"

definition NewConn2 :: "net_env \<Rightarrow> addr \<Rightarrow> bool \<Rightarrow> pconn \<Rightarrow> int \<Rightarrow> host \<Rightarrow> rudp_error + UDPSession \<times> host" where
  "NewConn2 env raddr block conn now h = NewConn3 env (ne_random env) raddr block conn now h"

definition NewConn :: "net_env \<Rightarrow> string \<Rightarrow> bool \<Rightarrow> pconn \<Rightarrow> int \<Rightarrow> host \<Rightarrow> rudp_error + UDPSession \<times> host" where
  "NewConn env raddr block conn now h =
    (case ne_resolve env raddr of
       Inl err \<Rightarrow> Inl (SocketError err)
     | Inr udpaddr \<Rightarrow> NewConn2 env udpaddr block conn now h)"

section \<open>Addresses and socket options\<close>

definition LocalAddr :: "pconn \<Rightarrow> addr" where
  "LocalAddr conn = pc_local conn"

definition RemoteAddr :: "UDPSession \<Rightarrow> addr" where
  "RemoteAddr s = s_remote s"

definition Listener_Addr :: "pconn \<Rightarrow> addr" where
  "Listener_Addr conn = pc_local conn"

text \<open>An option answers with an error or nil; the second part is the list of calls made.\<close>

type_synonym option_result = "rudp_error option \<times> sock_call list"

definition sock_do :: "pconn \<Rightarrow> sock_call \<Rightarrow> option_result" where
  "sock_do conn c = (map_option SocketError (pc_result conn c), [c])"

definition Listener_SetDSCP :: "64 word \<Rightarrow> pconn \<Rightarrow> option_result" where
  "Listener_SetDSCP dscp conn =
    (if has_setDSCP conn then sock_do conn (Call_SetDSCP dscp)
     else if is_netConn conn
     then
       let tos = Call_SetTOS (push_bit 2 dscp);
           tc = Call_SetTrafficClass dscp;
           succeed = (pc_result conn tos = None);
           succeed = (if pc_result conn tc = None then True else succeed)
       in (if succeed then None else Some errInvalidOperation, [tos, tc])
     else (Some errInvalidOperation, []))"

definition Listener_SetReadBuffer :: "int \<Rightarrow> pconn \<Rightarrow> option_result" where
  "Listener_SetReadBuffer n conn =
    (if has_setReadBuffer conn then sock_do conn (Call_SetReadBuffer n) else (Some errInvalidOperation, []))"

definition Listener_SetWriteBuffer :: "int \<Rightarrow> pconn \<Rightarrow> option_result" where
  "Listener_SetWriteBuffer n conn =
    (if has_setWriteBuffer conn then sock_do conn (Call_SetWriteBuffer n) else (Some errInvalidOperation, []))"

text \<open>The sessions' versions have the same bodies behind a test of \<^verbatim>\<open>s.listener\<close>.\<close>

definition sess_SetDSCP :: "64 word \<Rightarrow> UDPSession \<Rightarrow> pconn \<Rightarrow> option_result" where
  "sess_SetDSCP dscp s conn =
    (if s_listener s then (Some errInvalidOperation, [])
     else if has_setDSCP conn then sock_do conn (Call_SetDSCP dscp)
     else if is_netConn conn
     then
       let tos = Call_SetTOS (push_bit 2 dscp);
           tc = Call_SetTrafficClass dscp;
           succeed = (pc_result conn tos = None);
           succeed = (if pc_result conn tc = None then True else succeed)
       in (if succeed then None else Some errInvalidOperation, [tos, tc])
     else (Some errInvalidOperation, []))"

definition sess_SetReadBuffer :: "int \<Rightarrow> UDPSession \<Rightarrow> pconn \<Rightarrow> option_result" where
  "sess_SetReadBuffer n s conn =
    (if \<not> s_listener s \<and> has_setReadBuffer conn then sock_do conn (Call_SetReadBuffer n)
     else (Some errInvalidOperation, []))"

definition sess_SetWriteBuffer :: "int \<Rightarrow> UDPSession \<Rightarrow> pconn \<Rightarrow> option_result" where
  "sess_SetWriteBuffer n s conn =
    (if \<not> s_listener s \<and> has_setWriteBuffer conn then sock_do conn (Call_SetWriteBuffer n)
     else (Some errInvalidOperation, []))"

section \<open>Systems without batched calls\<close>

definition tx_generic :: "datagram list \<Rightarrow> UDPSession \<Rightarrow> host \<Rightarrow> (UDPSession \<times> host) option" where
  "tx_generic q s h = defaultTx q s h"

definition readLoop_generic ::
    "(sock_error + datagram) list \<Rightarrow> addr \<Rightarrow> UDPSession \<Rightarrow> host \<Rightarrow> (UDPSession \<times> host) option" where
  "readLoop_generic reads src s h = defaultReadLoop reads src s h"

definition monitor_generic :: "bool \<Rightarrow> (sock_error + (int \<times> datagram)) list \<Rightarrow> server \<Rightarrow> server option" where
  "monitor_generic xconn reads sv = defaultMonitor xconn reads sv"

section \<open>What they give\<close>

text \<open>Every session made here starts in the state all properties of sessions start from.\<close>

lemma new_session_ok:
  assumes "newUDPSession conv block False own raddr xconn now h = (s, h')" "batches_ok h"
  shows "session_ok s \<and> batches_ok h'"
  using session_ok_new [of conv block False own raddr xconn now h] assms by simp

lemma NewConn_ok:
  assumes "NewConn env raddr block conn now h = Inr (s, h')" "batches_ok h"
  shows "session_ok s \<and> batches_ok h'"
  using assms new_session_ok by (auto simp: NewConn_def NewConn2_def NewConn3_def split: sum.splits)

lemma Dial_ok:
  assumes "DialWithOptions env raddr block now h = Inr (conn, s, h')" "batches_ok h"
  shows "session_ok s \<and> batches_ok h'"
  using assms new_session_ok by (auto simp: DialWithOptions_def Let_def split: sum.splits)

text \<open>The options of an accepted session never reach the socket it shares with its listener.\<close>

lemma accepted_options_refused:
  assumes "s_listener s"
  shows "sess_SetDSCP d s conn = (Some errInvalidOperation, [])" "sess_SetReadBuffer n s conn = (Some errInvalidOperation, [])"
    "sess_SetWriteBuffer n s conn = (Some errInvalidOperation, [])"
  using assms by (simp_all add: sess_SetDSCP_def sess_SetReadBuffer_def sess_SetWriteBuffer_def)

text \<open>A client's options are those of a listener on the same socket.\<close>

lemma client_options:
  assumes "\<not> s_listener s"
  shows "sess_SetDSCP d s conn = Listener_SetDSCP d conn" "sess_SetReadBuffer n s conn = Listener_SetReadBuffer n conn"
    "sess_SetWriteBuffer n s conn = Listener_SetWriteBuffer n conn"
  using assms
  by (simp_all add: sess_SetDSCP_def sess_SetReadBuffer_def sess_SetWriteBuffer_def Listener_SetDSCP_def
      Listener_SetReadBuffer_def Listener_SetWriteBuffer_def)

end
