(* ===== verification/Echo_Users.thy ===== *)
theory Echo_Users
  imports Session_Network Socket_Setup
begin

text \<open>
  The echo programs of \<^verbatim>\<open>example/\<close> as users of a session: the handler of the two servers, the
  clients of \<^verbatim>\<open>echo.go\<close> and \<^verbatim>\<open>client_echo.go\<close>, and the accepting loop. A program is a state with
  the place it has reached; it runs one locked region of \<^verbatim>\<open>Read\<close> or \<^verbatim>\<open>Write\<close> at a time, so that
  packets and timers can come in between.
\<close>

section \<open>What happens to a user\<close>

text \<open>
  The user runs (with the choice of the \<^verbatim>\<open>select\<close> at the head of \<^verbatim>\<open>Write\<close> and two readings of
  the clock), a waiting call wakes up in a case of its \<^verbatim>\<open>select\<close>, or a client takes up the
  string of the current time.
\<close>

datatype user_input = Go select_case int int | Woken bool select_case | Next "u8 list"

section \<open>The echo handler\<close>

datatype echo_at = At_Read | At_Write nat | Echo_Stopped rudp_error

text \<open>\<open>echo_log\<close> is what the handler prints, the bytes of every \<^verbatim>\<open>Read\<close>.\<close>

record echo =
  echo_at :: echo_at
  echo_buf :: "u8 list"
  echo_log :: "u8 list list"

definition new_echo :: echo where
  "new_echo = \<lparr>echo_at = At_Read, echo_buf = replicate 4096 0, echo_log = []\<rparr>"

definition echo_woken :: "bool \<Rightarrow> select_case \<Rightarrow> echo \<Rightarrow> UDPSession \<Rightarrow> echo \<times> UDPSession" where
  "echo_woken fired c e s =
    (let stop = (\<lambda>(err, s). (case err of None \<Rightarrow> e | Some err \<Rightarrow> e\<lparr>echo_at := Echo_Stopped err\<rparr>, s)) in
     case echo_at e of
       At_Read \<Rightarrow> if read_ready fired s c then stop (read_select c s) else (e, s)
     | At_Write n \<Rightarrow> if write_ready fired s c then stop (write_select c s) else (e, s)
     | Echo_Stopped err \<Rightarrow> (e, s))"

fun handleEcho :: "user_input \<Rightarrow> echo \<times> UDPSession \<times> host \<Rightarrow> (echo \<times> UDPSession \<times> host) option" where
  "handleEcho (Go pick now now') (e, s, h) =
    (case echo_at e of
       At_Read \<Rightarrow> do {
         (res, buf, s, h) \<leftarrow> Read_poll (echo_buf e) now now' s h;
         let e = e\<lparr>echo_buf := buf\<rparr>;
         Some (case res of
             Done n \<Rightarrow> e\<lparr>echo_at := At_Write n, echo_log := echo_log e @ [take n buf]\<rparr>
           | Failed err \<Rightarrow> e\<lparr>echo_at := Echo_Stopped err\<rparr>
           | Wait d \<Rightarrow> e, s, h)
       }
     | At_Write n \<Rightarrow> do {
         (res, s, h) \<leftarrow> sess_Write pick (take n (echo_buf e)) now now' s h;
         Some (case res of
             Done m \<Rightarrow> e\<lparr>echo_at := At_Read\<rparr>
           | Failed err \<Rightarrow> e\<lparr>echo_at := Echo_Stopped err\<rparr>
           | Wait d \<Rightarrow> e, s, h)
       }
     | Echo_Stopped err \<Rightarrow> Some (e, s, h))"
| "handleEcho (Woken fired c) (e, s, h) = (case echo_woken fired c e s of (e, s) \<Rightarrow> Some (e, s, h))"
| "handleEcho (Next data) (e, s, h) = Some (e, s, h)"

text \<open>The stand-alone server has the same handler, with other messages printed.\<close>

definition server_handleEcho :: "user_input \<Rightarrow> echo \<times> UDPSession \<times> host \<Rightarrow> (echo \<times> UDPSession \<times> host) option" where
  "server_handleEcho = handleEcho"

text \<open>
  The loop of \<^verbatim>\<open>main\<close> in the servers: every accepted session gets a handler, an error of
  \<^verbatim>\<open>AcceptRUDP\<close> ends the program.
\<close>

definition accept_handler :: "select_case \<Rightarrow> Listener \<times> (nat \<times> echo) list \<Rightarrow> rudp_error + Listener \<times> (nat \<times> echo) list" where
  "accept_handler c st =
    (case st of (l, handlers) \<Rightarrow>
       (case AcceptRUDP c l of
          (Inl err, l) \<Rightarrow> Inl err
        | (Inr p, l) \<Rightarrow> Inr (l, handlers @ [(p, new_echo)])))"

text \<open>The listeners the two servers start with, and the session of the client in \<^verbatim>\<open>echo.go\<close>.\<close>

definition echo_listen :: "net_env \<Rightarrow> rudp_error + pconn \<times> Listener" where
  "echo_listen env = ListenWithOptions env ''127.0.0.1:12345'' False"

definition server_listen :: "net_env \<Rightarrow> rudp_error + pconn \<times> Listener" where
  "server_listen env = ListenWithOptions env ''0.0.0.0:12345'' False"

definition echo_dial :: "net_env \<Rightarrow> int \<Rightarrow> host \<Rightarrow> rudp_error + pconn \<times> UDPSession \<times> host" where
  "echo_dial env now h = DialWithOptions env ''127.0.0.1:12345'' False now h"

text \<open>No session is served by two handlers.\<close>

lemma accept_handler_distinct:
  assumes "distinct (map fst handlers @ l_chAccepts l)" and "accept_ready fired l c"
    and "accept_handler c (l, handlers) = Inr (l', handlers')"
  shows "distinct (map fst handlers' @ l_chAccepts l')"
  using assms by (cases c; cases "l_chAccepts l") (auto simp: accept_handler_def AcceptRUDP_def accept_ready_def disjoint_iff simp del: set_map list.set_map)

section \<open>The clients\<close>

text \<open>The number in \<open>C_Read\<close> counts the bytes \<^verbatim>\<open>io.ReadFull\<close> has so far.\<close>

datatype client_at = C_Start | C_Write | C_Read nat | C_Stopped rudp_error

text \<open>\<open>cl_log\<close> keeps of every round the string sent, the count of bytes read and the buffer.\<close>

record client =
  cl_at :: client_at
  cl_data :: "u8 list"
  cl_buf :: "u8 list"
  cl_log :: "(u8 list \<times> nat \<times> u8 list) list"

definition new_client :: client where
  "new_client = \<lparr>cl_at = C_Start, cl_data = [], cl_buf = [], cl_log = []\<rparr>"

definition client_start :: "u8 list \<Rightarrow> client \<Rightarrow> client" where
  "client_start data c =
    (if cl_at c = C_Start then c\<lparr>cl_at := C_Write, cl_data := data, cl_buf := replicate (length data) 0\<rparr> else c)"

definition client_write :: "select_case \<Rightarrow> int \<Rightarrow> int \<Rightarrow> client \<times> UDPSession \<times> host \<Rightarrow> (client \<times> UDPSession \<times> host) option" where
  "client_write pick now now' st =
    (case st of (c, s, h) \<Rightarrow> do {
       (res, s, h) \<leftarrow> sess_Write pick (cl_data c) now now' s h;
       Some (case res of
           Done n \<Rightarrow> c\<lparr>cl_at := C_Read 0\<rparr>
         | Failed err \<Rightarrow> c\<lparr>cl_at := C_Stopped err\<rparr>
         | Wait d \<Rightarrow> c, s, h)
     })"

definition client_woken :: "bool \<Rightarrow> select_case \<Rightarrow> client \<Rightarrow> UDPSession \<Rightarrow> client \<times> UDPSession" where
  "client_woken fired cs c s =
    (let stop = (\<lambda>(err, s). (case err of None \<Rightarrow> c | Some err \<Rightarrow> c\<lparr>cl_at := C_Stopped err\<rparr>, s)) in
     case cl_at c of
       C_Write \<Rightarrow> if write_ready fired s cs then stop (write_select cs s) else (c, s)
     | C_Read k \<Rightarrow> if read_ready fired s cs then stop (read_select cs s) else (c, s)
     | _ \<Rightarrow> (c, s))"

text \<open>
  \<^verbatim>\<open>io.ReadFull\<close> reads into the rest of the buffer until it is full. The other client calls
  \<^verbatim>\<open>Read\<close> once.
\<close>

definition client_read_full :: "nat \<Rightarrow> int \<Rightarrow> int \<Rightarrow> client \<times> UDPSession \<times> host \<Rightarrow> (client \<times> UDPSession \<times> host) option" where
  "client_read_full k now now' st =
    (case st of (c, s, h) \<Rightarrow>
       if k \<ge> length (cl_buf c)
       then Some (c\<lparr>cl_at := C_Start, cl_log := cl_log c @ [(cl_data c, k, cl_buf c)]\<rparr>, s, h)
       else do {
         (res, rest, s, h) \<leftarrow> Read_poll (drop k (cl_buf c)) now now' s h;
         let c = c\<lparr>cl_buf := take k (cl_buf c) @ rest\<rparr>;
         Some (case res of
             Done n \<Rightarrow> c\<lparr>cl_at := C_Read (k + n)\<rparr>
           | Failed err \<Rightarrow> c\<lparr>cl_at := C_Stopped err\<rparr>
           | Wait d \<Rightarrow> c, s, h)
       })"

definition client_read_once :: "int \<Rightarrow> int \<Rightarrow> client \<times> UDPSession \<times> host \<Rightarrow> (client \<times> UDPSession \<times> host) option" where
  "client_read_once now now' st =
    (case st of (c, s, h) \<Rightarrow> do {
       (res, buf, s, h) \<leftarrow> Read_poll (cl_buf c) now now' s h;
       let c = c\<lparr>cl_buf := buf\<rparr>;
       Some (case res of
           Done n \<Rightarrow> c\<lparr>cl_at := C_Start, cl_log := cl_log c @ [(cl_data c, n, buf)]\<rparr>
         | Failed err \<Rightarrow> c\<lparr>cl_at := C_Stopped err\<rparr>
         | Wait d \<Rightarrow> c, s, h)
     })"

fun client_run :: "bool \<Rightarrow> user_input \<Rightarrow> client \<times> UDPSession \<times> host \<Rightarrow> (client \<times> UDPSession \<times> host) option" where
  "client_run full (Next data) (c, s, h) = Some (client_start data c, s, h)"
| "client_run full (Woken fired cs) (c, s, h) = (case client_woken fired cs c s of (c, s) \<Rightarrow> Some (c, s, h))"
| "client_run full (Go pick now now') (c, s, h) =
    (case cl_at c of
       C_Write \<Rightarrow> client_write pick now now' (c, s, h)
     | C_Read k \<Rightarrow> if full then client_read_full k now now' (c, s, h) else client_read_once now now' (c, s, h)
     | _ \<Rightarrow> Some (c, s, h))"

text \<open>The clients of \<^verbatim>\<open>echo.go\<close> and of \<^verbatim>\<open>client_echo.go\<close>.\<close>

definition echo_client :: "user_input \<Rightarrow> client \<times> UDPSession \<times> host \<Rightarrow> (client \<times> UDPSession \<times> host) option" where
  "echo_client = client_run True"

definition client_echo :: "user_input \<Rightarrow> client \<times> UDPSession \<times> host \<Rightarrow> (client \<times> UDPSession \<times> host) option" where
  "client_echo = client_run False"

end
