(* ===== verification/Echo_Net.thy ===== *)
theory Echo_Net
  imports Echo_Users
begin

text \<open>
  Programs that use sessions, over the network of \<^verbatim>\<open>Session_Network\<close>. The locale \<open>session_user\<close>
  says what a program promises: each of its runs does to its session what steps of a session
  can do, and its own state accounts for the bytes written and read. Two such programs that
  talk to each other inherit the delivery properties of sessions.
\<close>

section \<open>Two programs over the network\<close>

text \<open>What happens to a session from outside: packets, the timer, settings and errors.\<close>

inductive session_env :: "u8 list set \<Rightarrow> UDPSession \<times> host \<Rightarrow> UDPSession \<times> host \<Rightarrow> bool" for incoming :: "u8 list set" where
  packet: "data \<in> incoming \<Longrightarrow> length data \<le> mtuLimit \<Longrightarrow> packetInput data s h = Some sh \<Longrightarrow> session_env incoming (s, h) sh"
| timer: "update_sess now s h = Some sh \<Longrightarrow> session_env incoming (s, h) sh"
| setting: "is_setting ev \<Longrightarrow> run_event ev s h = Some sh \<Longrightarrow> session_env incoming (s, h) sh"

abbreviation sent_by :: "'x \<times> UDPSession \<times> host \<Rightarrow> u8 list set" where
  "sent_by x \<equiv> fst ` set (h_sent (snd (snd x)))"

inductive users_step ::
    "('i \<Rightarrow> 'x \<times> UDPSession \<times> host \<Rightarrow> ('x \<times> UDPSession \<times> host) option) \<Rightarrow>
     ('j \<Rightarrow> 'y \<times> UDPSession \<times> host \<Rightarrow> ('y \<times> UDPSession \<times> host) option) \<Rightarrow>
     ('x \<times> UDPSession \<times> host) \<times> ('y \<times> UDPSession \<times> host) \<Rightarrow>
     ('x \<times> UDPSession \<times> host) \<times> ('y \<times> UDPSession \<times> host) \<Rightarrow> bool"
    for runx :: "'i \<Rightarrow> 'x \<times> UDPSession \<times> host \<Rightarrow> ('x \<times> UDPSession \<times> host) option"
    and runy :: "'j \<Rightarrow> 'y \<times> UDPSession \<times> host \<Rightarrow> ('y \<times> UDPSession \<times> host) option" where
  user_left: "runx i x = Some x' \<Longrightarrow> users_step runx runy (x, y) (x', y)"
| user_right: "runy j y = Some y' \<Longrightarrow> users_step runx runy (x, y) (x, y')"
| env_left: "session_env (sent_by y) (snd x) sh \<Longrightarrow> users_step runx runy (x, y) ((fst x, sh), y)"
| env_right: "session_env (sent_by x) (snd y) sh \<Longrightarrow> users_step runx runy (x, y) (x, (fst y, sh))"

text \<open>A program together with its session and host, accounted for in an end of \<^verbatim>\<open>Session_Network\<close>.\<close>

definition accounts :: "('x \<Rightarrow> u8 list \<Rightarrow> u8 list \<Rightarrow> bool) \<Rightarrow> 'x \<times> UDPSession \<times> host \<Rightarrow> sess_end \<Rightarrow> bool" where
  "accounts hist x e \<longleftrightarrow> snd x = (se_session e, se_host e) \<and> hist (fst x) (se_app e) (se_got e)"

lemma accounts_env:
  assumes "accounts hist x e" "session_env I (snd x) sh"
  shows "\<exists>e'. sess_step I e e' \<and> accounts hist (fst x, sh) e'"
  using assms(2,1)
proof (cases rule: session_env.cases)
  case (packet data s h)
  then show ?thesis using assms(1)
    by (cases sh) (auto simp: accounts_def intro!: exI [of _ "e\<lparr>se_session := _, se_host := _\<rparr>"] sess_step.packet)
next
  case (timer now s h)
  then show ?thesis using assms(1)
    by (cases sh) (auto simp: accounts_def intro!: exI [of _ "e\<lparr>se_session := _, se_host := _\<rparr>"] sess_step.timer)
next
  case (setting ev s h)
  then show ?thesis using assms(1)
    by (cases sh) (auto simp: accounts_def intro!: exI [of _ "e\<lparr>se_session := _, se_host := _\<rparr>"] sess_step.setting)
qed

locale session_user =
  fixes run :: "'i \<Rightarrow> 'x \<times> UDPSession \<times> host \<Rightarrow> ('x \<times> UDPSession \<times> host) option"
    and hist :: "'x \<Rightarrow> u8 list \<Rightarrow> u8 list \<Rightarrow> bool"
  assumes run_accounts: "\<And>i x x' e I. accounts hist x e \<Longrightarrow> run i x = Some x' \<Longrightarrow>
    \<exists>e'. (sess_step I)\<^sup>*\<^sup>* e e' \<and> accounts hist x' e'"

lemma sess_left_run: "(sess_step (on_wire b))\<^sup>*\<^sup>* a a' \<Longrightarrow> sess_net_step\<^sup>*\<^sup>* (a, b) (a', b)"
  by (induction rule: rtranclp_induct) (auto intro: sess_net_step.left rtranclp.rtrancl_into_rtrancl)

lemma sess_right_run: "(sess_step (on_wire a))\<^sup>*\<^sup>* b b' \<Longrightarrow> sess_net_step\<^sup>*\<^sup>* (a, b) (a, b')"
  by (induction rule: rtranclp_induct) (auto intro: sess_net_step.right rtranclp.rtrancl_into_rtrancl)

locale two_users = left: session_user runx histx + right: session_user runy histy
  for runx :: "'i \<Rightarrow> 'x \<times> UDPSession \<times> host \<Rightarrow> ('x \<times> UDPSession \<times> host) option"
    and histx :: "'x \<Rightarrow> u8 list \<Rightarrow> u8 list \<Rightarrow> bool"
    and runy :: "'j \<Rightarrow> 'y \<times> UDPSession \<times> host \<Rightarrow> ('y \<times> UDPSession \<times> host) option"
    and histy :: "'y \<Rightarrow> u8 list \<Rightarrow> u8 list \<Rightarrow> bool"
begin

lemma users_step_sim:
  assumes "users_step runx runy (x, y) (x', y')" "accounts histx x a" "accounts histy y b"
  shows "\<exists>a' b'. sess_net_step\<^sup>*\<^sup>* (a, b) (a', b') \<and> accounts histx x' a' \<and> accounts histy y' b'"
proof -
  have wire: "on_wire a = sent_by x" "on_wire b = sent_by y" using assms(2,3) by (simp_all add: accounts_def on_wire_def)
  show ?thesis
    using assms(1)
  proof (cases rule: users_step.cases)
    case (user_left i)
    then show ?thesis using left.run_accounts [OF assms(2), of i x' "on_wire b"] assms(3) sess_left_run by blast
  next
    case (user_right i)
    then show ?thesis using right.run_accounts [OF assms(3), of i y' "on_wire a"] assms(2) sess_right_run by blast
  next
    case (env_left sh)
    then obtain a' where "sess_step (on_wire b) a a'" "accounts histx x' a'"
      using accounts_env [OF assms(2), of "on_wire b" sh] wire by auto
    then show ?thesis using sess_left_run [OF r_into_rtranclp] assms(3) env_left(2) by blast
  next
    case (env_right sh)
    then obtain b' where "sess_step (on_wire a) b b'" "accounts histy y' b'"
      using accounts_env [OF assms(3), of "on_wire a" sh] wire by auto
    then show ?thesis using sess_right_run [OF r_into_rtranclp] assms(2) env_right(1) by blast
  qed
qed

lemma users_run_sim:
  assumes "(users_step runx runy)\<^sup>*\<^sup>* (x0, y0) xy" "accounts histx x0 a0" "accounts histy y0 b0"
  shows "\<exists>a b. sess_net_step\<^sup>*\<^sup>* (a0, b0) (a, b) \<and> accounts histx (fst xy) a \<and> accounts histy (snd xy) b"
  using assms(1)
proof (induction rule: rtranclp_induct)
  case base
  then show ?case using assms(2,3) by auto
next
  case (step xy xy')
  then obtain a b where ab: "sess_net_step\<^sup>*\<^sup>* (a0, b0) (a, b)" "accounts histx (fst xy) a" "accounts histy (snd xy) b"
    by blast
  have "users_step runx runy (fst xy, snd xy) (fst xy', snd xy')" using step.hyps(2) by simp
  from users_step_sim [OF this ab(2,3)] ab(1) show ?case by (meson rtranclp_trans)
qed

end

section \<open>The handler and the clients keep their accounts\<close>

text \<open>The outcomes of one round of \<^verbatim>\<open>Read\<close> and of \<^verbatim>\<open>Write\<close>.\<close>

lemma Read_outcome:
  assumes "Read_poll b now now' (se_session e) (se_host e) = Some (res, b', s, h)"
  obtains n where "res = Done n" "n \<le> length b" "length b' = length b"
      "sess_step I e (e\<lparr>se_session := s, se_host := h, se_got := se_got e @ take n b'\<rparr>)"
  | "\<forall>n. res \<noteq> Done n" "b' = b" "s = se_session e" "h = se_host e"
proof (cases rule: Read_poll_cases [of "se_session e" b now now' "se_host e"])
  case (rest n b1)
  then show thesis using assms that(1) [of n] sess_step.read [of b now now' e n b' s h I] by simp
next
  case (message n b1 buf msg r rb bp)
  then show thesis using assms that(1) [of n] sess_step.read [of b now now' e n b' s h I] by simp
next
  case empty
  then show thesis using assms that(2) by (auto simp: deadline_wait_def split: option.splits if_splits)
qed

lemma write_bufs_count: "write_bufs bufs n r = Some (n', r') \<Longrightarrow> n' = n + length (concat bufs)"
  by (induction bufs n r rule: write_bufs.induct) (auto split: bind_splits)

lemma Write_outcome:
  assumes "sess_Write pick b now now' (se_session e) (se_host e) = Some (res, s, h)"
  obtains n where "res = Done n" "sess_step I e (e\<lparr>se_session := s, se_host := h, se_app := se_app e @ b\<rparr>)"
  | "\<forall>n. res \<noteq> Done n" "s = se_session e" "h = se_host e"
proof (cases res)
  case (Done n)
  then have run: "WriteBuffers pick [b] now now' (se_session e) (se_host e) = Some (Done n, s, h)"
    using assms by (simp add: sess_Write_def)
  then have "n = length b"
    by (cases pick) (auto simp: WriteBuffers_def Write_poll_def write_select_def deadline_wait_def Let_def
        bind_eq_Some_conv dest!: write_bufs_count split: if_splits option.splits)
  then show thesis using that(1) [OF Done] sess_step.wrote [OF run, of I] by simp
next
  case (Failed err)
  then show thesis using assms that(2)
    by (cases pick) (auto simp: sess_Write_def WriteBuffers_def Write_poll_def write_select_def Let_def bind_eq_Some_conv
        split: if_splits option.splits)
next
  case (Wait d)
  then show thesis using assms that(2)
    by (cases pick) (auto simp: sess_Write_def WriteBuffers_def Write_poll_def write_select_def Let_def bind_eq_Some_conv
        split: if_splits option.splits)
qed

lemma read_woken: "sess_step I e (e\<lparr>se_session := snd (read_select c (se_session e))\<rparr>)"
  using sess_step.setting [of "Ev_Wake c" e "snd (read_select c (se_session e))" "se_host e" I] by simp

definition echo_hist :: "echo \<Rightarrow> u8 list \<Rightarrow> u8 list \<Rightarrow> bool" where
  "echo_hist x app got \<longleftrightarrow> got = concat (echo_log x) \<and>
     (case echo_at x of
        At_Read \<Rightarrow> app = got
      | At_Write n \<Rightarrow> got = app @ take n (echo_buf x)
      | Echo_Stopped err \<Rightarrow> prefix app got)"

lemma echo_hist_stop: "echo_hist x app got \<Longrightarrow> echo_hist (x\<lparr>echo_at := Echo_Stopped err\<rparr>) app got"
  by (cases "echo_at x") (auto simp: echo_hist_def intro: prefixI)

lemma echo_woken_accounts:
  assumes "accounts echo_hist (x, s, h) e" "echo_woken fired c x s = (x', s')"
  shows "\<exists>e'. (sess_step I)\<^sup>*\<^sup>* e e' \<and> accounts echo_hist (x', s', h) e'"
proof -
  note r = r_into_rtranclp [of "sess_step I", OF read_woken [of I e c]]
  note w = r_into_rtranclp [of "sess_step I", OF sess_step.woken [of I e c]]
  show ?thesis
  proof (cases "x' = x \<and> s' = s")
    case True
    then show ?thesis using assms(1) by blast
  next
    case False
    then consider "echo_at x = At_Read" "s' = snd (read_select c s)" "x' = x \<or> (\<exists>err. x' = x\<lparr>echo_at := Echo_Stopped err\<rparr>)"
      | n where "echo_at x = At_Write n" "s' = snd (write_select c s)" "x' = x \<or> (\<exists>err. x' = x\<lparr>echo_at := Echo_Stopped err\<rparr>)"
      using assms(2) by (cases "echo_at x")
        (auto simp: echo_woken_def Let_def split: if_splits option.splits prod.splits)
    then show ?thesis
    proof cases
      case 1
      then show ?thesis using assms(1) r echo_hist_stop
        by (intro exI [of _ "e\<lparr>se_session := snd (read_select c (se_session e))\<rparr>"]) (auto simp: accounts_def)
    next
      case 2
      then show ?thesis using assms(1) w echo_hist_stop
        by (intro exI [of _ "e\<lparr>se_session := snd (write_select c (se_session e))\<rparr>"]) (auto simp: accounts_def)
    qed
  qed
qed

lemma echo_read_accounts:
  assumes "accounts echo_hist (x, s, h) e" "echo_at x = At_Read" "handleEcho (Go pick now now') (x, s, h) = Some x'"
  shows "\<exists>e'. (sess_step I)\<^sup>*\<^sup>* e e' \<and> accounts echo_hist x' e'"
proof -
  have sh: "s = se_session e" "h = se_host e" and hist: "se_got e = concat (echo_log x)" "se_app e = se_got e"
    using assms(1,2) by (simp_all add: accounts_def echo_hist_def)
  obtain res b s1 h1 where run: "Read_poll (echo_buf x) now now' (se_session e) (se_host e) = Some (res, b, s1, h1)"
    using assms(2,3) sh by (auto simp: bind_eq_Some_conv)
  then show ?thesis
  proof (cases rule: Read_outcome [of _ _ _ _ _ _ _ _ I])
    case (1 n)
    let ?e = "e\<lparr>se_session := s1, se_host := h1, se_got := se_got e @ take n b\<rparr>"
    have "accounts echo_hist x' ?e" using assms(2,3) run 1(1) hist by (auto simp: sh accounts_def echo_hist_def)
    then show ?thesis using 1(4) by blast
  next
    case 2
    then have "x' = (x, s, h) \<or> (\<exists>err. x' = (x\<lparr>echo_at := Echo_Stopped err\<rparr>, s, h))"
      using assms(2,3) run sh by (cases res) auto
    then show ?thesis using assms(1) echo_hist_stop by (auto simp: accounts_def)
  qed
qed

lemma echo_write_accounts:
  assumes "accounts echo_hist (x, s, h) e" "echo_at x = At_Write n" "handleEcho (Go pick now now') (x, s, h) = Some x'"
  shows "\<exists>e'. (sess_step I)\<^sup>*\<^sup>* e e' \<and> accounts echo_hist x' e'"
proof -
  have sh: "s = se_session e" "h = se_host e" and hist: "se_got e = concat (echo_log x)" "se_got e = se_app e @ take n (echo_buf x)"
    using assms(1,2) by (auto simp: accounts_def echo_hist_def)
  obtain res s1 h1 where run: "sess_Write pick (take n (echo_buf x)) now now' (se_session e) (se_host e) = Some (res, s1, h1)"
    using assms(2,3) sh by (auto simp: bind_eq_Some_conv)
  then show ?thesis
  proof (cases rule: Write_outcome [of _ _ _ _ _ _ _ _ I])
    case (1 m)
    let ?e = "e\<lparr>se_session := s1, se_host := h1, se_app := se_app e @ take n (echo_buf x)\<rparr>"
    have "accounts echo_hist x' ?e" using assms(2,3) run 1(1) hist by (auto simp: sh accounts_def echo_hist_def)
    then show ?thesis using 1(2) by blast
  next
    case 2
    then have "x' = (x, s, h) \<or> (\<exists>err. x' = (x\<lparr>echo_at := Echo_Stopped err\<rparr>, s, h))"
      using assms(2,3) run sh by (cases res) auto
    then show ?thesis using assms(1) echo_hist_stop by (auto simp: accounts_def)
  qed
qed

interpretation echo_handler: session_user handleEcho echo_hist
proof
  fix i x x' e I
  assume acc: "accounts echo_hist x e" and run: "handleEcho i x = Some x'"
  obtain c s h where x: "x = (c, s, h)" by (cases x)
  show "\<exists>e'. (sess_step I)\<^sup>*\<^sup>* e e' \<and> accounts echo_hist x' e'"
  proof (cases i)
    case (Go pick now now')
    then show ?thesis
      using echo_read_accounts [OF acc [unfolded x]] echo_write_accounts [OF acc [unfolded x]] run acc
      by (cases "echo_at c") (auto simp: x)
  next
    case (Woken fired cs)
    then show ?thesis using echo_woken_accounts [OF acc [unfolded x], of fired cs] run
      by (auto simp: x split: prod.splits)
  next
    case (Next data)
    then show ?thesis using acc run by (auto simp: x)
  qed
qed

text \<open>A client has written the strings of its rounds, and read the bytes its log shows.\<close>

abbreviation cl_sent :: "client \<Rightarrow> u8 list" where
  "cl_sent c \<equiv> concat (map fst (cl_log c))"

abbreviation cl_read :: "client \<Rightarrow> u8 list" where
  "cl_read c \<equiv> concat (map (\<lambda>(d, n, b). take n b) (cl_log c))"

definition rounds_ok :: "bool \<Rightarrow> (u8 list \<times> nat \<times> u8 list) list \<Rightarrow> bool" where
  "rounds_ok full log \<longleftrightarrow> (\<forall>(d, n, b) \<in> set log. length b = length d \<and> n \<le> length b \<and> (full \<longrightarrow> n = length b))"

definition client_hist :: "bool \<Rightarrow> client \<Rightarrow> u8 list \<Rightarrow> u8 list \<Rightarrow> bool" where
  "client_hist full c app got \<longleftrightarrow> rounds_ok full (cl_log c) \<and>
     (case cl_at c of
        C_Start \<Rightarrow> app = cl_sent c \<and> got = cl_read c
      | C_Write \<Rightarrow> app = cl_sent c \<and> got = cl_read c \<and> length (cl_buf c) = length (cl_data c)
      | C_Read k \<Rightarrow> app = cl_sent c @ cl_data c \<and> got = cl_read c @ take k (cl_buf c) \<and> k \<le> length (cl_buf c) \<and>
          length (cl_buf c) = length (cl_data c) \<and> (\<not> full \<longrightarrow> k = 0)
      | C_Stopped err \<Rightarrow> (app = cl_sent c \<or> app = cl_sent c @ cl_data c) \<and> prefix (cl_read c) got)"

lemma client_hist_stop: "client_hist full c app got \<Longrightarrow> client_hist full (c\<lparr>cl_at := C_Stopped err\<rparr>) app got"
  by (cases "cl_at c") (auto simp: client_hist_def)

lemma client_woken_accounts:
  assumes "accounts (client_hist full) (c, s, h) e" "client_woken fired cs c s = (c', s')"
  shows "\<exists>e'. (sess_step I)\<^sup>*\<^sup>* e e' \<and> accounts (client_hist full) (c', s', h) e'"
proof -
  note r = r_into_rtranclp [of "sess_step I", OF read_woken [of I e cs]]
  note w = r_into_rtranclp [of "sess_step I", OF sess_step.woken [of I e cs]]
  have "c' = c \<and> s' = s \<or> s' \<in> {snd (read_select cs s), snd (write_select cs s)} \<and> (c' = c \<or> (\<exists>err. c' = c\<lparr>cl_at := C_Stopped err\<rparr>))"
    using assms(2) by (cases "cl_at c") (auto simp: client_woken_def Let_def split: if_splits option.splits prod.splits)
  then consider "c' = c" "s' = s"
    | "s' = snd (read_select cs s)" "c' = c \<or> (\<exists>err. c' = c\<lparr>cl_at := C_Stopped err\<rparr>)"
    | "s' = snd (write_select cs s)" "c' = c \<or> (\<exists>err. c' = c\<lparr>cl_at := C_Stopped err\<rparr>)" by blast
  then show ?thesis
  proof cases
    case 1
    then show ?thesis using assms(1) by blast
  next
    case 2
    then show ?thesis using assms(1) r client_hist_stop
      by (intro exI [of _ "e\<lparr>se_session := snd (read_select cs (se_session e))\<rparr>"]) (auto simp: accounts_def)
  next
    case 3
    then show ?thesis using assms(1) w client_hist_stop
      by (intro exI [of _ "e\<lparr>se_session := snd (write_select cs (se_session e))\<rparr>"]) (auto simp: accounts_def)
  qed
qed

lemma client_write_accounts:
  assumes "accounts (client_hist full) (c, s, h) e" "cl_at c = C_Write" "client_write pick now now' (c, s, h) = Some x'"
  shows "\<exists>e'. (sess_step I)\<^sup>*\<^sup>* e e' \<and> accounts (client_hist full) x' e'"
proof -
  have sh: "s = se_session e" "h = se_host e" and hist: "rounds_ok full (cl_log c)" "se_app e = cl_sent c"
      "se_got e = cl_read c" "length (cl_buf c) = length (cl_data c)"
    using assms(1,2) by (auto simp: accounts_def client_hist_def)
  obtain res s1 h1 where run: "sess_Write pick (cl_data c) now now' (se_session e) (se_host e) = Some (res, s1, h1)"
    using assms(3) sh by (auto simp: client_write_def bind_eq_Some_conv)
  then show ?thesis
  proof (cases rule: Write_outcome [of _ _ _ _ _ _ _ _ I])
    case (1 m)
    let ?e = "e\<lparr>se_session := s1, se_host := h1, se_app := se_app e @ cl_data c\<rparr>"
    have "accounts (client_hist full) x' ?e"
      using assms(3) run 1(1) hist by (auto simp: sh accounts_def client_hist_def client_write_def)
    then show ?thesis using 1(2) by blast
  next
    case 2
    then have "x' = (c, s, h) \<or> (\<exists>err. x' = (c\<lparr>cl_at := C_Stopped err\<rparr>, s, h))"
      using assms(2,3) run sh by (cases res) (auto simp: client_write_def)
    then show ?thesis using assms(1) client_hist_stop by (auto simp: accounts_def)
  qed
qed

lemma client_read_full_accounts:
  assumes "accounts (client_hist True) (c, s, h) e" "cl_at c = C_Read k" "client_read_full k now now' (c, s, h) = Some x'"
  shows "\<exists>e'. (sess_step I)\<^sup>*\<^sup>* e e' \<and> accounts (client_hist True) x' e'"
proof (cases "k \<ge> length (cl_buf c)")
  case True
  then have "accounts (client_hist True) x' e"
    using assms by (auto simp: client_read_full_def accounts_def client_hist_def rounds_ok_def)
  then show ?thesis by blast
next
  case False
  have sh: "s = se_session e" "h = se_host e" and hist: "rounds_ok True (cl_log c)" "se_app e = cl_sent c @ cl_data c"
      "se_got e = cl_read c @ take k (cl_buf c)" "length (cl_buf c) = length (cl_data c)"
    using assms(1,2) by (auto simp: accounts_def client_hist_def)
  obtain res b s1 h1 where run: "Read_poll (drop k (cl_buf c)) now now' (se_session e) (se_host e) = Some (res, b, s1, h1)"
    using assms(3) sh False by (auto simp: client_read_full_def bind_eq_Some_conv)
  then show ?thesis
  proof (cases rule: Read_outcome [of _ _ _ _ _ _ _ _ I])
    case (1 n)
    let ?e = "e\<lparr>se_session := s1, se_host := h1, se_got := se_got e @ take n b\<rparr>"
    have x': "x' = (c\<lparr>cl_buf := take k (cl_buf c) @ b, cl_at := C_Read (k + n)\<rparr>, s1, h1)"
      using assms(3) run 1(1) False by (simp add: sh client_read_full_def)
    have "take (k + n) (take k (cl_buf c) @ b) = take k (cl_buf c) @ take n b" using False by simp
    then have "accounts (client_hist True) x' ?e"
      using hist 1(2,3) False by (simp add: x' accounts_def client_hist_def)
    then show ?thesis using 1(4) by blast
  next
    case 2
    then have "x' = (c, s, h) \<or> (\<exists>err. x' = (c\<lparr>cl_at := C_Stopped err\<rparr>, s, h))"
      using assms(2,3) run sh False by (cases res) (auto simp: client_read_full_def)
    then show ?thesis using assms(1) client_hist_stop by (auto simp: accounts_def)
  qed
qed

lemma client_read_once_accounts:
  assumes "accounts (client_hist False) (c, s, h) e" "cl_at c = C_Read k" "client_read_once now now' (c, s, h) = Some x'"
  shows "\<exists>e'. (sess_step I)\<^sup>*\<^sup>* e e' \<and> accounts (client_hist False) x' e'"
proof -
  have sh: "s = se_session e" "h = se_host e" and hist: "rounds_ok False (cl_log c)" "se_app e = cl_sent c @ cl_data c"
      "se_got e = cl_read c" "length (cl_buf c) = length (cl_data c)"
    using assms(1,2) by (auto simp: accounts_def client_hist_def)
  obtain res b s1 h1 where run: "Read_poll (cl_buf c) now now' (se_session e) (se_host e) = Some (res, b, s1, h1)"
    using assms(3) sh by (auto simp: client_read_once_def bind_eq_Some_conv)
  then show ?thesis
  proof (cases rule: Read_outcome [of _ _ _ _ _ _ _ _ I])
    case (1 n)
    let ?e = "e\<lparr>se_session := s1, se_host := h1, se_got := se_got e @ take n b\<rparr>"
    have "accounts (client_hist False) x' ?e"
      using assms(3) run 1(1-3) hist by (auto simp: sh client_read_once_def accounts_def client_hist_def rounds_ok_def)
    then show ?thesis using 1(4) by blast
  next
    case 2
    then have "x' = (c, s, h) \<or> (\<exists>err. x' = (c\<lparr>cl_at := C_Stopped err\<rparr>, s, h))"
      using assms(2,3) run sh by (cases res) (auto simp: client_read_once_def)
    then show ?thesis using assms(1) client_hist_stop by (auto simp: accounts_def)
  qed
qed

interpretation client_user: session_user "client_run full" "client_hist full" for full
proof
  fix i x x' e I
  assume acc: "accounts (client_hist full) x e" and run: "client_run full i x = Some x'"
  obtain c s h where x: "x = (c, s, h)" by (cases x)
  show "\<exists>e'. (sess_step I)\<^sup>*\<^sup>* e e' \<and> accounts (client_hist full) x' e'"
  proof (cases i)
    case (Go pick now now')
    then show ?thesis
      using client_write_accounts [OF acc [unfolded x]] client_read_full_accounts client_read_once_accounts run acc
      by (cases "cl_at c"; cases full) (auto simp: x)
  next
    case (Woken fired cs)
    then show ?thesis using client_woken_accounts [OF acc [unfolded x], of fired cs] run
      by (auto simp: x split: prod.splits)
  next
    case (Next data)
    then have "accounts (client_hist full) x' e"
      using acc run by (cases "cl_at c") (auto simp: x accounts_def client_start_def client_hist_def)
    then show ?thesis by blast
  qed
qed

interpretation echoing: two_users "client_run full" "client_hist full" handleEcho echo_hist for full
  by unfold_locales

section \<open>Properties\<close>

text \<open>A program with a new session.\<close>

definition user_of :: "'x \<Rightarrow> sess_end \<Rightarrow> 'x \<times> UDPSession \<times> host" where
  "user_of x e = (x, se_session e, se_host e)"

lemma accounts_new:
  "accounts echo_hist (user_of new_echo (new_sess_end conv l ra xa h)) (new_sess_end conv l ra xa h)"
  "accounts (client_hist full) (user_of new_client (new_sess_end conv l ra xa h)) (new_sess_end conv l ra xa h)"
  by (simp_all add: accounts_def user_of_def echo_hist_def new_echo_def client_hist_def new_client_def rounds_ok_def
      new_sess_end_def split: prod.split)

lemma echo_hist_prefix: "echo_hist x app got \<Longrightarrow> prefix app got"
  by (cases "echo_at x") (auto simp: echo_hist_def)

lemma client_hist_bytes:
  "client_hist full c app got \<Longrightarrow> rounds_ok full (cl_log c) \<and> prefix (cl_read c) got \<and> (app = cl_sent c \<or> app = cl_sent c @ cl_data c)"
  by (cases "cl_at c") (auto simp: client_hist_def)

text \<open>What any of the two clients reads from the echo server is what it sent.\<close>

lemma echoed_bytes:
  assumes "(users_step (client_run full) handleEcho)\<^sup>*\<^sup>*
      (user_of new_client (new_sess_end conv False ra xa ha), user_of new_echo (new_sess_end conv True rb xb hb)) ((c, cs), e, es)"
    and "batches_ok ha" and "out_calls (h_world ha) = []" and "h_sent ha = []"
    and "batches_ok hb" and "out_calls (h_world hb) = []" and "h_sent hb = []"
    and "length (cl_sent c @ cl_data c) < 2 ^ 32"
  shows "rounds_ok full (cl_log c) \<and> prefix (cl_read c) (cl_sent c @ cl_data c) \<and> prefix (concat (echo_log e)) (cl_sent c @ cl_data c)"
proof -
  obtain a b where run: "sess_net_step\<^sup>*\<^sup>* (new_sess_end conv False ra xa ha, new_sess_end conv True rb xb hb) (a, b)"
    and acc: "accounts (client_hist full) (c, cs) a" "accounts echo_hist (e, es) b"
    using echoing.users_run_sim [OF assms(1) accounts_new(2,1)] by auto
  have hist: "client_hist full c (se_app a) (se_got a)" "echo_hist e (se_app b) (se_got b)"
    using acc by (simp_all add: accounts_def)
  note client = client_hist_bytes [OF hist(1)]
  have app: "prefix (se_app a) (cl_sent c @ cl_data c)" using client by auto
  have small: "length (se_app a) < 2 ^ 32" using prefix_length_le [OF app] assms(8) by linarith
  have there: "prefix (se_got b) (se_app a)" by (rule sessions_deliver_prefix_one_way(1) [OF run assms(2-7) small])
  have echo: "prefix (se_app b) (se_got b)" by (rule echo_hist_prefix [OF hist(2)])
  have "length (se_app b) < 2 ^ 32"
    using prefix_length_le [OF there] prefix_length_le [OF echo] small by linarith
  then have home: "prefix (se_got a) (se_app b)" by (rule sessions_deliver_prefix_one_way(2) [OF run assms(2-7)])
  note there' = prefix_order.order_trans [OF there app]
  have "prefix (cl_read c) (se_got a)" using client by blast
  from prefix_order.order_trans [OF prefix_order.order_trans [OF this home] prefix_order.order_trans [OF echo there']]
  have "prefix (cl_read c) (cl_sent c @ cl_data c)" .
  moreover have "prefix (concat (echo_log e)) (cl_sent c @ cl_data c)"
    using there' hist(2) by (simp add: echo_hist_def)
  ultimately show ?thesis using client by blast
qed

text \<open>The single \<^verbatim>\<open>Read\<close> of \<^verbatim>\<open>client_echo.go\<close> may return less than it sent, but never other bytes.\<close>

lemma client_echo_reads_back:
  assumes "(users_step client_echo server_handleEcho)\<^sup>*\<^sup>*
      (user_of new_client (new_sess_end conv False ra xa ha), user_of new_echo (new_sess_end conv True rb xb hb)) ((c, cs), e, es)"
    and "batches_ok ha" and "out_calls (h_world ha) = []" and "h_sent ha = []"
    and "batches_ok hb" and "out_calls (h_world hb) = []" and "h_sent hb = []"
    and "length (cl_sent c @ cl_data c) < 2 ^ 32"
  shows "prefix (cl_read c) (cl_sent c @ cl_data c)"
  using echoed_bytes [OF assms(1) [unfolded client_echo_def server_handleEcho_def] assms(2-8)] by blast

lemma full_rounds_equal:
  "rounds_ok True log \<Longrightarrow> prefix (concat (map (\<lambda>(d, n, b). take n b) log)) (concat (map fst log) @ x) \<Longrightarrow>
   (d, n, b) \<in> set log \<Longrightarrow> n = length d \<and> b = d"
proof (induction log)
  case (Cons a log)
  obtain d1 n1 b1 where a: "a = (d1, n1, b1)" by (cases a)
  have one: "length b1 = length d1" "n1 = length b1" using Cons.prems(1) by (auto simp: a rounds_ok_def)
  have "prefix (b1 @ concat (map (\<lambda>(d, n, b). take n b) log)) (d1 @ concat (map fst log) @ x)"
    using Cons.prems(2) one by (simp add: a)
  then have "b1 = d1" "prefix (concat (map (\<lambda>(d, n, b). take n b) log)) (concat (map fst log) @ x)"
    using one(1) by (auto simp: prefix_def)
  moreover have "rounds_ok True log" using Cons.prems(1) by (auto simp: rounds_ok_def)
  ultimately show ?case using Cons.IH Cons.prems(3) one by (auto simp: a)
qed simp

text \<open>
  Claim C6. Echo, end to end. The client of \<^verbatim>\<open>echo.go\<close> and the echo handler each use a new
  session, over a network that loses, repeats and reorders datagrams, with timers, settings,
  errors and wake-ups at any time. In every round the client completes, the buffer filled by
  \<^verbatim>\<open>io.ReadFull\<close> equals the string it sent, and all the handler has read is the beginning of what
  the client sent, as long as fewer than \<open>2^32\<close> bytes were sent.
\<close>

theorem echo_returns_what_was_sent:
  assumes "(users_step echo_client handleEcho)\<^sup>*\<^sup>*
      (user_of new_client (new_sess_end conv False ra xa ha), user_of new_echo (new_sess_end conv True rb xb hb)) ((c, cs), e, es)"
    and "batches_ok ha" and "out_calls (h_world ha) = []" and "h_sent ha = []"
    and "batches_ok hb" and "out_calls (h_world hb) = []" and "h_sent hb = []"
    and "length (concat (map fst (cl_log c)) @ cl_data c) < 2 ^ 32"
  shows "(\<forall>(d, n, b) \<in> set (cl_log c). n = length d \<and> b = d) \<and>
    prefix (concat (echo_log e)) (concat (map fst (cl_log c)) @ cl_data c)"
proof -
  from echoed_bytes [OF assms(1) [unfolded echo_client_def] assms(2-8)]
  have "rounds_ok True (cl_log c)" "prefix (cl_read c) (cl_sent c @ cl_data c)"
    "prefix (concat (echo_log e)) (cl_sent c @ cl_data c)" by blast+
  then show ?thesis using full_rounds_equal by auto
qed

text \<open>The client starts a round and writes three bytes.\<close>

theorem echo_returns_what_was_sent_witness:
  "\<exists>c cs e es. (users_step echo_client handleEcho)\<^sup>*\<^sup>* (user_of new_client (fst demo_ends), user_of new_echo (snd demo_ends)) ((c, cs), e, es) \<and>
     cl_at c = C_Read 0 \<and> cl_data c = [1, 2, 3] \<and> prefix (concat (echo_log e)) [1, 2, 3]"
proof -
  obtain s h where new: "newUDPSession 7 False False True ''b'' True 0 (demo_host (\<lambda>_ l. Inr l)) = (s, h)"
    by (cases "newUDPSession 7 False False True ''b'' True 0 (demo_host (\<lambda>_ l. Inr l))")
  obtain s' h' where w: "WriteBuffers EventCase [[1, 2, 3]] 0 0 s h = Some (Done 3, s', h')"
    using new_session_writes [OF new demo_write(2)] by blast
  let ?y = "user_of new_echo (snd demo_ends)"
  define c1 where "c1 = client_start [1, 2, 3] new_client"
  define c2 where "c2 = c1\<lparr>cl_at := C_Read 0\<rparr>"
  have start: "user_of new_client (fst demo_ends) = (new_client, s, h)" by (simp add: user_of_def new_sess_end_def new)
  have "echo_client (Next [1, 2, 3]) (new_client, s, h) = Some (c1, s, h)" by (simp add: echo_client_def c1_def)
  moreover have "echo_client (Go EventCase 0 0) (c1, s, h) = Some (c2, s', h')"
    by (simp add: echo_client_def client_write_def sess_Write_def w c1_def c2_def client_start_def new_client_def)
  ultimately have run: "(users_step echo_client handleEcho)\<^sup>*\<^sup>* (user_of new_client (fst demo_ends), ?y) ((c2, s', h'), ?y)"
    unfolding start by (meson users_step.user_left converse_rtranclp_into_rtranclp rtranclp.rtrancl_refl)
  have c2: "cl_at c2 = C_Read 0" "cl_data c2 = [1, 2, 3]" "cl_log c2 = []"
    by (simp_all add: c2_def c1_def client_start_def new_client_def)
  have run': "(users_step echo_client handleEcho)\<^sup>*\<^sup>* (user_of new_client (fst demo_ends), ?y) ((c2, s', h'), fst ?y, snd ?y)"
    using run by simp
  have "length (concat (map fst (cl_log c2)) @ cl_data c2) < 2 ^ 32" by (simp add: c2)
  from echo_returns_what_was_sent [OF run' [unfolded fst_conv snd_conv] demo_write(2-4) demo_write(2-4) this]
  have "prefix (concat (echo_log (fst ?y))) [1, 2, 3]" by (simp add: c2)
  then show ?thesis using run' c2(1,2) by blast
qed

end
