(* ===== verification/Net_Script.thy ===== *)
theory Net_Script
  imports Network
begin

text \<open>
  Executable runs of the network of \<^verbatim>\<open>Network\<close>: a script is a list of calls of the two ends, and
  every script that runs is a run of the network. Packets are named by their place in what the
  other end has output, so a script can delay, repeat and lose them.
\<close>

text \<open>\<^const>\<open>Inl\<close> is a call of the left end.\<close>

datatype net_call = Call_Send "u8 list" | Call_Read "u8 list" | Call_Flush | Call_Packet nat
  | Call_NoDelay int int int int | Call_WndSize int int

fun do_call :: "u8 list list \<Rightarrow> net_call \<Rightarrow> endpoint \<Rightarrow> endpoint option" where
  "do_call ps (Call_Send buffer) e =
    (case Send buffer (ep_rudp e) of
       Some (ret, r) \<Rightarrow> if ret = 0 then Some (e\<lparr>ep_rudp := r, ep_app := ep_app e @ buffer\<rparr>) else None
     | None \<Rightarrow> None)"
| "do_call ps (Call_Read buffer) e =
    do { (bs, r) \<leftarrow> fetch_bytes buffer (ep_rudp e); Some (e\<lparr>ep_rudp := r, ep_got := ep_got e @ bs\<rparr>) }"
| "do_call ps Call_Flush e = do { (_, r, w) \<leftarrow> flush False (ep_rudp e) (ep_world e); Some (ran e r w) }"
| "do_call ps (Call_Packet i) e =
    (if i < length ps
     then do { (_, r, w) \<leftarrow> Input (ps ! i) True False (ep_rudp e) (ep_world e); Some (ran e r w) }
     else None)"
| "do_call ps (Call_NoDelay nd iv rs nc) e = Some (e\<lparr>ep_rudp := NoDelay nd iv rs nc (ep_rudp e)\<rparr>)"
| "do_call ps (Call_WndSize a b) e = Some (e\<lparr>ep_rudp := snd (WndSize a b (ep_rudp e))\<rparr>)"

fun run_script :: "(net_call + net_call) list \<Rightarrow> endpoint \<times> endpoint \<Rightarrow> (endpoint \<times> endpoint) option" where
  "run_script [] ab = Some ab"
| "run_script (Inl c # cs) (a, b) = do { a \<leftarrow> do_call (packets (ep_world b)) c a; run_script cs (a, b) }"
| "run_script (Inr c # cs) (a, b) = do { b \<leftarrow> do_call (packets (ep_world a)) c b; run_script cs (a, b) }"

lemma do_call_step: "do_call ps c e = Some e' \<Longrightarrow> ep_step (set ps) e e'"
proof (cases c)
  case (Call_Packet i)
  then show "do_call ps c e = Some e' \<Longrightarrow> ep_step (set ps) e e'"
    by (auto simp: bind_eq_Some_conv split: if_splits intro!: ep_step.packet [of "ps ! i"])
qed (auto simp: bind_eq_Some_conv intro: ep_step.intros split: option.splits if_splits)

lemma run_script_steps: "run_script cs ab = Some ab' \<Longrightarrow> net_step\<^sup>*\<^sup>* ab ab'"
proof (induction cs ab rule: run_script.induct)
  case (2 c cs a b)
  then obtain a1 where "do_call (packets (ep_world b)) c a = Some a1" "run_script cs (a1, b) = Some ab'"
    by (auto simp: bind_eq_Some_conv)
  then show ?case using 2(1) net_step.left [OF do_call_step] by (meson converse_rtranclp_into_rtranclp)
next
  case (3 c cs a b)
  then obtain b1 where "do_call (packets (ep_world a)) c b = Some b1" "run_script cs (a, b1) = Some ab'"
    by (auto simp: bind_eq_Some_conv)
  then show ?case using 3(1) net_step.right [OF do_call_step] by (meson converse_rtranclp_into_rtranclp)
qed simp

text \<open>Several calls of one end, while the other does nothing.\<close>

fun do_calls :: "u8 list list \<Rightarrow> net_call list \<Rightarrow> endpoint \<Rightarrow> endpoint option" where
  "do_calls ps [] e = Some e"
| "do_calls ps (c # cs) e = do { e \<leftarrow> do_call ps c e; do_calls ps cs e }"

lemma do_calls_steps: "do_calls ps cs e = Some e' \<Longrightarrow> (ep_step (set ps))\<^sup>*\<^sup>* e e'"
proof (induction cs arbitrary: e)
  case (Cons c cs)
  then obtain e1 where "do_call ps c e = Some e1" "do_calls ps cs e1 = Some e'" by (auto simp: bind_eq_Some_conv)
  then show ?case using Cons.IH do_call_step by (meson converse_rtranclp_into_rtranclp)
qed simp

end
