(* ===== verification/Stall.thy ===== *)
theory Stall
  imports Net_Script
begin

text \<open>
  A state of two ends that lasts for ever. The sender removes acknowledged segments from
  \<^verbatim>\<open>sndBuf\<close> only by a cumulative acknowledgement, repeats only unmarked segments, and probes
  the window only when it believes it closed. When the one packet with the last cumulative
  acknowledgement is lost, all three can fail together.
\<close>

section \<open>An end with nothing to say\<close>

definition silent :: "RUDP \<Rightarrow> bool" where
  "silent r \<longleftrightarrow> ackList r = [] \<and> probe r = 0 \<and> rmtWnd r \<noteq> 0 \<and> (\<forall>s \<in> set (sndBuf r). seg_acked s = 1) \<and>
     (noCwnd r = 0 \<longrightarrow> 1 \<le> cwnd r)"

definition window_full :: "RUDP \<Rightarrow> bool" where
  "window_full r \<longleftrightarrow> sndUna r + send_window r \<le> sndNxt r"

lemma silent_simps [simp]:
  "silent (r\<lparr>probeWait := x\<rparr>) = silent r" "silent (r\<lparr>tsProbe := x\<rparr>) = silent r" "silent (r\<lparr>sndQueue := q\<rparr>) = silent r"
  "window_full (r\<lparr>probeWait := x\<rparr>) = window_full r" "window_full (r\<lparr>tsProbe := x\<rparr>) = window_full r"
  "window_full (r\<lparr>sndQueue := q\<rparr>) = window_full r"
  by (simp_all add: silent_def window_full_def send_window_def Let_def cong: if_cong)

lemma resend_loop_silent:
  "\<forall>s \<in> set q. seg_acked s = 1 \<Longrightarrow> resend_loop r seg resent k q st = Some (q, st)"
  by (induction q) (simp_all add: resend_one_def)

lemma admit_none: "sndQueue r = [] \<or> window_full r \<Longrightarrow> admit (send_window r) r = (0, r)"
  by (cases "sndQueue r") (auto simp: admit_def window_full_def)

lemma update_cwnd_none: "noCwnd r = 0 \<longrightarrow> 1 \<le> cwnd r \<Longrightarrow> update_cwnd wnd resent 0 0 r = r"
  by (auto simp: update_cwnd_def Let_def)

lemma flush_silent:
  assumes "silent r" "sndQueue r = [] \<or> window_full r" "flush ackOnly r w = Some (v, r', w')"
  shows "\<exists>x y. r' = r\<lparr>probeWait := x, tsProbe := y\<rparr> \<and> out_calls w' = out_calls w"
proof -
  have s: "ackList r = []" "probe r = 0" "rmtWnd r \<noteq> 0" "\<forall>s \<in> set (sndBuf r). seg_acked s = 1" "noCwnd r = 0 \<longrightarrow> 1 \<le> cwnd r"
    using assms(1) by (simp_all add: silent_def)
  have ptr: "start_ptr r (rudp_buffer r) = Some (rudp_buffer r, nat (reserved r))" and res: "0 \<le> reserved r"
    using assms(3) by (auto simp: flush_def start_ptr_def split: if_splits)
  have acks: "flush_acks r seg (ackList r) ptr w = Some (seg, ptr, w)" for seg ptr by (simp add: s(1))
  have eq: "r\<lparr>ackList := []\<rparr> = r" by (simp flip: s(1))
  show ?thesis
  proof (cases ackOnly)
    case True
    then have "r' = r\<lparr>probeWait := probeWait r, tsProbe := tsProbe r\<rparr>" "out_calls w' = out_calls w"
      using assms(3) res by (auto simp: flush_def ptr acks eq flushBuffer_def)
    then show ?thesis by blast
  next
    case False
    let ?r = "r\<lparr>probeWait := 0, tsProbe := 0\<rparr>"
    have none: "admit (send_window ?r) ?r = (0, ?r)"
      using assms(2) by (intro admit_none) simp
    have pt: "probe_timer r w = (?r, w)" using s(3) by (simp add: probe_timer_def)
    have pr: "?r\<lparr>probe := 0\<rparr> = ?r" by (simp flip: s(2))
    have cw: "noCwnd ?r = 0 \<longrightarrow> 1 \<le> cwnd ?r" using s(5) by simp
    obtain current w1 where cm: "currentMs w = (current, w1)" "out_calls w1 = out_calls w"
      by (auto simp: currentMs_def)
    have same: "?r\<lparr>sndBuf := sndBuf r, rudp_state := rudp_state r, rudp_buffer := rudp_buffer r\<rparr> = ?r" by simp
    have "flush_data r (ack_template r) (rudp_buffer r, nat (reserved r)) w = Some (v, r', w')"
      using assms(3) False by (simp add: flush_def ptr acks eq)
    then show ?thesis
      using res s(2) cm(2) by (auto simp: flush_data_def pt flush_ask_def pr none cm(1) resend_loop_silent [OF s(4)] flushBuffer_def
          flush_stats_def update_cwnd_none [OF cw] Let_def)
  qed
qed

section \<open>Two stalled ends\<close>

definition can_queue :: "RUDP \<Rightarrow> bool" where
  "can_queue r \<longleftrightarrow> 0 < mss r \<and> unat (mss r) \<le> mtuLimit \<and> fits_mss r"

lemma can_queue_simps [simp]: "can_queue (r\<lparr>probeWait := x\<rparr>) = can_queue r" "can_queue (r\<lparr>tsProbe := x\<rparr>) = can_queue r"
  by (simp_all add: can_queue_def fits_mss_def)

lemma can_queue_Send:
  assumes "can_queue r" "Send buffer r = Some (0, r')"
  obtains q where "r' = r\<lparr>sndQueue := q\<rparr>" "queue_bytes q = queue_bytes (sndQueue r) @ buffer" "can_queue r'"
proof -
  have "0 < unat (mss r)" "unat (mss r) \<le> mtuLimit" "fits_mss r" using assms(1) by (simp_all add: can_queue_def word_less_nat_alt)
  from Send_accepted_queue [OF this assms(2)] show thesis using that assms(1) by (auto simp: can_queue_def fits_mss_def)
qed

text \<open>
  The sender \<open>a\<close> has queued data, but everything it has numbered is acknowledged and still fills
  its window; the receiver \<open>b\<close> has read everything and sends nothing itself.
\<close>

definition stalled :: "endpoint \<times> endpoint \<Rightarrow> bool" where
  "stalled ab \<longleftrightarrow> (case ab of (a, b) \<Rightarrow>
     silent (ep_rudp a) \<and> can_queue (ep_rudp a) \<and> window_full (ep_rudp a) \<and> rcvQueue (ep_rudp a) = [] \<and>
     silent (ep_rudp b) \<and> sndQueue (ep_rudp b) = [] \<and> rcvQueue (ep_rudp b) = [])"

text \<open>
  What can happen when the packets under way are lost: timers, arrivals of packets that are
  output from now on, reads on both sides, and writes of the sender, which only add to its
  queue.
\<close>

inductive idle_step :: "nat \<Rightarrow> nat \<Rightarrow> endpoint \<times> endpoint \<Rightarrow> endpoint \<times> endpoint \<Rightarrow> bool" for na nb :: nat where
  timer_left: "flush ackOnly (ep_rudp a) (ep_world a) = Some (v, r, w) \<Longrightarrow> idle_step na nb (a, b) (ran a r w, b)"
| timer_right: "flush ackOnly (ep_rudp b) (ep_world b) = Some (v, r, w) \<Longrightarrow> idle_step na nb (a, b) (a, ran b r w)"
| packet_left: "p \<in> new_packets nb b \<Longrightarrow> Input p regular ackNoDelay (ep_rudp a) (ep_world a) = Some (code, r, w) \<Longrightarrow>
    idle_step na nb (a, b) (ran a r w, b)"
| packet_right: "p \<in> new_packets na a \<Longrightarrow> Input p regular ackNoDelay (ep_rudp b) (ep_world b) = Some (code, r, w) \<Longrightarrow>
    idle_step na nb (a, b) (a, ran b r w)"
| read_left: "fetch_bytes buffer (ep_rudp a) = Some (bs, r) \<Longrightarrow>
    idle_step na nb (a, b) (a\<lparr>ep_rudp := r, ep_got := ep_got a @ bs\<rparr>, b)"
| read_right: "fetch_bytes buffer (ep_rudp b) = Some (bs, r) \<Longrightarrow>
    idle_step na nb (a, b) (a, b\<lparr>ep_rudp := r, ep_got := ep_got b @ bs\<rparr>)"
| write_left: "Send buffer (ep_rudp a) = Some (0, r) \<Longrightarrow>
    idle_step na nb (a, b) (a\<lparr>ep_rudp := r, ep_app := ep_app a @ buffer\<rparr>, b)"
| time_left: "out_calls w = out_calls (ep_world a) \<Longrightarrow> idle_step na nb (a, b) (a\<lparr>ep_world := w\<rparr>, b)"
| time_right: "out_calls w = out_calls (ep_world b) \<Longrightarrow> idle_step na nb (a, b) (a, b\<lparr>ep_world := w\<rparr>)"

lemma fetch_empty:
  assumes "rcvQueue r = []" "fetch_bytes buffer r = Some (bs, r')"
  shows "bs = []" "r' = r"
proof -
  have "peekSize r = -1" using assms(1) by (simp add: peekSize_def)
  then show "bs = []" "r' = r" using assms(2) by (auto simp: fetch_bytes_eq)
qed

text \<open>What stays: nothing is output, numbered or read, and the queue only grows.\<close>

definition frozen :: "endpoint \<times> endpoint \<Rightarrow> endpoint \<times> endpoint \<Rightarrow> bool" where
  "frozen ab ab' \<longleftrightarrow> (case (ab, ab') of ((a, b), (a', b')) \<Rightarrow> stalled ab' \<and>
     packets (ep_world a') = packets (ep_world a) \<and> packets (ep_world b') = packets (ep_world b) \<and>
     ep_sent a' = ep_sent a \<and> ep_got b' = ep_got b \<and> ep_got a' = ep_got a \<and>
     prefix (queue_bytes (sndQueue (ep_rudp a))) (queue_bytes (sndQueue (ep_rudp a'))))"

lemma frozen_step:
  assumes "frozen ab ab1" "idle_step (length (packets (ep_world (fst ab)))) (length (packets (ep_world (snd ab)))) ab1 ab2"
  shows "frozen ab ab2"
  using assms(2,1)
proof (cases rule: idle_step.cases)
  case (timer_left ackOnly a v r w b)
  have st: "silent (ep_rudp a)" "window_full (ep_rudp a)" "can_queue (ep_rudp a)"
    using assms(1) timer_left(1) by (auto simp: frozen_def stalled_def)
  obtain x y where eq: "r = (ep_rudp a)\<lparr>probeWait := x, tsProbe := y\<rparr>" "out_calls w = out_calls (ep_world a)"
    using flush_silent [OF st(1) _ timer_left(3)] st(2) by blast
  then show ?thesis using assms(1) timer_left(1,2) st eq
    by (auto simp: frozen_def stalled_def newly_sent_def packets_def)
next
  case (timer_right ackOnly b v r w a)
  have st: "silent (ep_rudp b)" "sndQueue (ep_rudp b) = []"
    using assms(1) timer_right(1) by (auto simp: frozen_def stalled_def)
  obtain x y where eq: "r = (ep_rudp b)\<lparr>probeWait := x, tsProbe := y\<rparr>" "out_calls w = out_calls (ep_world b)"
    using flush_silent [OF st(1) _ timer_right(3)] st(2) by blast
  then show ?thesis using assms(1) timer_right(1,2) st eq
    by (auto simp: frozen_def stalled_def packets_def)
next
  case (write_left buffer a r b)
  have st: "silent (ep_rudp a)" "window_full (ep_rudp a)" "can_queue (ep_rudp a)"
    using assms(1) write_left(1) by (auto simp: frozen_def stalled_def)
  obtain q where q: "r = (ep_rudp a)\<lparr>sndQueue := q\<rparr>" "queue_bytes q = queue_bytes (sndQueue (ep_rudp a)) @ buffer" "can_queue r"
    by (rule can_queue_Send [OF st(3) write_left(3)])
  then show ?thesis using assms(1) write_left(1,2) st q
    by (auto simp: frozen_def stalled_def intro: prefix_order.order_trans)
next
  case (packet_left p b regular ackNoDelay a code r w)
  then show ?thesis using assms(1) by (cases ab) (simp add: frozen_def new_packets_def)
next
  case (packet_right p a regular ackNoDelay b code r w)
  then show ?thesis using assms(1) by (cases ab) (simp add: frozen_def new_packets_def)
next
  case (read_left buffer a bs r b)
  then have "rcvQueue (ep_rudp a) = []" using assms(1) by (simp add: frozen_def stalled_def)
  from fetch_empty [OF this read_left(3)] show ?thesis using assms(1) read_left(1,2) by simp
next
  case (read_right buffer b bs r a)
  then have "rcvQueue (ep_rudp b) = []" using assms(1) by (simp add: frozen_def stalled_def)
  from fetch_empty [OF this read_right(3)] show ?thesis using assms(1) read_right(1,2) by simp
next
  case (time_left w a b)
  then show ?thesis using assms(1) by (cases ab) (simp add: frozen_def stalled_def packets_def)
next
  case (time_right w b a)
  then show ?thesis using assms(1) by (cases ab) (simp add: frozen_def stalled_def packets_def)
qed

section \<open>The stall is reached\<close>

text \<open>
  Two ends with a small MTU; the receiver's window is one segment. The receiver's first packet
  (una 1, window open) overtakes none but arrives after its second (una 2, window closed, with
  the acknowledgements 1 and 2); its third (una 3) is lost.
\<close>

definition small_end :: endpoint where
  "small_end = \<lparr>ep_rudp = snd (SetMtu 50 (NewRudp 7)), ep_world = new_world [], ep_sent = [], ep_app = [], ep_got = []\<rparr>"

definition stall_script :: "(net_call + net_call) list" where
  "stall_script =
    [Inl (Call_NoDelay (-1) (-1) (-1) 1), Inr (Call_WndSize 0 1),
     Inl (Call_Send [1]), Inl Call_Flush, Inl (Call_Send [2]), Inl Call_Flush, Inl (Call_Send [3]), Inl Call_Flush,
     Inr (Call_Packet 0), Inr (Call_Read [0]), Inr Call_Flush,
     Inr (Call_Packet 1), Inr (Call_Packet 2), Inr Call_Flush,
     Inr (Call_Read [0]), Inr (Call_Read [0]), Inr Call_Flush,
     Inl (Call_Packet 1), Inl (Call_Packet 0), Inl (Call_Send [4])]"

definition stall_seen :: "endpoint \<times> endpoint \<Rightarrow> bool" where
  "stall_seen ab \<longleftrightarrow> stalled ab \<and> ep_app (fst ab) = [1, 2, 3, 4] \<and> ep_got (snd ab) = [1, 2, 3] \<and>
     (case flush False (ep_rudp (fst ab)) (ep_world (fst ab)) of None \<Rightarrow> False | Some _ \<Rightarrow> True)"

lemma stall_script_runs: "map_option stall_seen (run_script stall_script (small_end, small_end)) = Some True"
  by code_simp

section \<open>Properties\<close>

text \<open>
  Claim C11. A lost window update stalls a connection for good. When everything the sender has
  numbered is acknowledged segment by segment but not cumulatively and fills its window, and the
  packet in which the receiver announced its progress is lost, then whatever happens (timers on
  both sides, reads, further writes of the sender, arrivals of all later packets) no packet
  is output, nothing is numbered and nothing is read any more; the data written only piles up in
  the sender's queue.
\<close>

theorem lost_window_update_stalls:
  assumes "stalled (a, b)"
    and "(idle_step (length (packets (ep_world a))) (length (packets (ep_world b))))\<^sup>*\<^sup>* (a, b) (a', b')"
  shows "packets (ep_world a') = packets (ep_world a) \<and> packets (ep_world b') = packets (ep_world b) \<and>
    ep_sent a' = ep_sent a \<and> ep_got b' = ep_got b \<and>
    prefix (queue_bytes (sndQueue (ep_rudp a))) (queue_bytes (sndQueue (ep_rudp a')))"
proof -
  have "frozen (a, b) ab" if "(idle_step (length (packets (ep_world a))) (length (packets (ep_world b))))\<^sup>*\<^sup>* (a, b) ab" for ab
    using that
  proof (induction rule: rtranclp_induct)
    case base
    then show ?case using assms(1) by (simp add: frozen_def)
  next
    case (step ab1 ab2)
    then show ?case by (intro frozen_step [OF step.IH]) simp
  qed
  from this [OF assms(2)] show ?thesis by (simp add: frozen_def)
qed

text \<open>After the script the sender's timer changes nothing, although a byte waits in its queue.\<close>

theorem lost_window_update_stalls_witness:
  "\<exists>a b a' b'. net_step\<^sup>*\<^sup>* (small_end, small_end) (a, b) \<and> ep_app a = [1, 2, 3, 4] \<and>
     (idle_step (length (packets (ep_world a))) (length (packets (ep_world b))))\<^sup>*\<^sup>* (a, b) (a', b') \<and>
     packets (ep_world a') = packets (ep_world a) \<and> ep_got b' = [1, 2, 3]"
proof -
  obtain a b where run: "run_script stall_script (small_end, small_end) = Some (a, b)" and seen: "stall_seen (a, b)"
    using stall_script_runs by (cases "run_script stall_script (small_end, small_end)") auto
  obtain v r w where fl: "flush False (ep_rudp a) (ep_world a) = Some (v, r, w)"
    using seen by (auto simp: stall_seen_def split: option.splits)
  have st: "stalled (a, b)" "ep_app a = [1, 2, 3, 4]" "ep_got b = [1, 2, 3]" using seen by (simp_all add: stall_seen_def)
  have idle: "(idle_step (length (packets (ep_world a))) (length (packets (ep_world b))))\<^sup>*\<^sup>* (a, b) (ran a r w, b)"
    by (rule r_into_rtranclp, rule idle_step.timer_left [OF fl])
  show ?thesis
    using run_script_steps [OF run] idle lost_window_update_stalls [OF st(1) idle] st(2,3)
    by (intro exI [of _ a] exI [of _ b] exI [of _ "ran a r w"]) auto
qed

end
