(* ===== verification/Window_Probe.thy ===== *)
theory Window_Probe
  imports Progress Net_Script
begin

text \<open>
  A sender that knows the receive window to be closed finds out when it opens: it arms a timer,
  asks (WASK) when the timer has run out, the receiver's answer announces its window, and the
  sender takes it over. Each of these steps can be taken from every reachable state.
\<close>

section \<open>What one segment tells about windows\<close>

lemma input_control_windows:
  "rmtWnd (input_control h r) = rmtWnd r \<and>
   probe (input_control h r) = (if hd_cmd h = IRUDP_CMD_WASK then probe r OR IRUDP_ASK_TELL else probe r)"
  using parse_acks_frame [of "hd_sn h" "hd_ts h" r] by (auto simp: input_control_def)

lemma segment_windows:
  assumes "input_segment regular conv h body iv r w = Some (iv', r', w')"
  shows "rmtWnd r' = (if regular then ucast (hd_wnd h) else rmtWnd r)"
    "probe r' = (if hd_cmd h = IRUDP_CMD_WASK then probe r OR IRUDP_ASK_TELL else probe r)"
proof -
  define r0 where "r0 = (if regular then r\<lparr>rmtWnd := ucast (hd_wnd h)\<rparr> else r)"
  define r1 where "r1 = ack_una (hd_una h) r0"
  have 0: "rmtWnd r0 = (if regular then ucast (hd_wnd h) else rmtWnd r)" "probe r0 = probe r" by (simp_all add: r0_def)
  have 1: "rmtWnd r1 = rmtWnd r0" "probe r1 = probe r0" using ack_una_frame [of "hd_una h" r0] by (auto simp: r1_def)
  note eq = assms [unfolded input_segment_eq Let_def, folded r0_def, folded r1_def]
  have "rmtWnd r' = rmtWnd r1 \<and> probe r' = (if hd_cmd h = IRUDP_CMD_WASK then probe r1 OR IRUDP_ASK_TELL else probe r1)"
  proof (cases "hd_cmd h = IRUDP_CMD_PUSH")
    case True
    then have "input_push regular conv h body r1 w = Some (r', w')"
      using eq by (auto simp: map_option_case split: option.splits)
    then obtain l n q b where "r' = r1\<lparr>ackList := l, rcvNxt := n, rcvQueue := q, rcvBuf := b\<rparr>" by (rule input_push_frame)
    then show ?thesis using True by simp
  next
    case False
    then show ?thesis using eq input_control_windows [of h r1] by simp
  qed
  then show "rmtWnd r' = (if regular then ucast (hd_wnd h) else rmtWnd r)"
    "probe r' = (if hd_cmd h = IRUDP_CMD_WASK then probe r OR IRUDP_ASK_TELL else probe r)" by (simp_all add: 0 1)
qed

text \<open>The receiver has been asked and has not answered yet.\<close>

definition asked :: "RUDP \<Rightarrow> bool" where
  "asked r \<longleftrightarrow> probe r AND IRUDP_ASK_TELL \<noteq> 0"

lemma asked_or: "(p OR 2) AND 2 \<noteq> 0" "p AND 2 \<noteq> 0 \<Longrightarrow> (p OR x) AND 2 \<noteq> 0" "(p OR 1) AND 1 \<noteq> 0" for p x :: u32
proof -
  have "bit ((p OR 2) AND 2) 1" by (simp add: bit_simps)
  then show "(p OR 2) AND 2 \<noteq> 0" by auto
  have "bit ((p OR 1) AND 1) 0" by (simp add: bit_simps)
  then show "(p OR 1) AND 1 \<noteq> 0" by auto
  show "p AND 2 \<noteq> 0 \<Longrightarrow> (p OR x) AND 2 \<noteq> 0" by (simp add: bit.conj_disj_distrib2 or_eq_0_iff)
qed

lemma segments_asked:
  "input_segments regular conv q iv r w = Some (iv', r', w') \<Longrightarrow>
   asked r \<or> (\<exists>(h, body) \<in> set q. hd_cmd h = IRUDP_CMD_WASK) \<Longrightarrow> asked r'"
proof (induction regular conv q iv r w rule: input_segments.induct)
  case (2 regular conv h body q iv r w)
  then obtain iv1 r1 w1 where 1: "input_segment regular conv h body iv r w = Some (iv1, r1, w1)"
      "input_segments regular conv q iv1 r1 w1 = Some (iv', r', w')" by (auto simp: bind_eq_Some_conv)
  have "asked r1 \<or> (\<exists>(h, body) \<in> set q. hd_cmd h = IRUDP_CMD_WASK)"
    using 2(3) segment_windows(2) [OF 1(1)] asked_or(1,2) [of "probe r"] by (auto simp: asked_def)
  then show ?case using 2(1) 1 by blast
qed simp

lemma segments_rmtWnd:
  "input_segments True conv q iv r w = Some (iv', r', w') \<Longrightarrow> \<forall>(h, body) \<in> set q. hd_wnd h = n \<Longrightarrow>
   rmtWnd r' = (if q = [] then rmtWnd r else ucast n)"
proof (induction q arbitrary: iv r w)
  case (Cons a q)
  then obtain iv1 r1 w1 where 1: "input_segment True conv (fst a) (snd a) iv r w = Some (iv1, r1, w1)"
      "input_segments True conv q iv1 r1 w1 = Some (iv', r', w')" by (cases a) (auto simp: bind_eq_Some_conv)
  have "rmtWnd r1 = ucast n" using segment_windows(1) [OF 1(1)] Cons.prems(2) by (cases a) auto
  then show ?case using Cons.IH [OF 1(2)] Cons.prems(2) by simp
qed simp

text \<open>The segments of a packet output nothing.\<close>

interpretation quiet: segment_contract "\<lambda>_ w. packets w = ps" "\<lambda>_ _. True" for ps
  by unfold_locales (simp_all add: packets_def)

section \<open>The end of Input\<close>

text \<open>Before it may flush, the end of \<^verbatim>\<open>Input\<close> changes only the timers and the congestion window.\<close>

lemma updateRTO_windows: "probe (updateRTO rtt r) = probe r" "rmtWnd (updateRTO rtt r) = rmtWnd r" "mss (updateRTO rtt r) = mss r"
proof -
  obtain a b c where "updateRTO rtt r = r\<lparr>rxSRTT := a, rxRTTVal := b, rxRTO := c\<rparr>" using updateRTO_frame by blast
  then show "probe (updateRTO rtt r) = probe r" "rmtWnd (updateRTO rtt r) = rmtWnd r" "mss (updateRTO rtt r) = mss r" by simp_all
qed

context header_input begin

lemma tail_ends:
  assumes "P r w" "mss r \<noteq> 0" "input_tail regular False old iv r w = Some (code, r', w')"
  obtains r2 w2 where "P r2 w2" "probe r2 = probe r" "rmtWnd r2 = rmtWnd r" "packets w2 = packets w"
    "r' = r2 \<and> w' = w2 \<or> (\<exists>v. flush False r2 w2 = Some (v, r', w'))"
proof -
  obtain r1 w1 where 1: "input_rtt regular iv r (AddUint64 InSegs_update (iv_inSegs iv) w) = (r1, w1)"
    by (cases "input_rtt regular iv r (AddUint64 InSegs_update (iv_inSegs iv) w)")
  have P1: "P r1 w1" using 1 hdr_stat [OF assms(1), of InSegs_update "iv_inSegs iv"] hdr_clock hdr_rtt
    by (fastforce simp: input_rtt_def split_def Let_def split: if_splits)
  have same: "probe r1 = probe r \<and> rmtWnd r1 = rmtWnd r \<and> mss r1 = mss r"
    using 1 updateRTO_windows by (auto simp: input_rtt_def split_def Let_def split: if_splits)
  have out: "packets w1 = packets w"
    using 1 by (auto simp: input_rtt_def split_def Let_def packets_def split: if_splits)
  obtain r2 where 2: "grow_cwnd old r1 = Some r2" "r' = r2 \<and> w' = w1 \<or> (\<exists>v. flush False r2 w1 = Some (v, r', w'))"
    using assms(3) 1 by (auto simp: input_tail_def bind_eq_Some_conv split: if_splits)
  have "mss r1 \<noteq> 0" using assms(2) same by simp
  from grow_cwnd_frame [OF this 2(1)] same have "probe r2 = probe r" "rmtWnd r2 = rmtWnd r" by auto
  then show thesis using that [OF hdr_grow [OF P1 2(1)] _ _ out] 2(2) by blast
qed

end

section \<open>What a flush tells\<close>

text \<open>A packet whose segments all announce the window \<open>n\<close>.\<close>

definition tells :: "u32 \<Rightarrow> u16 \<Rightarrow> u8 \<Rightarrow> u8 list \<Rightarrow> bool" where
  "tells c n cmd p \<longleftrightarrow> length p \<le> 24 + mtuLimit \<and> fst (parse_packet c p) = 0 \<and>
     (\<exists>(h, body) \<in> set (snd (parse_packet c p)). hd_cmd h = cmd) \<and>
     (\<forall>(h, body) \<in> set (snd (parse_packet c p)). hd_wnd h = n)"

lemma flush_tells:
  assumes acks: "acks_sound c r w" and ok: "sender_ok r" and run: "flush False r w = Some (v, r', w')"
    and due: "asked r \<and> cmd = IRUDP_CMD_WINS \<or> probe (fst (probe_timer r w)) AND IRUDP_ASK_SEND \<noteq> 0 \<and> cmd = IRUDP_CMD_WASK"
  shows "\<exists>p \<in> set (drop (length (packets w)) (packets w')). tells c (unusedWnd r) cmd p"
proof -
  obtain gs where gs: "packets w' = packets w @ map (frame_packet []) gs" "\<forall>s \<in> set (concat gs). ack_seg c r' s"
      "\<forall>g \<in> set gs. length (frame_packet [] g) \<le> unat (mtu r)" "probes_post r w r' (concat gs)"
    using flush_segs [OF acks ok run] by metis
  have "cmd \<in> seg_cmd ` set (concat gs)" using gs(4) due by (auto simp: probes_post_def asked_def)
  then obtain g s where g: "g \<in> set gs" "s \<in> set g" "seg_cmd s = cmd" by auto
  have parse: "parse_packet c (frame_packet [] g) = (0, map (\<lambda>s. (header_of s, seg_data s)) g)"
    using gs(2) g(1) parse_wires [of g c] by (auto simp: frame_packet_def)
  have "\<forall>s \<in> set g. seg_wnd s = unusedWnd r" using gs(4) g(1) by (auto simp: probes_post_def)
  moreover have "length (frame_packet [] g) \<le> 24 + mtuLimit"
  proof -
    have so: "sizes_ok r" "reserved r = 0" using ok acks by (simp_all add: sender_ok_def acks_sound_def)
    have "int (unat (mtu r)) = 24 + int (unat (mss r))" "unat (mss r) \<le> mtuLimit" using so by (simp_all add: sizes_ok_def)
    then have "unat (mtu r) \<le> 24 + mtuLimit" by linarith
    then show ?thesis using gs(3) g(1) by (meson order_trans)
  qed
  ultimately have "tells c (unusedWnd r) cmd (frame_packet [] g)"
    using g(2,3) by (auto simp: tells_def parse header_of_def)
  then show ?thesis using gs(1) g(1) by auto
qed

section \<open>The sender asks\<close>

lemma probe_timer_asks:
  assumes "rmtWnd r = 0" "probeWait r \<noteq> 0" "stands (tsProbe r) w"
  shows "probe (fst (probe_timer r w)) AND IRUDP_ASK_SEND \<noteq> 0"
proof -
  obtain w1 where cm: "currentMs w = (tsProbe r, w1)" using stands_currentMs [OF assms(3)] by (metis prod.collapse)
  have "timeDiff t t = 0" for t by (simp add: timeDiff_def)
  then show ?thesis using assms(1,2) cm asked_or(3) [of "probe r"] by (simp add: probe_timer_def Let_def)
qed

lemma probe_timer_arms:
  assumes "rmtWnd r = 0" "probeWait r = 0"
  shows "probeWait (fst (probe_timer r w)) \<noteq> 0"
  using assms by (simp add: probe_timer_def split_def Let_def)

text \<open>An end that knows the peer's window to be closed, with its own state consistent.\<close>

definition shut :: "u32 \<Rightarrow> endpoint \<Rightarrow> bool" where
  "shut c e \<longleftrightarrow> acks_sound c (ep_rudp e) (ep_world e) \<and> sender_ok (ep_rudp e) \<and> rmtWnd (ep_rudp e) = 0"

lemma shut_flush:
  assumes "shut c e" "flush False (ep_rudp e) (ep_world e) = Some (v, r, w)"
  shows "shut c (ran e r w)" "probeWait (ep_rudp e) = 0 \<Longrightarrow> probeWait r \<noteq> 0" "length (packets (ep_world e)) \<le> length (packets w)"
proof -
  have e: "acks_sound c (ep_rudp e) (ep_world e)" "sender_ok (ep_rudp e)" "rmtWnd (ep_rudp e) = 0"
    using assms(1) by (simp_all add: shut_def)
  have so: "sizes_ok (ep_rudp e)" "fits_mss (ep_rudp e)" using e(2) by (simp_all add: sender_ok_def)
  have "sender_ok r" "rmtWnd r = 0" using flush_keeps [OF so assms(2)] e(2,3) by (simp_all add: sender_ok_def flush_frame_def)
  then show "shut c (ran e r w)" using acks_sound_flush [OF e(1,2) assms(2)] by (simp add: shut_def)
  have "probeWait r = probeWait (fst (probe_timer (ep_rudp e) (ep_world e)))"
    using flush_segs [OF e(1,2) assms(2)] by (metis probes_post_def)
  then show "probeWait (ep_rudp e) = 0 \<Longrightarrow> probeWait r \<noteq> 0" using probe_timer_arms [OF e(3)] by simp
  obtain gs where "packets w = packets (ep_world e) @ map (frame_packet []) gs" using flush_segs [OF e(1,2) assms(2)] by metis
  then show "length (packets (ep_world e)) \<le> length (packets w)" by simp
qed

lemma shut_runs: "shut c e \<Longrightarrow> \<exists>v r w. flush False (ep_rudp e) (ep_world e) = Some (v, r, w)"
  using flush_total_keeps [of "ep_rudp e" False "ep_world e"] by (auto simp: shut_def sender_ok_def)

lemma new_packets_later: "p \<in> new_packets m e \<Longrightarrow> n \<le> m \<Longrightarrow> p \<in> new_packets n e"
  using set_drop_subset_set_drop [of n m "packets (ep_world e)"] unfolding new_packets_def by blast

lemma sender_asks_armed:
  assumes "shut c e" "probeWait (ep_rudp e) \<noteq> 0"
  obtains e' n p where "alone_step\<^sup>*\<^sup>* e e'" "p \<in> new_packets (length (packets (ep_world e))) e'" "tells c n IRUDP_CMD_WASK p"
proof -
  let ?e1 = "e\<lparr>ep_world := (ep_world e)\<lparr>clock := stopped_clock (tsProbe (ep_rudp e))\<rparr>\<rparr>"
  have e1: "shut c ?e1" using assms(1) by (simp add: shut_def acks_sound_def packets_def)
  obtain v r w where run: "flush False (ep_rudp ?e1) (ep_world ?e1) = Some (v, r, w)" using shut_runs [OF e1] by blast
  have "probe (fst (probe_timer (ep_rudp ?e1) (ep_world ?e1))) AND IRUDP_ASK_SEND \<noteq> 0"
    using probe_timer_asks [of "ep_rudp e"] assms stands_stopped by (simp add: shut_def)
  then have "\<exists>p \<in> set (drop (length (packets (ep_world ?e1))) (packets w)). tells c (unusedWnd (ep_rudp ?e1)) IRUDP_CMD_WASK p"
    using e1 by (intro flush_tells [OF _ _ run]) (simp_all add: shut_def)
  then obtain p where p: "p \<in> new_packets (length (packets (ep_world e))) (ran ?e1 r w)" "tells c (unusedWnd (ep_rudp e)) IRUDP_CMD_WASK p"
    by (auto simp: new_packets_def packets_def)
  have "alone_step\<^sup>*\<^sup>* e (ran ?e1 r w)"
    by (rule converse_rtranclp_into_rtranclp [OF alone_step.time r_into_rtranclp [of alone_step, OF alone_step.update [OF run]]])
  then show thesis by (rule that [OF _ p])
qed

lemma sender_asks:
  assumes "shut c e"
  obtains e' n p where "alone_step\<^sup>*\<^sup>* e e'" "p \<in> new_packets (length (packets (ep_world e))) e'" "tells c n IRUDP_CMD_WASK p"
proof (cases "probeWait (ep_rudp e) = 0")
  case True
  obtain v r w where run: "flush False (ep_rudp e) (ep_world e) = Some (v, r, w)" using shut_runs [OF assms] by blast
  have "probeWait (ep_rudp (ran e r w)) \<noteq> 0" using shut_flush(2) [OF assms run True] by simp
  with shut_flush(1) [OF assms run] obtain e' n p where e': "alone_step\<^sup>*\<^sup>* (ran e r w) e'"
      "p \<in> new_packets (length (packets (ep_world (ran e r w)))) e'" "tells c n IRUDP_CMD_WASK p"
    by (rule sender_asks_armed)
  have "p \<in> new_packets (length (packets (ep_world e))) e'"
    using new_packets_later [OF e'(2)] shut_flush(3) [OF assms run] by simp
  then show thesis by (rule that [OF converse_rtranclp_into_rtranclp [OF alone_step.update [OF run] e'(1)] _ e'(3)])
next
  case False
  then show thesis by (rule sender_asks_armed [OF assms]) (rule that)
qed

section \<open>The receiver answers\<close>

lemma receiver_answers:
  assumes inv: "link_in src N got r" "acks_sound c r w"
    and p: "\<forall>(h, body) \<in> set (snd (parse_packet c p)). from_peer src N h body" "tells c n IRUDP_CMD_WASK p"
    and run: "Input p regular False r w = Some (code, r', w')"
  shows "(asked r' \<or> (\<exists>q \<in> set (drop (length (packets w)) (packets w')). tells c (unusedWnd r') IRUDP_CMD_WINS q)) \<and>
    length (packets w) \<le> length (packets w')"
proof -
  have conv: "rudp_conv r = c" using inv(2) by (simp add: acks_sound_def)
  obtain q where q: "parse_packet (rudp_conv r) p = (0, q)" "\<exists>(h, body) \<in> set q. hd_cmd h = IRUDP_CMD_WASK"
    using p(2) unfolding tells_def conv by (metis prod.collapse)
  then have long: "\<not> length p < 24" using parse_lengths [of _ _ "rudp_conv r" p] by fastforce
  obtain iv r1 w1 where 1: "input_segments regular (rudp_conv r) q iv_start r w = Some (iv, r1, w1)"
      "input_tail regular False (sndUna r) iv r1 w1 = Some (code, r', w')"
    using run long q(1) by (auto simp: Input_eq bind_eq_Some_conv)
  have ask: "asked r1" using segments_asked [OF 1(1)] q(2) by blast
  have out1: "packets w1 = packets w" by (rule quiet.keep_segments [OF refl _ 1(1)]) simp
  have Qs: "\<forall>(h, body) \<in> set q. from_peer src N h body" using p(1) q(1) conv by simp
  have "acks_from c r r w" using inv(2) by (simp add: acks_from_def knows_more_same)
  then have P1: "link_in src N got r1 \<and> acks_from c r r1 w1" using acking.keep_segments [OF _ Qs 1(1)] inv(1) by blast
  then have "mss r1 \<noteq> 0" using sender_ok_mss by (auto simp: link_in_def)
  from acking.tail_ends [OF P1 this 1(2)]
  obtain r2 w2 where 2: "link_in src N got r2 \<and> acks_from c r r2 w2" "probe r2 = probe r1"
    "r' = r2 \<and> w' = w2 \<or> (\<exists>v. flush False r2 w2 = Some (v, r', w'))" "packets w2 = packets w1" by metis
  have out2: "packets w2 = packets w" using 2(4) out1 by simp
  have ask2: "asked r2" using ask 2(2) by (simp add: asked_def)
  have ok: "acks_sound c r2 w2" "sender_ok r2" using 2(1) by (simp_all add: acks_from_def link_in_def)
  show ?thesis
    using 2(3)
  proof
    assume "\<exists>v. flush False r2 w2 = Some (v, r', w')"
    then obtain v where fl: "flush False r2 w2 = Some (v, r', w')" by blast
    have "flush_frame r2 r'" using flush_keeps [OF _ _ fl] ok(2) by (simp add: sender_ok_def)
    then have "unusedWnd r' = unusedWnd r2" by (simp add: flush_frame_def unusedWnd_def)
    moreover obtain gs where "packets w' = packets w2 @ map (frame_packet []) gs" using flush_segs [OF ok fl] by metis
    ultimately show ?thesis using flush_tells [OF ok fl] ask2 out2 by auto
  qed (use ask2 out2 in simp)
qed

text \<open>An end that was asked answers with its next \<^verbatim>\<open>flush\<close>.\<close>

lemma asked_answers:
  assumes "asked (ep_rudp e)" "acks_sound c (ep_rudp e) (ep_world e)" "sender_ok (ep_rudp e)"
  obtains e' q where "alone_step\<^sup>*\<^sup>* e e'" "q \<in> new_packets (length (packets (ep_world e))) e'"
    "tells c (unusedWnd (ep_rudp e')) IRUDP_CMD_WINS q"
proof -
  have so: "sizes_ok (ep_rudp e)" "fits_mss (ep_rudp e)" using assms(3) by (simp_all add: sender_ok_def)
  obtain v r w where fl: "flush False (ep_rudp e) (ep_world e) = Some (v, r, w)"
    using flush_total_keeps [OF so, of False "ep_world e"] by blast
  have "flush_frame (ep_rudp e) r" using flush_keeps [OF so fl] by simp
  then have "unusedWnd r = unusedWnd (ep_rudp e)" by (simp add: flush_frame_def unusedWnd_def)
  then obtain q where "q \<in> new_packets (length (packets (ep_world e))) (ran e r w)" "tells c (unusedWnd r) IRUDP_CMD_WINS q"
    using flush_tells [OF assms(2,3) fl] assms(1) by (auto simp: new_packets_def)
  then show thesis
    by (intro that [OF r_into_rtranclp [of alone_step, OF alone_step.update [OF fl]]]) simp_all
qed

section \<open>The sender believes the answer\<close>

lemma Input_believes:
  assumes ok: "sender_ok r" and conv: "rudp_conv r = c" and p: "tells c n cmd p"
    and run: "Input p True False r w = Some (code, r', w')"
  shows "rmtWnd r' = ucast n"
proof -
  obtain q where q: "parse_packet (rudp_conv r) p = (0, q)" "\<exists>(h, body) \<in> set q. hd_cmd h = cmd" "\<forall>(h, body) \<in> set q. hd_wnd h = n"
    using p unfolding tells_def conv by (metis prod.collapse)
  then obtain h body where mem: "(h, body) \<in> set q" by auto
  then have long: "\<not> length p < 24" and lens: "\<forall>(h, body) \<in> set q. length body \<le> mtuLimit"
    using parse_lengths [of _ _ "rudp_conv r" p] q(1) p by (fastforce simp: tells_def)+
  obtain iv r1 w1 where 1: "input_segments True (rudp_conv r) q iv_start r w = Some (iv, r1, w1)"
      "input_tail True False (sndUna r) iv r1 w1 = Some (code, r', w')"
    using run long q(1) by (auto simp: Input_eq bind_eq_Some_conv)
  have wnd: "rmtWnd r1 = ucast n" using segments_rmtWnd [OF 1(1) q(3)] mem by auto
  have ok1: "sender_ok r1" by (rule sender.keep_segments [OF ok lens 1(1)])
  from sender.tail_ends [OF ok1 sender_ok_mss [OF ok1] 1(2)]
  obtain r2 w2 where 2: "sender_ok r2" "rmtWnd r2 = rmtWnd r1"
    "r' = r2 \<and> w' = w2 \<or> (\<exists>v. flush False r2 w2 = Some (v, r', w'))" by metis
  have "rmtWnd r' = rmtWnd r2"
    using 2(3)
  proof
    assume "\<exists>v. flush False r2 w2 = Some (v, r', w')"
    then obtain v where fl: "flush False r2 w2 = Some (v, r', w')" by blast
    then show ?thesis using flush_keeps [OF _ _ fl] 2(1) by (simp add: sender_ok_def flush_frame_def)
  qed simp
  then show ?thesis using 2(2) wnd by simp
qed

section \<open>Over the network\<close>

text \<open>What holds of one end in every reachable state with fewer than \<open>2^32\<close> bytes written.\<close>

lemma reached:
  assumes run: "net_step\<^sup>*\<^sup>* (new_endpoint c wa, new_endpoint c wb) (a, b)"
    and fresh: "out_calls wa = []" "out_calls wb = []" and small: "length (ep_app a) < 2 ^ 32" "length (ep_app b) < 2 ^ 32"
  shows "acks_sound c (ep_rudp b) (ep_world b)" "sender_ok (ep_rudp b)" "rudp_conv (ep_rudp b) = c"
    "link_in (nth_src (ep_sent a)) (length (ep_sent a)) (ep_got b) (ep_rudp b)"
    "\<And>p. p \<in> set (packets (ep_world a)) \<Longrightarrow>
       \<forall>(h, body) \<in> set (snd (parse_packet c p)). from_peer (nth_src (ep_sent a)) (length (ep_sent a)) h body"
proof -
  note invs = net_run_invs [OF run fresh]
  have sent: "length (ep_sent a) < 2 ^ 32" by (rule net_run_small [OF run fresh small(1)])
  have inv: "side_inv c a" "side_inv c b" "flow_inv a b" using invs(1) by (simp_all add: net_inv_def)
  show "acks_sound c (ep_rudp b) (ep_world b)" using invs(2) sent by (simp add: ack_inv_def)
  show "rudp_conv (ep_rudp b) = c" by (rule side_inv_conv [OF inv(2)])
  show link: "link_in (nth_src (ep_sent a)) (length (ep_sent a)) (ep_got b) (ep_rudp b)" using inv(3) sent by (simp add: flow_inv_def)
  then show "sender_ok (ep_rudp b)" by (simp add: link_in_def)
  show "\<forall>(h, body) \<in> set (snd (parse_packet c p)). from_peer (nth_src (ep_sent a)) (length (ep_sent a)) h body"
    if "p \<in> set (packets (ep_world a))" for p by (rule side_inv_pushes [OF inv(1) sent that])
qed

lemma takes_packet:
  assumes "sender_ok r" "rudp_conv r = c" "tells c n cmd p"
  obtains code r' w' where "Input p True False r w = Some (code, r', w')"
proof -
  have "\<forall>(h, body) \<in> set (snd (parse_packet (rudp_conv r) p)). length body \<le> mtuLimit"
    using assms(2,3) parse_lengths [of _ _ "rudp_conv r" p] by (fastforce simp: tells_def)
  from sender.Input_total [OF assms(1) this] show thesis using that by blast
qed

lemma net_right_run: "(ep_step (set (packets (ep_world a))))\<^sup>*\<^sup>* b b' \<Longrightarrow> net_step\<^sup>*\<^sup>* (a, b) (a, b')"
  by (rule run_swap [OF net_left_run])

text \<open>The question arrives and is answered.\<close>

lemma question_answered:
  assumes run: "net_step\<^sup>*\<^sup>* (new_endpoint c wa, new_endpoint c wb) (a, b)"
    and fresh: "out_calls wa = []" "out_calls wb = []" and small: "length (ep_app a) < 2 ^ 32" "length (ep_app b) < 2 ^ 32"
    and p: "p \<in> set (packets (ep_world a))" "tells c n IRUDP_CMD_WASK p"
  obtains code r w b' q where "Input p True False (ep_rudp b) (ep_world b) = Some (code, r, w)" "alone_step\<^sup>*\<^sup>* (ran b r w) b'"
    "q \<in> new_packets (length (packets (ep_world b))) b'" "tells c (unusedWnd (ep_rudp b')) IRUDP_CMD_WINS q"
proof -
  note b = reached [OF run fresh small]
  obtain code r w where put: "Input p True False (ep_rudp b) (ep_world b) = Some (code, r, w)"
    by (rule takes_packet [OF b(2,3) p(2)])
  let ?b1 = "ran b r w"
  have right: "net_step\<^sup>*\<^sup>* (a, b) (a, ?b1)" by (rule r_into_rtranclp, rule net_step.right, rule ep_step.packet [OF p(1) put])
  from receiver_answers [OF b(4,1) b(5) [OF p(1)] p(2) put]
  have ans: "asked r \<or> (\<exists>q \<in> new_packets (length (packets (ep_world b))) ?b1. tells c (unusedWnd r) IRUDP_CMD_WINS q)"
    and later: "length (packets (ep_world b)) \<le> length (packets (ep_world ?b1))" by (simp_all add: new_packets_def)
  from ans show thesis
  proof
    assume ask: "asked r"
    have "net_step\<^sup>*\<^sup>* (new_endpoint c wa, new_endpoint c wb) (a, ?b1)" by (rule rtranclp_trans [OF run right])
    note b1 = reached(1,2) [OF this fresh small(1)]
    obtain b' q where b': "alone_step\<^sup>*\<^sup>* ?b1 b'" "q \<in> new_packets (length (packets (ep_world ?b1))) b'"
        "tells c (unusedWnd (ep_rudp b')) IRUDP_CMD_WINS q"
      by (rule asked_answers [of ?b1 c]) (use ask b1 small(2) in simp_all)
    show thesis by (rule that [OF put b'(1) new_packets_later [OF b'(2) later] b'(3)])
  next
    assume "\<exists>q \<in> new_packets (length (packets (ep_world b))) ?b1. tells c (unusedWnd r) IRUDP_CMD_WINS q"
    then show thesis using that [OF put rtranclp.rtrancl_refl] by auto
  qed
qed

section \<open>Properties\<close>

text \<open>
  Claim C5. A closed window is found open again. In every reachable state of two ends over a
  lossy network in which the sender believes the receive window closed, with fewer than \<open>2^32\<close>
  bytes written on each side, and even when every packet output so far is lost: without any call
  of the users, only by time passing and its periodic \<^verbatim>\<open>flush\<close>, the sender outputs a new packet
  that asks for the window (WASK); when this packet arrives the receiver outputs, at once or at
  its next \<^verbatim>\<open>flush\<close>, a new packet that tells the window it has then (WINS); and when the answer
  arrives the sender has exactly that window.
\<close>

theorem closed_window_reopens:
  assumes run: "net_step\<^sup>*\<^sup>* (new_endpoint conv wa, new_endpoint conv wb) (a, b)"
    and fresh: "out_calls wa = []" "out_calls wb = []" and small: "length (ep_app a) < 2 ^ 32" "length (ep_app b) < 2 ^ 32"
    and closed: "rmtWnd (ep_rudp a) = 0"
    and counts: "na = length (packets (ep_world a))" "nb = length (packets (ep_world b))"
  shows "\<exists>a1 p n code r w b' q code' r' w'.
    alone_step\<^sup>*\<^sup>* a a1 \<and> p \<in> new_packets na a1 \<and> tells conv n IRUDP_CMD_WASK p \<and>
    Input p True False (ep_rudp b) (ep_world b) = Some (code, r, w) \<and> alone_step\<^sup>*\<^sup>* (ran b r w) b' \<and>
    q \<in> new_packets nb b' \<and> tells conv (unusedWnd (ep_rudp b')) IRUDP_CMD_WINS q \<and>
    Input q True False (ep_rudp a1) (ep_world a1) = Some (code', r', w') \<and> rmtWnd r' = ucast (unusedWnd (ep_rudp b')) \<and>
    (unaided_step na nb)\<^sup>*\<^sup>* (a, b) (ran a1 r' w', b')"
proof -
  have "shut conv a" using reached(1,2) [OF run_swap [OF run] fresh(2,1) small(2,1)] closed by (simp add: shut_def)
  then obtain a1 n p where a1: "alone_step\<^sup>*\<^sup>* a a1" "p \<in> new_packets na a1" "tells conv n IRUDP_CMD_WASK p"
    using sender_asks unfolding counts by metis
  have left: "(unaided_step na nb)\<^sup>*\<^sup>* (a, b) (a1, b)" by (rule alone_runs(1) [OF a1(1)])
  have small1: "length (ep_app a1) < 2 ^ 32" using small(1) unaided_users(1) [OF left] by simp
  note run1 = rtranclp_trans [OF run unaided_net_run [OF left]]
  obtain code r w b' q where b': "Input p True False (ep_rudp b) (ep_world b) = Some (code, r, w)" "alone_step\<^sup>*\<^sup>* (ran b r w) b'"
    "q \<in> new_packets nb b'" "tells conv (unusedWnd (ep_rudp b')) IRUDP_CMD_WINS q"
    by (rule question_answered [OF run1 fresh small1 small(2) new_packets_all [OF a1(2)] a1(3)]) (rule that, simp_all add: counts)
  have asked: "unaided_step na nb (a1, b) (a1, ran b r w)" by (rule unaided_step.arrive_right [OF a1(2) b'(1)])
  have "(unaided_step na nb)\<^sup>*\<^sup>* (a, b) (a1, ran b r w)" by (rule rtranclp.rtrancl_into_rtrancl [OF left asked])
  from rtranclp_trans [OF this alone_runs(2) [OF b'(2)]]
  have right: "(unaided_step na nb)\<^sup>*\<^sup>* (a, b) (a1, b')" .
  have small': "length (ep_app b') < 2 ^ 32" using small(2) unaided_users(3) [OF right] by simp
  note a1_ok = reached(2,3) [OF run_swap [OF rtranclp_trans [OF run unaided_net_run [OF right]]] fresh(2,1) small' small1]
  obtain code' r' w' where put: "Input q True False (ep_rudp a1) (ep_world a1) = Some (code', r', w')"
    by (rule takes_packet [OF a1_ok b'(4)])
  have "(unaided_step na nb)\<^sup>*\<^sup>* (a, b) (ran a1 r' w', b')"
    by (rule rtranclp.rtrancl_into_rtrancl [OF right]) (rule unaided_step.arrive_left [OF b'(3) put])
  moreover have "rmtWnd r' = ucast (unusedWnd (ep_rudp b'))" by (rule Input_believes [OF a1_ok b'(4) put])
  ultimately show ?thesis using a1 b' put by blast
qed

text \<open>
  The receiver's window is one segment; it stores the sender's first segment and its
  acknowledgement closes the window. Then its user reads the byte.
\<close>

definition first_packet :: "u8 list" where
  "first_packet = seg_wire ((fragment 0 [1])\<lparr>seg_conv := 7, seg_cmd := IRUDP_CMD_PUSH, seg_wnd := 32\<rparr>)"

lemma first_packet_sent:
  "map_option (\<lambda>e. packets (ep_world e) = [first_packet] \<and> ep_app e = [1])
     (do_calls [] [Call_NoDelay (-1) (-1) (-1) 1, Call_Send [1], Call_Flush] (new_endpoint 7 (new_world []))) = Some True"
  by code_simp

lemma window_closed:
  "map_option (\<lambda>e. (\<exists>p \<in> set (packets (ep_world e)). tells 7 0 IRUDP_CMD_ACK p) \<and> ep_app e = [] \<and> unusedWnd (ep_rudp e) = 1)
     (do_calls [first_packet] [Call_WndSize 0 1, Call_Packet 0, Call_Flush, Call_Read [0]] (new_endpoint 7 (new_world []))) = Some True"
  by code_simp

theorem closed_window_reopens_witness:
  "\<exists>a b a' b'. net_step\<^sup>*\<^sup>* (new_endpoint 7 (new_world []), new_endpoint 7 (new_world [])) (a, b) \<and>
     rmtWnd (ep_rudp a) = 0 \<and> unusedWnd (ep_rudp b) = 1 \<and>
     (unaided_step (length (packets (ep_world a))) (length (packets (ep_world b))))\<^sup>*\<^sup>* (a, b) (a', b') \<and>
     rmtWnd (ep_rudp a') = ucast (unusedWnd (ep_rudp b'))"
proof -
  let ?e = "new_endpoint 7 (new_world [])"
  obtain a0 where a0: "do_calls [] [Call_NoDelay (-1) (-1) (-1) 1, Call_Send [1], Call_Flush] ?e = Some a0"
      "packets (ep_world a0) = [first_packet]" "ep_app a0 = [1]"
    using first_packet_sent by (auto simp del: do_calls.simps)
  obtain b p where b: "do_calls [first_packet] [Call_WndSize 0 1, Call_Packet 0, Call_Flush, Call_Read [0]] ?e = Some b"
      "p \<in> set (packets (ep_world b))" "tells 7 0 IRUDP_CMD_ACK p" "ep_app b = []" "unusedWnd (ep_rudp b) = 1"
    using window_closed by (auto simp del: do_calls.simps)
  have out: "out_calls (new_world []) = []" by (simp add: new_world_def)
  have "net_step\<^sup>*\<^sup>* (?e, ?e) (a0, ?e)"
    using net_left_run [of ?e ?e a0] do_calls_steps [OF a0(1)] by (simp add: new_endpoint_def new_world_def packets_def)
  also have "net_step\<^sup>*\<^sup>* (a0, ?e) (a0, b)"
    using net_right_run [of a0 ?e b] do_calls_steps [OF b(1)] a0(2) by simp
  finally have run: "net_step\<^sup>*\<^sup>* (?e, ?e) (a0, b)" .
  note ok = reached(2,3) [OF run_swap [OF run] out out]
  obtain code r w where put: "Input p True False (ep_rudp a0) (ep_world a0) = Some (code, r, w)"
    by (rule takes_packet [OF _ _ b(3)]) (use ok a0(3) b(4) in simp_all)
  let ?a = "ran a0 r w"
  have "net_step (a0, b) (?a, b)" by (rule net_step.left, rule ep_step.packet [OF b(2) put])
  with run have run': "net_step\<^sup>*\<^sup>* (?e, ?e) (?a, b)" by simp
  have closed: "rmtWnd (ep_rudp ?a) = 0" using Input_believes [OF _ _ b(3) put] ok a0(3) b(4) by simp
  have small: "length (ep_app ?a) < 2 ^ 32" "length (ep_app b) < 2 ^ 32" using a0(3) b(4) by simp_all
  obtain a' b' where "(unaided_step (length (packets (ep_world ?a))) (length (packets (ep_world b))))\<^sup>*\<^sup>* (?a, b) (a', b')"
    "rmtWnd (ep_rudp a') = ucast (unusedWnd (ep_rudp b'))"
    using closed_window_reopens [OF run' out out small closed refl refl] ran_simps(1) by metis
  then show ?thesis using run' closed b(5) by blast
qed

end
