(* ===== verification/Spec2Isabelle.thy ===== *)
theory Spec2Isabelle
  imports Session_Network Session_Events Session_Loops Progress Long_Message Listener_Spec Timesched Echo_Net Stall Window_Probe
begin

text \<open>
  A verification library for rudp-go, a reliable message and stream protocol over UDP written
  in Go. The definitions are translated from the sources under \<^verbatim>\<open>src/\<close> and can be executed;
  the theorems say what each part promises, and where the code does not keep a promise.

  \<^bold>\<open>The program.\<close> The engine \<^verbatim>\<open>RUDP\<close> (\<^verbatim>\<open>rudp.go\<close>) cuts the user's bytes into numbered
  segments, retransmits them until they are acknowledged and puts arriving segments back in
  order. A session (\<^verbatim>\<open>sess.go\<close>) owns one engine and gives it to users as a \<^verbatim>\<open>net.Conn\<close>; the
  engine's packets go through its transmission queue to the socket (\<^verbatim>\<open>tx.go\<close>,
  \<^verbatim>\<open>tx_linux.go\<close>). Datagrams come from the read loop of a client session or from the monitor
  loop of a listener (\<^verbatim>\<open>readloop.go\<close>, \<^verbatim>\<open>readloop_linux.go\<close>, \<^verbatim>\<open>listener.go\<close>), which finds or
  opens the session of the sender. The scheduler (\<^verbatim>\<open>timesched.go\<close>) calls \<^verbatim>\<open>update\<close> of every
  session, which flushes the engine and puts itself back. All of it counts in \<^verbatim>\<open>snmp.go\<close>.

  \<^bold>\<open>The model.\<close> Structs are records with the fields of the code, fixed-width integers are
  words, an operation takes the state and returns it updated. \<^const>\<open>None\<close> is a panic (an index
  or slice out of range, a division by zero) or a loop that does not end. The clock, the results
  of the socket and the choices of \<^verbatim>\<open>select\<close> are arguments or sequences in the state, so that
  theorems hold for all of them.

  \<^item> \<^verbatim>\<open>Rudp_Prelude\<close>: integer types, constants, \<^verbatim>\<open>min\<close>, \<^verbatim>\<open>max\<close>, \<^verbatim>\<open>bound\<close>, \<^verbatim>\<open>timeDiff\<close>.
    \<^verbatim>\<open>Snmp\<close>: the counters. \<^verbatim>\<open>World\<close>: clock, counters and the list of output calls.
    \<^verbatim>\<open>Go_Slice\<close>: slices with their backing array, for the two in-place edits of \<^verbatim>\<open>rudp.go\<close>;
    they are shown to agree with the list operations the rest uses.
    \<^verbatim>\<open>Wire\<close>: segments, field encoders and decoders (locale \<open>byte_codec\<close>).
  \<^item> \<^verbatim>\<open>Rudp_State\<close>, \<^verbatim>\<open>Rudp_Send\<close>, \<^verbatim>\<open>Rudp_Receive\<close>, \<^verbatim>\<open>Rudp_Ack\<close>, \<^verbatim>\<open>Rudp_Flush\<close>,
    \<^verbatim>\<open>Rudp_Input\<close>, \<^verbatim>\<open>Rudp_Config\<close>: the operations of the engine, one definition per function and
    per loop.
  \<^item> \<^verbatim>\<open>Rudp_Reassembly\<close>, \<^verbatim>\<open>Inorder\<close>, \<^verbatim>\<open>Rudp_Refine\<close>: the receiving half implements an abstract
    store-and-drain receiver and delivers in order. \<^verbatim>\<open>Rudp_Packets\<close>, \<^verbatim>\<open>Rudp_Transmit\<close>,
    \<^verbatim>\<open>Rudp_Flush_Spec\<close>: what \<^verbatim>\<open>flush\<close> outputs and keeps. \<^verbatim>\<open>Rudp_Parse\<close>, \<^verbatim>\<open>Rudp_Input_Spec\<close>,
    \<^verbatim>\<open>Rudp_Connection\<close>: \<^verbatim>\<open>Input\<close> is a parser and a fold; the locales \<open>header_contract\<close>,
    \<open>header_input\<close>, \<open>segment_contract\<close>, \<open>input_contract\<close> and \<open>total_contract\<close> carry an
    invariant of the steps through it, and each invariant of the development is an
    interpretation. \<^verbatim>\<open>Rudp_Timeout\<close>: what happens when a retransmission timer expires.
    \<^verbatim>\<open>Long_Message\<close>: messages the receive window cannot hold.
  \<^item> \<^verbatim>\<open>Send_Pieces\<close>, \<^verbatim>\<open>Link\<close>, \<^verbatim>\<open>Network\<close>: two engines over a network that loses, repeats and
    reorders packets. \<open>ep_step\<close> gives an end any packet the other has ever output.
    \<^verbatim>\<open>Acked\<close>: every acknowledgement under way names only what its sender has received, so that
    nothing leaves the other side's buffer too early. \<^verbatim>\<open>Progress\<close>: from every reachable state a
    missing segment is sent again and can be taken; \<open>unaided_step\<close> is what goes on there without
    the users and without any packet already under way: the clock, the periodic \<^verbatim>\<open>flush\<close> of
    each end (\<open>alone_step\<close>) and the arrival of new packets. \<^verbatim>\<open>Net_Script\<close>: executable runs of this
    network; \<^verbatim>\<open>Window_Probe\<close>: a sender that believes the window closed asks, is answered and
    finds out what it is, also by \<open>unaided_step\<close> alone; \<^verbatim>\<open>Stall\<close>: a reachable state of two ends that lasts for ever, because the
    sender wrongly believes the window open.
  \<^item> \<^verbatim>\<open>Time_Heap\<close>, \<^verbatim>\<open>Timesched\<close>: the heap of tasks (locale \<open>deadline_queue\<close>) and the scheduler,
    all goroutines interleaved in \<open>sched_step\<close>.
  \<^item> \<^verbatim>\<open>Session_Tx\<close>, \<^verbatim>\<open>Session\<close>: the operations of a session; \<^verbatim>\<open>Rudp_Calls\<close>,
    \<^verbatim>\<open>Session_Tx_Spec\<close>, \<^verbatim>\<open>Session_Spec\<close>, \<^verbatim>\<open>Session_Safety\<close>: they never panic and always
    return; \<^verbatim>\<open>Session_Loops\<close>: when their two possibly endless loops end; \<^verbatim>\<open>Session_Frame\<close>,
    \<^verbatim>\<open>Session_Events\<close>: what the operations leave alone, and who wakes whom;
    \<^verbatim>\<open>Session_Network\<close>: two sessions simulate two engines, so that the end-to-end theorem
    holds for \<^verbatim>\<open>Read\<close> and \<^verbatim>\<open>Write\<close>.
  \<^item> \<^verbatim>\<open>Listener\<close>, \<^verbatim>\<open>Listener_Spec\<close>: a listener with a heap of sessions, and its invariant.
    \<^verbatim>\<open>Socket_Setup\<close>: \<^verbatim>\<open>Listen\<close>, \<^verbatim>\<open>ServeConn\<close>, \<^verbatim>\<open>Dial\<close>, \<^verbatim>\<open>NewConn\<close>, the socket options and the
    portable variants (\<^verbatim>\<open>tx_generic.go\<close>, \<^verbatim>\<open>readloop_generic.go\<close>), with the package \<^verbatim>\<open>net\<close> as a
    parameter (\<open>net_env\<close>, \<open>pconn\<close>).
  \<^item> \<^verbatim>\<open>Echo_Users\<close>, \<^verbatim>\<open>Echo_Net\<close>: the echo programs of \<^verbatim>\<open>example/\<close> (\<^verbatim>\<open>echo.go\<close>,
    \<^verbatim>\<open>client_echo.go\<close>, \<^verbatim>\<open>server_echo.go\<close>) as users of sessions. The locale \<open>session_user\<close> states
    what a program promises (its own history accounts for the bytes of its session), \<open>two_users\<close>
    lets two of them talk over the network of \<^verbatim>\<open>Session_Network\<close>, and the handler and the clients
    are its interpretations.

  \<^bold>\<open>What is shown.\<close> Delivery: what one side reads is a prefix of what the other side
  wrote, for engines and for sessions; a payload is stored by the receiver or kept, unmarked, by the
  sender; and from every reachable state, when all that is under way is lost, a missing segment within
  the window is retransmitted and can be taken, and a closed window can be found open again; an echo
  client reads back what it sent. Safety: no packet and no history of calls makes the engine, a session,
  a server or the scheduler panic or hang. Contracts: \<^verbatim>\<open>Send\<close> cuts without loss,
  \<^verbatim>\<open>flush\<close> outputs whole segments within the MTU, delivers every acknowledgement
  and respects the window, \<^verbatim>\<open>Input\<close> parses back what the encoders wrote
  (\<open>encode_segments\<close>), acknowledgements touch exactly their segments, the retransmission
  timeout follows its recurrence within bounds, any sequence of settings (\<open>run_config\<close>) that
  leaves room for the segments that wait keeps \<^verbatim>\<open>flush\<close> safe, tasks run once and
  not early, no wake-up is lost (\<open>leaves_waiting\<close> names the two events left out), packets
  touch only their own session. Deviations: theorems of kind error, and lemmas named as evidence for
  findings, show inputs on which the code does something it does not mean to do.

  \<^bold>\<open>Bounds and assumptions.\<close> The end-to-end theorems ask for fewer than
  \<open>2^32\<close> numbered segments (written bytes, for sessions), because sequence numbers are
  compared without wrap-around (see \<open>parseData_stalls_at_wrap\<close>). \<open>batches_ok\<close>
  is the documented contract of \<^verbatim>\<open>WriteBatch\<close>: without an error at least one and
  at most all messages were sent. The recursion of the loops is structural or has a measure; the two
  loops that can run for ever, \<^verbatim>\<open>WriteBuffers\<close> with an MSS of 0 and
  \<^verbatim>\<open>tx\<close> with a socket that sends nothing, are \<open>partial_function\<close>s
  and shown to return or not (\<^verbatim>\<open>Session_Loops\<close>).
  \<^verbatim>\<open>SetMtu\<close> is left out of the end-to-end theorems and restricted in the safety
  of sessions (\<open>mtu_fits\<close>), because it can make \<^verbatim>\<open>flush\<close> panic
  (\<open>resend_panics_after_shrink\<close>); \<^verbatim>\<open>Close\<close> drops unsent bytes, which
  a prefix allows, but reuses the queue's numbering, and is left out of the end-to-end theorems too.

  \<^bold>\<open>Not modelled.\<close> Interleavings within a region locked by the session's mutex or within the
  monitor goroutine are single steps, and so is the \<^verbatim>\<open>Close\<close> of a served session in the
  histories of a server (\<open>close_served\<close>, the two regions \<open>close_locked\<close> and \<open>close_unlist\<close> one right
  after the other; \<open>close_race_orphans_session\<close> is a run with a packet between them that breaks the
  invariant of the table); other races of the code outside its locks are not covered.
  Addresses are their strings; pools of buffers are only modelled in the size they give. Forward
  error correction, checksums and encryption are TODO comments in the code; that packets of
  sessions with a cipher are dropped is modelled. The operating system's name resolution, sockets
  and the random source are parameters. \<^verbatim>\<open>crypt.go\<close> is an empty interface and \<^verbatim>\<open>batchConn.go\<close>
  the declaration of one. Of the examples, flags, log output and sleeping are left out, and the
  \<^verbatim>\<open>echo_udp\<close> programs, which use the package \<^verbatim>\<open>net\<close> and nothing of this library; the tests
  are left out too.
\<close>

section \<open>Properties of several components\<close>

text \<open>
  Claim C33. Batched and portable loops agree. The Linux loops with \<^verbatim>\<open>ReadBatch\<close>, of a client
  session and of a listener, treat the datagrams of all batches exactly as the portable loops
  treat them one by one, wherever the batches end, and so does the error that ends them; after
  an error of \<^verbatim>\<open>recvmmsg\<close> they go on as the portable loops.
\<close>

theorem read_loops_agree:
  "readLoop (map Inr bs @ Inl err # later) singles (s\<lparr>s_xconn := True\<rparr>) h =
     (if err = OpSyscall ''recvmmsg''
      then do { (s, h) \<leftarrow> defaultReadLoop (map Inr (concat bs)) '''' (s\<lparr>s_xconn := True\<rparr>) h; defaultReadLoop singles '''' s h }
      else defaultReadLoop (map Inr (concat bs) @ Inl err # later') '''' (s\<lparr>s_xconn := True\<rparr>) h) \<and>
   monitor True (map Inr ms @ Inl err # mlater) msingles sv =
     (if err = OpSyscall ''recvmmsg''
      then do { sv \<leftarrow> defaultMonitor True (map Inr (concat ms)) sv; defaultMonitor True msingles sv }
      else defaultMonitor True (map Inr (concat ms) @ Inl err # mlater') sv)"
  by (intro conjI readLoop_batches monitor_agrees)

end
